(* ===== verification/Py_Prelude.thy ===== *)
theory Py_Prelude
  imports Complex_Main "HOL-Library.AList"
begin

text \<open>
  The vocabulary the component theories share: Python values and the exceptions the
  modelled code can raise, the operations of the language and of its standard containers
  that the sources use (subscription, slices, \<open>list.index\<close>, dictionaries, truth values,
  \<open>==\<close> against an integer), and a state-and-exception monad with its weakest
  preconditions. A computation returns the state also when it raises, because a Python
  method that raises keeps the assignments it has made.
\<close>

section \<open>Python values and exceptions\<close>

datatype py_error =
    TypeError
  | KeyError string
  | IndexError
  | ValueError
  | AttributeError string
  | NameError string
  | OverflowError
  | OSError int
  | FileNotFoundError
  | RuntimeError
  | KeyboardInterrupt

datatype pyval =
    PyNone
  | PyBool bool
  | PyInt int
  | PyStr string
  | PyList "pyval list"
  | PyTuple "pyval list"
  | PyDict "(string \<times> pyval) list"

text \<open>
  Dictionaries keep their insertion order; \<open>d.update(e)\<close> overwrites in place and appends
  new keys. Reading a key of something that is not a dictionary is a \<open>TypeError\<close>.
\<close>

definition py_dict_update :: "(string \<times> pyval) list \<Rightarrow> (string \<times> pyval) list \<Rightarrow> (string \<times> pyval) list" where
  "py_dict_update d e = foldl (\<lambda>acc (k, v). AList.update k v acc) d e"

definition py_subscript :: "pyval \<Rightarrow> string \<Rightarrow> py_error + pyval" where
  "py_subscript d k =
     (case d of
        PyDict kvs \<Rightarrow> (case map_of kvs k of None \<Rightarrow> Inl (KeyError k) | Some v \<Rightarrow> Inr v)
      | _ \<Rightarrow> Inl TypeError)"

text \<open>Truth value testing, as \<open>if (x)\<close> does it.\<close>

fun py_truthy :: "pyval \<Rightarrow> bool" where
  "py_truthy PyNone = False"
| "py_truthy (PyBool b) = b"
| "py_truthy (PyInt i) = (i \<noteq> 0)"
| "py_truthy (PyStr s) = (s \<noteq> [])"
| "py_truthy (PyList xs) = (xs \<noteq> [])"
| "py_truthy (PyTuple xs) = (xs \<noteq> [])"
| "py_truthy (PyDict d) = (d \<noteq> [])"

text \<open>\<open>v == k\<close> for an integer constant \<open>k\<close>: never raises; \<open>True == 1\<close> holds in Python.\<close>

fun py_eq_int :: "pyval \<Rightarrow> int \<Rightarrow> bool" where
  "py_eq_int (PyInt i) k = (i = k)"
| "py_eq_int (PyBool b) k = (of_bool b = k)"
| "py_eq_int _ k = False"

text \<open>The integer operand of \<open><\<close>, \<open>+\<close> or \<open>[]\<close>: anything but an integer or a bool raises.\<close>

fun py_as_int :: "pyval \<Rightarrow> py_error + int" where
  "py_as_int (PyInt i) = Inr i"
| "py_as_int (PyBool b) = Inr (of_bool b)"
| "py_as_int _ = Inl TypeError"

text \<open>
  Keys of a dictionary must be hashable; \<open>True\<close> and \<open>1\<close> are the same key.
\<close>

fun py_hashable :: "pyval \<Rightarrow> bool" where
  "py_hashable (PyList _) = False"
| "py_hashable (PyDict _) = False"
| "py_hashable (PyTuple xs) = list_all py_hashable xs"
| "py_hashable _ = True"

fun py_hash_key :: "pyval \<Rightarrow> pyval" where
  "py_hash_key (PyBool b) = PyInt (of_bool b)"
| "py_hash_key (PyTuple xs) = PyTuple (map py_hash_key xs)"
| "py_hash_key v = v"

text \<open>
  \<open>json.loads(json.dumps(v))\<close>: the identity on JSON-shaped values, except that a tuple
  comes back as a list.
\<close>

fun json_norm :: "pyval \<Rightarrow> pyval" where
  "json_norm (PyTuple xs) = PyList (map json_norm xs)"
| "json_norm (PyList xs) = PyList (map json_norm xs)"
| "json_norm (PyDict d) = PyDict (map (\<lambda>(k, v). (k, json_norm v)) d)"
| "json_norm v = v"

fun json_plain :: "pyval \<Rightarrow> bool" where
  "json_plain (PyTuple _) = False"
| "json_plain (PyList xs) = list_all json_plain xs"
| "json_plain (PyDict d) = list_all (\<lambda>(k, v). json_plain v) d"
| "json_plain _ = True"

lemma json_norm_plain [simp]: "json_plain v \<Longrightarrow> json_norm v = v"
proof (induction v rule: json_norm.induct)
  case (3 d)
  then have "\<forall>kv \<in> set d. (\<lambda>(k, v). (k, json_norm v)) kv = kv"
    by (auto simp: list_all_iff)
  then show ?case
    by (simp add: map_idI)
qed (auto simp: list_all_iff map_idI)

lemma json_plain_norm [simp]: "json_plain (json_norm v)"
  by (induction v rule: json_norm.induct) (auto simp: list_all_iff)

section \<open>Lists as the sources use them\<close>

text \<open>Subscription with Python's negative indices, assignment to an index, \<open>xs[:n]\<close>.\<close>

definition py_norm_index :: "nat \<Rightarrow> int \<Rightarrow> int" where
  "py_norm_index n i = (if i < 0 then i + int n else i)"

definition py_getitem :: "'a list \<Rightarrow> int \<Rightarrow> py_error + 'a" where
  "py_getitem xs i =
     (let j = py_norm_index (length xs) i
      in if 0 \<le> j \<and> j < int (length xs) then Inr (xs ! nat j) else Inl IndexError)"

definition py_setitem :: "'a list \<Rightarrow> int \<Rightarrow> 'a \<Rightarrow> py_error + 'a list" where
  "py_setitem xs i v =
     (let j = py_norm_index (length xs) i
      in if 0 \<le> j \<and> j < int (length xs) then Inr (xs[nat j := v]) else Inl IndexError)"

definition py_take :: "int \<Rightarrow> 'a list \<Rightarrow> 'a list" where
  "py_take n xs = take (nat (py_norm_index (length xs) n)) xs"

text \<open>\<open>xs.index(x)\<close>: the first position, or \<open>ValueError\<close>.\<close>

fun py_index :: "'a list \<Rightarrow> 'a \<Rightarrow> py_error + int" where
  "py_index [] x = Inl ValueError"
| "py_index (y # ys) x =
     (if x = y then Inr 0
      else case py_index ys x of Inl e \<Rightarrow> Inl e | Inr i \<Rightarrow> Inr (i + 1))"

lemma py_getitem_nonneg [simp]:
  "0 \<le> i \<Longrightarrow> i < int (length xs) \<Longrightarrow> py_getitem xs i = Inr (xs ! nat i)"
  by (simp add: py_getitem_def py_norm_index_def)

lemma py_getitem_beyond [simp]: "int (length xs) \<le> i \<Longrightarrow> py_getitem xs i = Inl IndexError"
  by (simp add: py_getitem_def py_norm_index_def)

lemma py_getitem_last [simp]: "xs \<noteq> [] \<Longrightarrow> py_getitem xs (- 1) = Inr (last xs)"
  by (cases xs rule: rev_cases) (auto simp: py_getitem_def py_norm_index_def nth_append)

lemma py_setitem_nonneg [simp]:
  "0 \<le> i \<Longrightarrow> i < int (length xs) \<Longrightarrow> py_setitem xs i v = Inr (xs[nat i := v])"
  by (simp add: py_setitem_def py_norm_index_def)

lemma py_take_nonneg [simp]: "0 \<le> n \<Longrightarrow> py_take n xs = take (nat n) xs"
  by (simp add: py_take_def py_norm_index_def)

lemma py_index_mem:
  "x \<in> set xs \<Longrightarrow> \<exists>i. py_index xs x = Inr i \<and> 0 \<le> i \<and> i < int (length xs) \<and> xs ! nat i = x"
proof (induction xs)
  case Nil
  then show ?case by simp
next
  case (Cons y ys)
  show ?case
  proof (cases "x = y")
    case True
    then show ?thesis by simp
  next
    case False
    with Cons obtain i where
      "py_index ys x = Inr i" "0 \<le> i" "i < int (length ys)" "ys ! nat i = x"
      by auto
    with False show ?thesis
      by (auto simp: nat_add_distrib)
  qed
qed

lemma py_index_not_mem: "x \<notin> set xs \<Longrightarrow> py_index xs x = Inl ValueError"
  by (induction xs) auto

lemma py_index_nth:
  "distinct xs \<Longrightarrow> i < length xs \<Longrightarrow> py_index xs (xs ! i) = Inr (int i)"
proof (induction xs arbitrary: i)
  case Nil
  then show ?case by simp
next
  case (Cons y ys)
  then show ?case
    by (cases i) auto
qed

section \<open>Results without state\<close>

definition rbind :: "py_error + 'a \<Rightarrow> ('a \<Rightarrow> py_error + 'b) \<Rightarrow> py_error + 'b" where
  "rbind r f = (case r of Inl e \<Rightarrow> Inl e | Inr a \<Rightarrow> f a)"

lemma rbind_simps [simp]:
  "rbind (Inl e) f = Inl e"
  "rbind (Inr a) f = f a"
  by (simp_all add: rbind_def)

lemma rbind_Inr_iff: "rbind r f = Inr b \<longleftrightarrow> (\<exists>a. r = Inr a \<and> f a = Inr b)"
  by (cases r) auto

section \<open>State and exceptions\<close>

type_synonym ('s, 'a) py = "'s \<Rightarrow> (py_error + 'a) \<times> 's"

definition ret :: "'a \<Rightarrow> ('s, 'a) py" where
  "ret a = (\<lambda>s. (Inr a, s))"

definition raise :: "py_error \<Rightarrow> ('s, 'a) py" where
  "raise e = (\<lambda>s. (Inl e, s))"

definition bnd :: "('s, 'a) py \<Rightarrow> ('a \<Rightarrow> ('s, 'b) py) \<Rightarrow> ('s, 'b) py" where
  "bnd m f = (\<lambda>s. case m s of (Inl e, s') \<Rightarrow> (Inl e, s') | (Inr a, s') \<Rightarrow> f a s')"

definition seq :: "('s, 'a) py \<Rightarrow> ('s, 'b) py \<Rightarrow> ('s, 'b) py" where
  "seq m n = bnd m (\<lambda>_. n)"

definition gets :: "('s \<Rightarrow> 'a) \<Rightarrow> ('s, 'a) py" where
  "gets f = (\<lambda>s. (Inr (f s), s))"

definition modify :: "('s \<Rightarrow> 's) \<Rightarrow> ('s, unit) py" where
  "modify f = (\<lambda>s. (Inr (), f s))"

definition lift_result :: "py_error + 'a \<Rightarrow> ('s, 'a) py" where
  "lift_result r = (\<lambda>s. (r, s))"

definition when_py :: "bool \<Rightarrow> ('s, unit) py \<Rightarrow> ('s, unit) py" where
  "when_py b m = (if b then m else ret ())"

text \<open>A \<open>for\<close> loop over a list, left to right, stopping at the first exception.\<close>

fun for_each :: "'a list \<Rightarrow> ('a \<Rightarrow> ('s, unit) py) \<Rightarrow> ('s, unit) py" where
  "for_each [] f = ret ()"
| "for_each (x # xs) f = seq (f x) (for_each xs f)"

subsection \<open>Weakest preconditions\<close>

text \<open>
  \<open>wp m Q E s\<close>: run from \<open>s\<close>, the computation \<open>m\<close> either returns a value and a state
  satisfying \<open>Q\<close> or raises with an exception and a state satisfying \<open>E\<close>. The rules are
  equations, so \<open>simp add: wp\<close> executes a handler symbolically.
\<close>

named_theorems wp

definition wp :: "('s, 'a) py \<Rightarrow> ('a \<Rightarrow> 's \<Rightarrow> bool) \<Rightarrow> (py_error \<Rightarrow> 's \<Rightarrow> bool) \<Rightarrow> 's \<Rightarrow> bool" where
  "wp m Q E s = (case m s of (Inl e, s') \<Rightarrow> E e s' | (Inr a, s') \<Rightarrow> Q a s')"

lemma wp_ret [abs_def, wp]: "wp (ret a) Q E s = Q a s"
  by (simp add: wp_def ret_def)

lemma wp_raise [abs_def, wp]: "wp (raise e) Q E s = E e s"
  by (simp add: wp_def raise_def)

lemma wp_bnd [abs_def, wp]: "wp (bnd m f) Q E s = wp m (\<lambda>a. wp (f a) Q E) E s"
  by (simp add: wp_def bnd_def split: prod.splits sum.splits)

lemma wp_seq [abs_def, wp]: "wp (seq m n) Q E s = wp m (\<lambda>_. wp n Q E) E s"
  by (simp add: seq_def wp_bnd)

lemma wp_gets [abs_def, wp]: "wp (gets f) Q E s = Q (f s) s"
  by (simp add: wp_def gets_def)

lemma wp_modify [abs_def, wp]: "wp (modify f) Q E s = Q () (f s)"
  by (simp add: wp_def modify_def)

lemma wp_lift_result [abs_def, wp]:
  "wp (lift_result r) Q E s \<longleftrightarrow> (\<forall>e. r = Inl e \<longrightarrow> E e s) \<and> (\<forall>a. r = Inr a \<longrightarrow> Q a s)"
  by (simp add: wp_def lift_result_def split: sum.splits)

lemma wp_when_py [abs_def, wp]:
  "wp (when_py b m) Q E s \<longleftrightarrow> (b \<longrightarrow> wp m Q E s) \<and> (\<not> b \<longrightarrow> Q () s)"
  by (simp add: when_py_def wp_ret)

lemma wp_if [abs_def, wp]:
  "wp (if b then m else n) Q E s \<longleftrightarrow> (b \<longrightarrow> wp m Q E s) \<and> (\<not> b \<longrightarrow> wp n Q E s)"
  by simp

lemma wp_case_option [abs_def, wp]:
  "wp (case x of None \<Rightarrow> m | Some y \<Rightarrow> f y) Q E s \<longleftrightarrow>
     (x = None \<longrightarrow> wp m Q E s) \<and> (\<forall>y. x = Some y \<longrightarrow> wp (f y) Q E s)"
  by (cases x) simp_all

lemma wp_case_prod [abs_def, wp]:
  "wp (case p of (a, b) \<Rightarrow> f a b) Q E s \<longleftrightarrow> (\<forall>a b. p = (a, b) \<longrightarrow> wp (f a b) Q E s)"
  by (cases p) simp

lemma wp_state [abs_def, wp]: "wp (\<lambda>s. (Inr (f s), g s)) Q E s = Q (f s) (g s)"
  by (simp add: wp_def)

lemma wp_let [abs_def, wp]: "wp (let x = e in f x) Q E s = (let x = e in wp (f x) Q E s)"
  by simp

lemma wp_mono:
  "wp m Q E s \<Longrightarrow> (\<And>a t. Q a t \<Longrightarrow> Q' a t) \<Longrightarrow> (\<And>e t. E e t \<Longrightarrow> E' e t) \<Longrightarrow> wp m Q' E' s"
  by (auto simp: wp_def split: prod.splits sum.splits)

lemma wp_trivial: "wp m (\<lambda>_ _. True) (\<lambda>_ _. True) s"
  by (simp add: wp_def split: prod.splits sum.splits)

lemma wp_conj:
  "wp m (\<lambda>a t. Q a t \<and> Q' a t) (\<lambda>e t. E e t \<and> E' e t) s \<longleftrightarrow> wp m Q E s \<and> wp m Q' E' s"
  by (auto simp: wp_def split: prod.splits sum.splits)

lemma wp_returns: "wp m Q E s \<Longrightarrow> m s = (Inr a, t) \<Longrightarrow> Q a t"
  by (simp add: wp_def)

lemma wp_raises: "wp m Q E s \<Longrightarrow> m s = (Inl e, t) \<Longrightarrow> E e t"
  by (simp add: wp_def)

lemma wp_total: "wp m Q (\<lambda>_ _. False) s \<Longrightarrow> \<exists>a t. m s = (Inr a, t) \<and> Q a t"
  by (auto simp: wp_def split: prod.splits sum.splits)

lemma wp_I:
  "(\<And>a t. m s = (Inr a, t) \<Longrightarrow> Q a t) \<Longrightarrow> (\<And>e t. m s = (Inl e, t) \<Longrightarrow> E e t) \<Longrightarrow> wp m Q E s"
  by (auto simp: wp_def split: prod.splits sum.splits)

text \<open>
  The loop rule: an invariant over the elements still to visit, kept by every iteration.
\<close>

lemma wp_for_each:
  assumes "I xs s"
    and "\<And>x ys t. I (x # ys) t \<Longrightarrow> wp (f x) (\<lambda>_ t'. I ys t') E t"
  shows "wp (for_each xs f) (\<lambda>_ t. I [] t) E s"
  using assms(1)
proof (induction xs arbitrary: s)
  case Nil
  then show ?case by (simp add: wp)
next
  case (Cons x xs)
  from assms(2) [OF Cons.prems] show ?case
    by (simp add: wp) (auto elim!: wp_mono intro: Cons.IH)
qed

subsection \<open>Frames\<close>

text \<open>
  \<open>always R m\<close>: whatever the start and whether it returns or raises, the computation ends
  in a state related by \<open>R\<close> to the start. For a reflexive and transitive \<open>R\<close> this is closed
  under every construct of the monad, so one frame property of all the methods is one
  interpretation of the locale and one look at the primitive assignments.
\<close>

definition always :: "('s \<Rightarrow> 's \<Rightarrow> bool) \<Rightarrow> ('s, 'a) py \<Rightarrow> bool" where
  "always R m \<longleftrightarrow> (\<forall>s. wp m (\<lambda>_ t. R s t) (\<lambda>_ t. R s t) s)"

lemma alwaysI: "(\<And>s. wp m (\<lambda>_ t. R s t) (\<lambda>_ t. R s t) s) \<Longrightarrow> always R m"
  by (simp add: always_def)

lemma alwaysD: "always R m \<Longrightarrow> wp m (\<lambda>_ t. R s t) (\<lambda>_ t. R s t) s"
  by (simp add: always_def)

lemma always_run: "always R m \<Longrightarrow> m s = (r, t) \<Longrightarrow> R s t"
  by (cases r) (auto simp: always_def wp_def dest!: spec [of _ s])

lemma always_mono: "always R m \<Longrightarrow> (\<And>s t. R s t \<Longrightarrow> R' s t) \<Longrightarrow> always R' m"
  unfolding always_def by (blast intro: wp_mono)

locale frame =
  fixes R :: "'s \<Rightarrow> 's \<Rightarrow> bool"
  assumes frame_refl: "R s s"
    and frame_trans: "R s t \<Longrightarrow> R t u \<Longrightarrow> R s u"
begin

lemma ret_frame: "always R (ret a)"
  by (simp add: always_def wp frame_refl)

lemma raise_frame: "always R (raise e)"
  by (simp add: always_def wp frame_refl)

lemma gets_frame: "always R (gets f)"
  by (simp add: always_def wp frame_refl)

lemma lift_result_frame: "always R (lift_result r)"
  by (simp add: always_def wp frame_refl split: sum.split)

lemma modify_frame: "(\<And>s. R s (f s)) \<Longrightarrow> always R (modify f)"
  by (simp add: always_def wp)

lemma bnd_frame:
  assumes "always R m" and "\<And>a. always R (f a)"
  shows "always R (bnd m f)"
proof (rule alwaysI)
  fix s
  have "wp m (\<lambda>_ t. R s t) (\<lambda>_ t. R s t) s"
    by (rule alwaysD [OF assms(1)])
  then have "wp m (\<lambda>a t. wp (f a) (\<lambda>_ u. R s u) (\<lambda>_ u. R s u) t) (\<lambda>_ t. R s t) s"
    by (rule wp_mono) (auto intro: wp_mono [OF alwaysD [OF assms(2)]] frame_trans)
  then show "wp (bnd m f) (\<lambda>_ t. R s t) (\<lambda>_ t. R s t) s"
    by (simp add: wp)
qed

lemma seq_frame: "always R m \<Longrightarrow> always R n \<Longrightarrow> always R (seq m n)"
  by (simp add: seq_def bnd_frame)

lemma when_frame: "always R m \<Longrightarrow> always R (when_py b m)"
  by (simp add: when_py_def ret_frame)

lemma if_frame: "always R m \<Longrightarrow> always R n \<Longrightarrow> always R (if b then m else n)"
  by simp

lemma option_frame:
  "always R m \<Longrightarrow> (\<And>y. always R (f y)) \<Longrightarrow> always R (case x of None \<Rightarrow> m | Some y \<Rightarrow> f y)"
  by (cases x) simp_all

lemma prod_frame: "(\<And>a b. always R (f a b)) \<Longrightarrow> always R (case p of (a, b) \<Rightarrow> f a b)"
  by (cases p) simp

lemma for_each_frame: "(\<And>x. always R (f x)) \<Longrightarrow> always R (for_each xs f)"
  by (induction xs) (auto intro: ret_frame seq_frame)

lemmas frame_intros =
  ret_frame raise_frame gets_frame lift_result_frame bnd_frame seq_frame when_frame
  if_frame option_frame prod_frame for_each_frame

end

text \<open>
  The frame of an invariant \<open>P\<close>. What a computation returns may be used by the next one
  together with what is known of it where \<open>P\<close> holds.
\<close>

definition preserving :: "('s \<Rightarrow> bool) \<Rightarrow> 's \<Rightarrow> 's \<Rightarrow> bool" where
  "preserving P s t \<longleftrightarrow> (P s \<longrightarrow> P t)"

interpretation preserving: frame "preserving P" for P
  by standard (simp_all add: preserving_def)

lemma preserving_bnd:
  assumes "\<And>s. P s \<Longrightarrow> wp m (\<lambda>a t. P t \<and> always (preserving P) (f a)) (\<lambda>_ t. P t) s"
  shows "always (preserving P) (bnd m f)"
proof (rule alwaysI)
  fix s
  show "wp (bnd m f) (\<lambda>_. preserving P s) (\<lambda>_. preserving P s) s"
  proof (cases "P s")
    case True
    have "wp (f a) (\<lambda>_. preserving P s) (\<lambda>_. preserving P s) t" if "P t" "always (preserving P) (f a)" for a t
      by (rule wp_mono [OF alwaysD [OF that(2)]]) (use that(1) in \<open>simp_all add: preserving_def\<close>)
    then show ?thesis
      unfolding wp_bnd by (intro wp_mono [OF assms [OF True]]) (auto simp: preserving_def)
  next
    case False
    show ?thesis
      by (rule wp_mono [OF wp_trivial]) (use False in \<open>simp_all add: preserving_def\<close>)
  qed
qed

lemma preservingI:
  assumes "\<And>s. P s \<Longrightarrow> wp m (\<lambda>_. P) (\<lambda>_. P) s"
  shows "always (preserving P) m"
proof -
  have "wp m (\<lambda>_ t. P s \<longrightarrow> P t) (\<lambda>_ t. P s \<longrightarrow> P t) s" for s
    using assms [of s] wp_trivial [of m s] by (cases "P s") simp_all
  then show ?thesis
    by (simp add: always_def preserving_def)
qed

lemmas py_run = ret_def raise_def bnd_def seq_def gets_def modify_def lift_result_def when_py_def

end
