(* ===== verification/Raft_Protocol.thy ===== *)
theory Raft_Protocol
  imports Py_Prelude
begin

text \<open>
  \<^verbatim>\<open>src/raft/protocol.py\<close>: the message classes, their dictionary form and the parser. A
  message object stores whatever values it was built from, so its attributes are Python
  values; inheritance from \<open>BaseMessage\<close> is record extension.
\<close>

section \<open>Message types and directions\<close>

definition MessageType_RequestVotes :: int where "MessageType_RequestVotes = 0"
definition MessageType_RequestVoteResponse :: int where "MessageType_RequestVoteResponse = 1"
definition MessageType_Heartbeat :: int where "MessageType_Heartbeat = 2"
definition MessageType_Acknowledge :: int where "MessageType_Acknowledge = 3"
definition MessageType_AppendEntries :: int where "MessageType_AppendEntries = 4"
definition MessageType_Committal :: int where "MessageType_Committal = 5"
definition MessageType_ClientRequest :: int where "MessageType_ClientRequest = 6"

definition MessageDirection_Request :: int where "MessageDirection_Request = 0"
definition MessageDirection_Response :: int where "MessageDirection_Response = 1"

lemmas message_type_defs =
  MessageType_RequestVotes_def MessageType_RequestVoteResponse_def MessageType_Heartbeat_def
  MessageType_Acknowledge_def MessageType_AppendEntries_def MessageType_Committal_def
  MessageType_ClientRequest_def MessageDirection_Request_def MessageDirection_Response_def

section \<open>Results\<close>

datatype results =
    is_RequestVotesResults: RequestVotesResults (r_term: pyval) (vote_granted: pyval)
  | is_AppendEntriesResults: AppendEntriesResults (r_term: pyval) (success: pyval)

text \<open>
  The constructors given a \<open>message\<close> that is not \<open>None\<close> read it, otherwise they store
  their other arguments, which default to \<open>None\<close>.
\<close>

definition RequestVotesResults_un_jsonify :: "pyval \<Rightarrow> py_error + results" where
  "RequestVotesResults_un_jsonify message =
     rbind (py_subscript message ''term'') (\<lambda>t.
     rbind (py_subscript message ''vote_granted'') (\<lambda>v.
     Inr (RequestVotesResults t v)))"

definition RequestVotesResults_init :: "pyval \<Rightarrow> pyval \<Rightarrow> pyval \<Rightarrow> py_error + results" where
  "RequestVotesResults_init t granted message =
     (if message \<noteq> PyNone then RequestVotesResults_un_jsonify message
      else Inr (RequestVotesResults t granted))"

definition AppendEntriesResults_un_jsonify :: "pyval \<Rightarrow> py_error + results" where
  "AppendEntriesResults_un_jsonify message =
     rbind (py_subscript message ''term'') (\<lambda>t.
     rbind (py_subscript message ''success'') (\<lambda>v.
     Inr (AppendEntriesResults t v)))"

definition AppendEntriesResults_init :: "pyval \<Rightarrow> pyval \<Rightarrow> pyval \<Rightarrow> py_error + results" where
  "AppendEntriesResults_init t succ message =
     (if message \<noteq> PyNone then AppendEntriesResults_un_jsonify message
      else Inr (AppendEntriesResults t succ))"

fun results_jsonify :: "results \<Rightarrow> pyval" where
  "results_jsonify (RequestVotesResults t v) = PyDict [(''term'', t), (''vote_granted'', v)]"
| "results_jsonify (AppendEntriesResults t v) = PyDict [(''term'', t), (''success'', v)]"

section \<open>Messages\<close>

record base_message =
  m_timestamp :: pyval
  m_type :: pyval
  m_term :: pyval
  m_sender :: pyval
  m_receiver :: pyval
  m_direction :: pyval
  m_results :: results

record request_votes_message = base_message +
  m_candidate_id :: pyval
  m_last_log_index :: pyval
  m_last_log_term :: pyval

record append_entries_message = base_message +
  m_leader_id :: pyval
  m_prev_log_index :: pyval
  m_prev_log_term :: pyval
  m_entries :: pyval
  m_leader_commit :: pyval

datatype message =
    RequestVotesMessage request_votes_message
  | AppendEntriesMessage append_entries_message

subsection \<open>To dictionaries\<close>

definition base_jsonify :: "'a base_message_scheme \<Rightarrow> (string \<times> pyval) list" where
  "base_jsonify m =
     [(''type'', m_type m), (''term'', m_term m), (''timestamp'', m_timestamp m),
      (''sender'', m_sender m), (''receiver'', m_receiver m), (''direction'', m_direction m),
      (''results'', results_jsonify (m_results m))]"

definition request_votes_jsonify :: "request_votes_message \<Rightarrow> pyval" where
  "request_votes_jsonify m =
     PyDict (py_dict_update (base_jsonify m)
       [(''candidate_id'', m_candidate_id m),
        (''last_log_index'', m_last_log_index m),
        (''last_log_term'', m_last_log_term m)])"

definition append_entries_jsonify :: "append_entries_message \<Rightarrow> pyval" where
  "append_entries_jsonify m =
     PyDict (py_dict_update (base_jsonify m)
       [(''leader_id'', m_leader_id m),
        (''prev_log_index'', m_prev_log_index m),
        (''prev_log_term'', m_prev_log_term m),
        (''entries'', m_entries m),
        (''leader_commit'', m_leader_commit m)])"

fun jsonify :: "message \<Rightarrow> pyval" where
  "jsonify (RequestVotesMessage m) = request_votes_jsonify m"
| "jsonify (AppendEntriesMessage m) = append_entries_jsonify m"

subsection \<open>From dictionaries\<close>

text \<open>
  \<open>un_jsonify\<close> reads the keys in the order of the source, so the first missing one is the
  one reported. Which results class is built depends on the type that was read.
\<close>

definition base_un_jsonify :: "pyval \<Rightarrow> py_error + base_message" where
  "base_un_jsonify message =
     rbind (py_subscript message ''type'') (\<lambda>ty.
     rbind (py_subscript message ''term'') (\<lambda>t.
     rbind (py_subscript message ''timestamp'') (\<lambda>ts.
     rbind (py_subscript message ''sender'') (\<lambda>sn.
     rbind (py_subscript message ''receiver'') (\<lambda>rc.
     rbind (py_subscript message ''direction'') (\<lambda>dr.
     rbind (py_subscript message ''results'') (\<lambda>rs.
     rbind (if py_eq_int ty MessageType_RequestVotes
            then RequestVotesResults_init PyNone PyNone rs
            else AppendEntriesResults_init PyNone PyNone rs) (\<lambda>r.
     Inr \<lparr>m_timestamp = ts, m_type = ty, m_term = t, m_sender = sn, m_receiver = rc,
          m_direction = dr, m_results = r\<rparr>))))))))"

definition request_votes_un_jsonify :: "pyval \<Rightarrow> py_error + request_votes_message" where
  "request_votes_un_jsonify message =
     rbind (base_un_jsonify message) (\<lambda>b.
     rbind (py_subscript message ''candidate_id'') (\<lambda>c.
     rbind (py_subscript message ''last_log_index'') (\<lambda>i.
     rbind (py_subscript message ''last_log_term'') (\<lambda>t.
     Inr (base_message.extend b
            (request_votes_message.fields c i t))))))"

definition append_entries_un_jsonify :: "pyval \<Rightarrow> py_error + append_entries_message" where
  "append_entries_un_jsonify message =
     rbind (base_un_jsonify message) (\<lambda>b.
     rbind (py_subscript message ''leader_id'') (\<lambda>l.
     rbind (py_subscript message ''prev_log_index'') (\<lambda>i.
     rbind (py_subscript message ''prev_log_term'') (\<lambda>t.
     rbind (py_subscript message ''entries'') (\<lambda>e.
     rbind (py_subscript message ''leader_commit'') (\<lambda>c.
     Inr (base_message.extend b
            (append_entries_message.fields l i t e c))))))))"

definition parse_json_message :: "pyval \<Rightarrow> py_error + message option" where
  "parse_json_message json_message =
     (if json_message = PyNone then Inr None
      else rbind (py_subscript json_message ''type'') (\<lambda>ty.
           if py_eq_int ty MessageType_RequestVotes
           then rbind (request_votes_un_jsonify json_message)
                      (\<lambda>m. Inr (Some (RequestVotesMessage m)))
           else rbind (append_entries_un_jsonify json_message)
                      (\<lambda>m. Inr (Some (AppendEntriesMessage m)))))"

section \<open>Attributes common to both classes, and those of one class\<close>

fun msg_type :: "message \<Rightarrow> pyval" where
  "msg_type (RequestVotesMessage m) = m_type m"
| "msg_type (AppendEntriesMessage m) = m_type m"

fun msg_term :: "message \<Rightarrow> pyval" where
  "msg_term (RequestVotesMessage m) = m_term m"
| "msg_term (AppendEntriesMessage m) = m_term m"

fun msg_sender :: "message \<Rightarrow> pyval" where
  "msg_sender (RequestVotesMessage m) = m_sender m"
| "msg_sender (AppendEntriesMessage m) = m_sender m"

fun msg_receiver :: "message \<Rightarrow> pyval" where
  "msg_receiver (RequestVotesMessage m) = m_receiver m"
| "msg_receiver (AppendEntriesMessage m) = m_receiver m"

fun msg_direction :: "message \<Rightarrow> pyval" where
  "msg_direction (RequestVotesMessage m) = m_direction m"
| "msg_direction (AppendEntriesMessage m) = m_direction m"

fun msg_results :: "message \<Rightarrow> results" where
  "msg_results (RequestVotesMessage m) = m_results m"
| "msg_results (AppendEntriesMessage m) = m_results m"

fun request_votes_attr :: "string \<Rightarrow> (request_votes_message \<Rightarrow> pyval) \<Rightarrow> message \<Rightarrow> py_error + pyval" where
  "request_votes_attr nm f (RequestVotesMessage m) = Inr (f m)"
| "request_votes_attr nm f (AppendEntriesMessage m) = Inl (AttributeError nm)"

fun append_entries_attr :: "string \<Rightarrow> (append_entries_message \<Rightarrow> pyval) \<Rightarrow> message \<Rightarrow> py_error + pyval" where
  "append_entries_attr nm f (AppendEntriesMessage m) = Inr (f m)"
| "append_entries_attr nm f (RequestVotesMessage m) = Inl (AttributeError nm)"

fun results_vote_granted :: "results \<Rightarrow> py_error + pyval" where
  "results_vote_granted (RequestVotesResults t v) = Inr v"
| "results_vote_granted (AppendEntriesResults t v) = Inl (AttributeError ''vote_granted'')"

fun results_success :: "results \<Rightarrow> py_error + pyval" where
  "results_success (AppendEntriesResults t v) = Inr v"
| "results_success (RequestVotesResults t v) = Inl (AttributeError ''success'')"

section \<open>The dictionary form carries the whole message\<close>

text \<open>
  A message is well classed when the class, the type it carries and the class of its
  results belong together, as in every message \<^verbatim>\<open>raft.py\<close> builds.
\<close>

fun well_classed :: "message \<Rightarrow> bool" where
  "well_classed (RequestVotesMessage m) =
     (py_eq_int (m_type m) MessageType_RequestVotes \<and> is_RequestVotesResults (m_results m))"
| "well_classed (AppendEntriesMessage m) =
     (\<not> py_eq_int (m_type m) MessageType_RequestVotes \<and> is_AppendEntriesResults (m_results m))"

lemmas jsonify_defs =
  request_votes_jsonify_def append_entries_jsonify_def base_jsonify_def py_dict_update_def

lemmas un_jsonify_defs =
  request_votes_un_jsonify_def append_entries_un_jsonify_def base_un_jsonify_def
  RequestVotesResults_init_def AppendEntriesResults_init_def
  RequestVotesResults_un_jsonify_def AppendEntriesResults_un_jsonify_def
  base_message.defs request_votes_message.defs append_entries_message.defs

lemma jsonify_not_None [simp]: "jsonify m \<noteq> PyNone"
  by (cases m) (simp_all add: jsonify_defs)

lemma results_jsonify_not_None [simp]: "results_jsonify r \<noteq> PyNone"
  by (cases r) simp_all

lemma parse_jsonify_message:
  assumes "well_classed m"
  shows "parse_json_message (jsonify m) = Inr (Some m)"
proof (cases m)
  case (RequestVotesMessage r)
  with assms show ?thesis
    by (cases r; cases "m_results r")
       (simp_all add: parse_json_message_def jsonify_defs un_jsonify_defs py_subscript_def)
next
  case (AppendEntriesMessage a)
  with assms show ?thesis
    by (cases a; cases "m_results a")
       (simp_all add: parse_json_message_def jsonify_defs un_jsonify_defs py_subscript_def)
qed

section \<open>Properties\<close>

text \<open>
  C16. What one node sends, another reads: the dictionary of a well-classed message whose
  fields are JSON values, taken through the JSON transport, parses to the same message.
\<close>

theorem message_round_trip:
  assumes "well_classed m" and "json_plain (jsonify m)"
  shows "parse_json_message (json_norm (jsonify m)) = Inr (Some m)"
  using assms by (simp add: parse_jsonify_message del: jsonify.simps)

definition sample_vote :: message where
  "sample_vote = RequestVotesMessage
     \<lparr>m_timestamp = PyInt 7, m_type = PyInt MessageType_RequestVotes, m_term = PyInt 2,
      m_sender = PyStr ''h:1'', m_receiver = PyStr ''h:2'',
      m_direction = PyInt MessageDirection_Response,
      m_results = RequestVotesResults (PyInt 2) (PyBool True), m_candidate_id = PyStr ''h:2'',
      m_last_log_index = PyInt 0, m_last_log_term = PyInt 1\<rparr>"

theorem message_round_trip_witness:
  "parse_json_message (json_norm (jsonify sample_vote)) = Inr (Some sample_vote)"
  by (rule message_round_trip)
     (simp_all add: sample_vote_def message_type_defs request_votes_jsonify_def base_jsonify_def
        py_dict_update_def)

end
