(* ===== verification/Raft_Transport.thy ===== *)
theory Raft_Transport
  imports Raft_Protocol
begin

text \<open>
  \<^verbatim>\<open>src/raft/interface.py\<close>: the \<open>Talker\<close> process, which publishes the messages a node puts
  into its queue, and the \<open>Listener\<close> process, which receives what every peer publishes and
  keeps what is addressed to its node. Both are state machines whose control points are the
  waiting points of \<open>run\<close>; what the zmq sockets do (a \<open>bind\<close> that fails, a message that
  \<open>poll\<close> finds) is an input of the step.
\<close>

section \<open>Queues\<close>

text \<open>
  \<open>queue.Queue\<close> and \<open>multiprocessing.Queue\<close>: unbounded, first in first out.
  \<open>get_nowait\<close> on an empty queue raises \<open>Empty\<close>, the value \<open>None\<close> here, which every
  caller in the sources catches.
\<close>

definition queue_put :: "'a \<Rightarrow> 'a list \<Rightarrow> 'a list" where
  "queue_put x q = q @ [x]"

definition queue_get_nowait :: "'a list \<Rightarrow> ('a \<times> 'a list) option" where
  "queue_get_nowait q = (case q of [] \<Rightarrow> None | x # q' \<Rightarrow> Some (x, q'))"

text \<open>
  What the processes rely on: a queue holds a sequence of elements, \<open>put\<close> appends to it and
  \<open>get_nowait\<close> takes its head.
\<close>

locale fifo_queue =
  fixes new :: 'q
    and put :: "'a \<Rightarrow> 'q \<Rightarrow> 'q"
    and get :: "'q \<Rightarrow> ('a \<times> 'q) option"
    and elems :: "'q \<Rightarrow> 'a list"
  assumes elems_new: "elems new = []"
    and elems_put: "elems (put x q) = elems q @ [x]"
    and get_empty: "get q = None \<longleftrightarrow> elems q = []"
    and get_head: "get q = Some (x, q') \<Longrightarrow> elems q = x # elems q'"
begin

lemma elems_fold_put: "elems (fold put xs q) = elems q @ xs"
  by (induction xs arbitrary: q) (simp_all add: elems_put)

lemma get_set: "get q = Some (x, q') \<Longrightarrow> set (elems q) = insert x (set (elems q'))"
  by (simp add: get_head)

lemma get_length: "get q = Some (x, q') \<Longrightarrow> length (elems q') < length (elems q)"
  by (simp add: get_head)

lemma first_put_first_got:
  assumes "elems q = []"
  shows "\<exists>q'. get (fold put (x # xs) q) = Some (x, q') \<and> elems q' = xs"
proof -
  have e: "elems (fold put (x # xs) q) = x # xs"
    using assms by (simp add: elems_fold_put elems_put)
  then obtain y q' where g: "get (fold put (x # xs) q) = Some (y, q')"
    by (cases "get (fold put (x # xs) q)") (auto simp: get_empty)
  from get_head [OF this] e show ?thesis
    using g by auto
qed

end

interpretation py_queue: fifo_queue "[]" queue_put queue_get_nowait "\<lambda>q. q"
  by unfold_locales (auto simp: queue_put_def queue_get_nowait_def split: list.splits)

lemma queue_get_nowait_simps [simp]:
  "queue_get_nowait [] = None"
  "queue_get_nowait (x # q) = Some (x, q)"
  by (simp_all add: queue_get_nowait_def)

section \<open>Talker\<close>

datatype talker_pc = T_Binding | T_Backoff | T_Running | T_Closed

record talker =
  t_address :: string
  t_messages :: "pyval list"
  t_ready :: bool
  t_stop :: bool
  t_pc :: talker_pc

definition Talker_init :: "string \<Rightarrow> talker" where
  "Talker_init my_id =
     \<lparr>t_address = my_id, t_messages = [], t_ready = False, t_stop = False, t_pc = T_Binding\<rparr>"

definition Talker_stop :: "talker \<Rightarrow> talker" where
  "Talker_stop t = t\<lparr>t_stop := True\<rparr>"

definition Talker_send_message :: "pyval \<Rightarrow> talker \<Rightarrow> talker" where
  "Talker_send_message msg t = t\<lparr>t_messages := queue_put msg (t_messages t)\<rparr>"

text \<open>
  \<open>wait_until_ready\<close> polls the ready event; one poll answers whether it may return.
\<close>

definition Talker_wait_until_ready :: "talker \<Rightarrow> bool option" where
  "Talker_wait_until_ready t = (if t_ready t then Some True else None)"

text \<open>
  One step of \<open>run\<close>: \<open>bound\<close> says whether \<open>pub_socket.bind\<close> succeeds at this attempt (it
  is retried until it does), and the second result is what \<open>send_json\<close> publishes.
\<close>

definition Talker_run_step :: "bool \<Rightarrow> talker \<Rightarrow> talker \<times> pyval option" where
  "Talker_run_step bound t =
     (case t_pc t of
        T_Binding \<Rightarrow> (if bound then t\<lparr>t_pc := T_Backoff\<rparr> else t, None)
      | T_Backoff \<Rightarrow> (t\<lparr>t_pc := T_Running, t_ready := True\<rparr>, None)
      | T_Running \<Rightarrow>
          (if t_stop t then (t\<lparr>t_pc := T_Closed\<rparr>, None)
           else case queue_get_nowait (t_messages t) of
                  None \<Rightarrow> (t, None)
                | Some (msg, q) \<Rightarrow> (t\<lparr>t_messages := q\<rparr>, Some msg))
      | T_Closed \<Rightarrow> (t, None))"

section \<open>Listener\<close>

datatype listener_pc = L_Connecting | L_Running | L_Closed | L_Crashed py_error

record listener =
  l_address_list :: "string list"
  l_my_id :: string
  l_messages :: "pyval list"
  l_stop :: bool
  l_pc :: listener_pc

definition Listener_init :: "string list \<Rightarrow> string \<Rightarrow> listener" where
  "Listener_init port_list my_id =
     \<lparr>l_address_list = port_list, l_my_id = my_id, l_messages = [], l_stop = False,
      l_pc = L_Connecting\<rparr>"

definition Listener_stop :: "listener \<Rightarrow> listener" where
  "Listener_stop l = l\<lparr>l_stop := True\<rparr>"

text \<open>The test on \<open>msg['receiver']\<close>: this node, or everybody.\<close>

definition addressed_to :: "string \<Rightarrow> pyval \<Rightarrow> py_error + bool" where
  "addressed_to me msg =
     rbind (py_subscript msg ''receiver'') (\<lambda>r. Inr (r = PyStr me \<or> r = PyNone))"

text \<open>
  One step of \<open>run\<close>: the input is what the poll of 100 ms finds. A message without a
  receiver raises and ends the process.
\<close>

definition Listener_run_step :: "pyval option \<Rightarrow> listener \<Rightarrow> listener" where
  "Listener_run_step polled l =
     (case l_pc l of
        L_Connecting \<Rightarrow> l\<lparr>l_pc := L_Running\<rparr>
      | L_Running \<Rightarrow>
          (if l_stop l then l\<lparr>l_pc := L_Closed\<rparr>
           else case polled of
                  None \<Rightarrow> l
                | Some msg \<Rightarrow>
                    (case addressed_to (l_my_id l) msg of
                       Inl e \<Rightarrow> l\<lparr>l_pc := L_Crashed e\<rparr>
                     | Inr True \<Rightarrow> l\<lparr>l_messages := queue_put msg (l_messages l)\<rparr>
                     | Inr False \<Rightarrow> l))
      | _ \<Rightarrow> l)"

definition Listener_get_message :: "listener \<Rightarrow> pyval \<times> listener" where
  "Listener_get_message l =
     (case queue_get_nowait (l_messages l) of
        None \<Rightarrow> (PyNone, l)
      | Some (msg, q) \<Rightarrow> (msg, l\<lparr>l_messages := q\<rparr>))"

section \<open>What the pair delivers\<close>

text \<open>
  \<open>publish_all\<close> runs a talker for a number of iterations and collects what it publishes;
  \<open>receive_all\<close> feeds a listener a sequence of received messages.
\<close>

fun publish_all :: "nat \<Rightarrow> talker \<Rightarrow> talker \<times> pyval list" where
  "publish_all 0 t = (t, [])"
| "publish_all (Suc n) t =
     (let (t', out) = Talker_run_step True t; (t'', outs) = publish_all n t'
      in (t'', (case out of None \<Rightarrow> outs | Some m \<Rightarrow> m # outs)))"

definition receive_all :: "pyval list \<Rightarrow> listener \<Rightarrow> listener" where
  "receive_all ms l = fold (\<lambda>m. Listener_run_step (Some m)) ms l"

lemma publish_running:
  "t_pc t = T_Running \<Longrightarrow> \<not> t_stop t \<Longrightarrow>
     publish_all (length (t_messages t)) t = (t\<lparr>t_messages := []\<rparr>, t_messages t)"
proof (induction "t_messages t" arbitrary: t)
  case Nil
  then show ?case by (metis list.size(3) publish_all.simps(1) talker.surjective talker.update_convs(2))
next
  case (Cons m ms)
  let ?t = "t\<lparr>t_messages := ms\<rparr>"
  have len: "length (t_messages t) = Suc (length ms)"
    by (simp flip: Cons.hyps(2))
  have step: "Talker_run_step True t = (?t, Some m)"
    using Cons.prems by (simp add: Talker_run_step_def flip: Cons.hyps(2))
  have "publish_all (length (t_messages ?t)) ?t = (?t\<lparr>t_messages := []\<rparr>, t_messages ?t)"
    using Cons.prems by (intro Cons.hyps(1)) simp_all
  then have "publish_all (length ms) ?t = (t\<lparr>t_messages := []\<rparr>, ms)"
    by simp
  with step show ?case
    by (simp add: len) (simp flip: Cons.hyps(2))
qed

text \<open>From a fresh talker: two more iterations bring it up.\<close>

lemma publish_fresh:
  "publish_all (Suc (Suc (length ms))) (fold Talker_send_message ms (Talker_init me)) =
     ((Talker_init me)\<lparr>t_pc := T_Running, t_ready := True\<rparr>, ms)"
proof -
  have msgs: "fold Talker_send_message ms t = t\<lparr>t_messages := t_messages t @ ms\<rparr>" for t
    by (induction ms arbitrary: t)
       (simp_all add: Talker_send_message_def queue_put_def)
  let ?t = "(Talker_init me)\<lparr>t_messages := ms, t_pc := T_Running, t_ready := True\<rparr>"
  have "publish_all (length (t_messages ?t)) ?t = (?t\<lparr>t_messages := []\<rparr>, t_messages ?t)"
    by (rule publish_running) (simp_all add: Talker_init_def)
  then show ?thesis
    by (simp add: msgs Talker_run_step_def Talker_init_def)
qed

lemma receive_running:
  assumes "l_pc l = L_Running" and "\<not> l_stop l"
    and "\<forall>m \<in> set ms. addressed_to (l_my_id l) m \<in> range Inr"
  shows "receive_all ms l =
     l\<lparr>l_messages := l_messages l @ filter (\<lambda>m. addressed_to (l_my_id l) m = Inr True) ms\<rparr>"
  using assms
proof (induction ms arbitrary: l)
  case Nil
  then show ?case by (simp add: receive_all_def)
next
  case (Cons m ms)
  define l' where "l' = Listener_run_step (Some m) l"
  from Cons.prems obtain b where b: "addressed_to (l_my_id l) m = Inr b"
    by auto
  have l': "l' = l\<lparr>l_messages := l_messages l @ (if b then [m] else [])\<rparr>"
    using Cons.prems b by (auto simp: l'_def Listener_run_step_def queue_put_def)
  have "receive_all ms l' =
      l'\<lparr>l_messages := l_messages l' @ filter (\<lambda>m. addressed_to (l_my_id l') m = Inr True) ms\<rparr>"
    using Cons.prems by (intro Cons.IH) (simp_all add: l')
  then show ?case
    by (simp add: receive_all_def flip: l'_def) (simp add: l' b)
qed

section \<open>Properties\<close>

text \<open>
  C17. The interface delivers in order and only what is addressed: of the dictionaries that a
  node queues at a fresh talker, each with a receiver, those arrive at a running listener of
  node \<open>me\<close>, after the talker's two start-up steps and one step per message and in the order
  sent, that have the address of \<open>me\<close> or \<open>None\<close> for their receiver, and no others.
\<close>

theorem talker_to_listener:
  assumes "l_pc l = L_Running" and "\<not> l_stop l" and "l_my_id l = me" and "l_messages l = []"
    and "list_all (\<lambda>d. map_of d ''receiver'' \<noteq> None) ds"
  shows "l_messages (receive_all
      (snd (publish_all (Suc (Suc (length ds))) (fold Talker_send_message (map PyDict ds) (Talker_init sender)))) l)
    = map PyDict (filter (\<lambda>d. map_of d ''receiver'' = Some (PyStr me) \<or> map_of d ''receiver'' = Some PyNone) ds)"
proof -
  have answer: "addressed_to me (PyDict d)
      = Inr (map_of d ''receiver'' = Some (PyStr me) \<or> map_of d ''receiver'' = Some PyNone)" if "d \<in> set ds" for d
    using assms(5) that by (auto simp: list_all_iff addressed_to_def py_subscript_def)
  then have "\<forall>m \<in> set (map PyDict ds). addressed_to (l_my_id l) m \<in> range Inr"
    using assms(3) by auto
  from receive_running [OF assms(1,2) this] have "l_messages (receive_all (map PyDict ds) l)
      = map PyDict (filter (\<lambda>d. addressed_to me (PyDict d) = Inr True) ds)"
    using assms(3,4) by (simp add: filter_map comp_def)
  also have "filter (\<lambda>d. addressed_to me (PyDict d) = Inr True) ds
      = filter (\<lambda>d. map_of d ''receiver'' = Some (PyStr me) \<or> map_of d ''receiver'' = Some PyNone) ds"
    using answer by (intro filter_cong) simp_all
  finally show ?thesis
    using publish_fresh [of "map PyDict ds" sender] by (simp del: publish_all.simps)
qed

definition sample_published :: "(string \<times> pyval) list list" where
  "sample_published = [[(''receiver'', PyStr ''h:2'')], [(''receiver'', PyNone)], [(''receiver'', PyStr ''h:3'')]]"

theorem talker_to_listener_witness:
  "l_messages (receive_all
      (snd (publish_all (Suc (Suc (length sample_published)))
         (fold Talker_send_message (map PyDict sample_published) (Talker_init ''h:1''))))
      ((Listener_init [''h:1''] ''h:3'')\<lparr>l_pc := L_Running\<rparr>))
    = [PyDict [(''receiver'', PyNone)], PyDict [(''receiver'', PyStr ''h:3'')]]"
  by (subst talker_to_listener [where me = "''h:3''"])
     (simp_all add: Listener_init_def sample_published_def)

end
