(* ===== verification/Raft_Node.thy ===== *)
theory Raft_Node
  imports Raft_Transport
begin

text \<open>
  \<^verbatim>\<open>src/raft/raft.py\<close>, class \<open>RaftNode\<close>: its state, its construction, the public client
  interface and the helper methods the three role loops are written with. Every method is a
  computation of the state-and-exception monad over \<open>raft_node\<close>.
\<close>

section \<open>State\<close>

datatype role = Follower | Candidate | Leader | Paused

text \<open>
  \<open>Paused\<close> is the source's role \<open>'none'\<close>. A log entry is a dictionary with the keys
  \<open>term\<close>, \<open>entry\<close> and \<open>id\<close>.
\<close>

record entry =
  e_term :: int
  e_value :: pyval
  e_id :: pyval

definition entry_to_py :: "entry \<Rightarrow> pyval" where
  "entry_to_py e = PyDict [(''term'', PyInt (e_term e)), (''entry'', e_value e), (''id'', e_id e)]"

text \<open>
  An entry out of a message. The code takes an entry apart only where it uses it, the log
  and its messages are lists of such dictionaries; reading all three keys first makes no
  difference for an entry that has them, as every entry that a node sends has.
\<close>

definition entry_of_py :: "pyval \<Rightarrow> py_error + entry" where
  "entry_of_py v =
     rbind (py_subscript v ''term'') (\<lambda>t. rbind (py_as_int t) (\<lambda>ti.
     rbind (py_subscript v ''entry'') (\<lambda>x.
     rbind (py_subscript v ''id'') (\<lambda>i.
     Inr \<lparr>e_term = ti, e_value = x, e_id = i\<rparr>))))"

text \<open>
  \<open>time.time()\<close> is read through \<open>clock\<close>: the \<open>k\<close>-th reading of the node is
  \<open>clock k\<close>, and \<open>ticks\<close> counts the readings made, so two readings never have to agree.
  \<open>lib_old_div\<close> is \<open>past.utils.old_div\<close>, which the repository imports.
\<close>

record raft_node =
  terminate :: bool
  client_queue :: "entry list"
  all_ids :: "string list"
  my_id :: string
  election_timeout :: rat
  heartbeat_frequency :: rat
  resend_time :: rat
  node_name :: string
  current_num_nodes :: int
  current_role :: role
  leader_id :: pyval
  current_term :: int
  voted_for :: pyval
  rlog :: "entry list"
  log_hash :: "pyval \<rightharpoonup> entry"
  commit_index :: int
  last_applied_index :: int
  last_applied_term :: int
  next_index :: "int option list"
  match_index :: "int list"
  heard_from :: "rat list"
  node_listener :: listener
  node_talker :: talker
  clock :: "nat \<Rightarrow> rat"
  ticks :: nat
  lib_old_div :: "int \<Rightarrow> int \<Rightarrow> int"

type_synonym 'a raft = "(raft_node, 'a) py"

section \<open>Construction\<close>

text \<open>
  An address book maps a node name to its address and port; the name \<open>leader\<close> is not a
  member. It is given as a dictionary, or as the name of a file that holds one; \<open>files\<close>
  is what \<open>open\<close> and \<open>json.load\<close> find there.
\<close>

record address =
  ip :: string
  port :: string

type_synonym address_book = "(string \<times> address) list"

datatype config = ConfigDict address_book | ConfigFile string

definition load_config :: "(string \<rightharpoonup> address_book) \<Rightarrow> string \<Rightarrow> py_error + address_book" where
  "load_config files fname =
     (case files fname of None \<Rightarrow> Inl FileNotFoundError | Some data \<Rightarrow> Inr data)"

definition address_of :: "address \<Rightarrow> string" where
  "address_of a = ip a @ '':'' @ port a"

definition member_addresses :: "address_book \<Rightarrow> string list" where
  "member_addresses ab = map (\<lambda>(a, ad). address_of ad) (filter (\<lambda>(a, ad). a \<noteq> ''leader'') ab)"

text \<open>\<open>random.uniform(a, b)\<close> for the number \<open>r\<close> that \<open>random.random()\<close> draws.\<close>

definition random_uniform :: "rat \<Rightarrow> rat \<Rightarrow> rat \<Rightarrow> rat" where
  "random_uniform a b r = a + (b - a) * r"

definition init_entry :: entry where
  "init_entry = \<lparr>e_term = 1, e_value = PyStr ''Init Entry'', e_id = PyInt (- 1)\<rparr>"

definition RaftNode_init ::
  "(string \<rightharpoonup> address_book) \<Rightarrow> config \<Rightarrow> string \<Rightarrow> role \<Rightarrow> rat \<Rightarrow> (nat \<Rightarrow> rat) \<Rightarrow>
     (int \<Rightarrow> int \<Rightarrow> int) \<Rightarrow> py_error + raft_node" where
  "RaftNode_init files config name role draw clk old_div =
     rbind (case config of ConfigDict ab \<Rightarrow> Inr ab | ConfigFile f \<Rightarrow> load_config files f) (\<lambda>ab.
     (case map_of ab name of
        None \<Rightarrow> Inl (KeyError name)
      | Some ad \<Rightarrow>
          (let ids = member_addresses ab; me = address_of ad; n = length ids in
           Inr \<lparr>terminate = False, client_queue = [], all_ids = ids, my_id = me,
                election_timeout = random_uniform (4/10) (4/10 + 5/100 * of_nat n) draw,
                heartbeat_frequency = 1/100, resend_time = 2, node_name = name,
                current_num_nodes = int n, current_role = role, leader_id = PyNone,
                current_term = 1, voted_for = PyNone, rlog = [init_entry],
                log_hash = Map.empty, commit_index = 0, last_applied_index = 0,
                last_applied_term = 1, next_index = replicate n None,
                match_index = replicate n 0, heard_from = replicate n 0,
                node_listener = Listener_init ids me, node_talker = Talker_init me,
                clock = clk, ticks = 0, lib_old_div = old_div\<rparr>)))"

definition RaftNode_stop :: "raft_node \<Rightarrow> raft_node" where
  "RaftNode_stop s =
     s\<lparr>node_talker := Talker_stop (node_talker s),
       node_listener := Listener_stop (node_listener s), terminate := True\<rparr>"

section \<open>Reading the clock\<close>

definition time_time :: "rat raft" where
  "time_time = (\<lambda>s. (Inr (clock s (ticks s)), s\<lparr>ticks := Suc (ticks s)\<rparr>))"

lemma wp_time_time [wp]:
  "wp time_time Q E s = Q (clock s (ticks s)) (s\<lparr>ticks := Suc (ticks s)\<rparr>)"
  by (simp add: wp_def time_time_def)

text \<open>\<open>int(x)\<close> of a float truncates towards zero.\<close>

definition py_int_of_rat :: "rat \<Rightarrow> int" where
  "py_int_of_rat x = (if 0 \<le> x then \<lfloor>x\<rfloor> else \<lceil>x\<rceil>)"

section \<open>Roles, terms and the log\<close>

definition set_current_role :: "role \<Rightarrow> unit raft" where
  "set_current_role r = modify (\<lambda>s. s\<lparr>current_role := r\<rparr>)"

definition check_role :: "role raft" where
  "check_role = gets current_role"

definition get_node_index :: "string \<Rightarrow> int raft" where
  "get_node_index a = bnd (gets all_ids) (\<lambda>ids. lift_result (py_index ids a))"

definition log_max_index :: "raft_node \<Rightarrow> int" where
  "log_max_index s = int (length (rlog s)) - 1"

definition increment_term :: "int option \<Rightarrow> unit raft" where
  "increment_term t =
     seq (modify (\<lambda>s. s\<lparr>voted_for := PyNone\<rparr>))
         (modify (\<lambda>s. s\<lparr>current_term := (case t of None \<Rightarrow> current_term s + 1 | Some t' \<Rightarrow> t')\<rparr>))"

definition verify_entry :: "int \<Rightarrow> pyval \<Rightarrow> bool raft" where
  "verify_entry prev_index prev_term =
     bnd (gets rlog) (\<lambda>l.
     if int (length l) \<le> prev_index then ret False
     else bnd (lift_result (py_getitem l prev_index)) (\<lambda>e.
          ret (py_eq_int prev_term (e_term e))))"

definition commit_entry :: "int \<Rightarrow> int \<Rightarrow> unit raft" where
  "commit_entry index tm =
     modify (\<lambda>s. s\<lparr>last_applied_index := index, last_applied_term := tm, commit_index := index\<rparr>)"

definition append_entry :: "entry \<Rightarrow> bool \<Rightarrow> int option \<Rightarrow> (int \<times> int) raft" where
  "append_entry entry commit prev =
     bnd (case prev of
            None \<Rightarrow> gets (\<lambda>s. int (length (rlog s)) - 1)
          | Some p \<Rightarrow> seq (modify (\<lambda>s. s\<lparr>rlog := py_take (p + 1) (rlog s)\<rparr>)) (ret p)) (\<lambda>prev_index.
     bnd (gets rlog) (\<lambda>l.
     bnd (lift_result (py_getitem l (- 1))) (\<lambda>e.
     bnd (ret (e_term e)) (\<lambda>prev_term.
     seq (modify (\<lambda>s. s\<lparr>rlog := rlog s @ [entry]\<rparr>))
     (seq (if py_hashable (e_id entry)
           then modify (\<lambda>s. s\<lparr>log_hash := (log_hash s)(py_hash_key (e_id entry) \<mapsto> entry)\<rparr>)
           else raise TypeError)
     (seq (when_py commit (commit_entry prev_index (e_term entry)))
     (ret (prev_index, prev_term))))))))"

section \<open>Messages in and out\<close>

definition send_message :: "message \<Rightarrow> unit raft" where
  "send_message m =
     modify (\<lambda>s. s\<lparr>node_talker := Talker_send_message (jsonify m) (node_talker s)\<rparr>)"

definition get_message :: "message option raft" where
  "get_message =
     bnd (\<lambda>s. let (v, l) = Listener_get_message (node_listener s)
               in (Inr v, s\<lparr>node_listener := l\<rparr>)) (\<lambda>v.
     lift_result (parse_json_message v))"

definition get_client_request :: "entry option raft" where
  "get_client_request =
     (\<lambda>s. case queue_get_nowait (client_queue s) of
            None \<Rightarrow> (Inr None, s)
          | Some (e, q) \<Rightarrow> (Inr (Some e), s\<lparr>client_queue := q\<rparr>))"

text \<open>The timestamp every message constructor takes.\<close>

definition message_timestamp :: "pyval raft" where
  "message_timestamp = bnd time_time (\<lambda>t. ret (PyInt (py_int_of_rat t)))"

definition send_request_vote :: "pyval \<Rightarrow> unit raft" where
  "send_request_vote receiver =
     bnd message_timestamp (\<lambda>ts. bnd (gets (\<lambda>s. RequestVotesMessage
       \<lparr>m_timestamp = ts, m_type = PyInt MessageType_RequestVotes, m_term = PyInt (current_term s),
        m_sender = PyStr (my_id s), m_receiver = receiver,
        m_direction = PyInt MessageDirection_Request,
        m_results = RequestVotesResults PyNone PyNone,
        m_candidate_id = PyStr (my_id s), m_last_log_index = PyInt (last_applied_index s),
        m_last_log_term = PyInt (last_applied_term s)\<rparr>)) send_message)"

definition send_vote :: "pyval \<Rightarrow> bool \<Rightarrow> unit raft" where
  "send_vote candidate granted =
     bnd message_timestamp (\<lambda>ts. bnd (gets (\<lambda>s. RequestVotesMessage
       \<lparr>m_timestamp = ts, m_type = PyInt MessageType_RequestVotes, m_term = PyInt (current_term s),
        m_sender = PyStr (my_id s), m_receiver = candidate,
        m_direction = PyInt MessageDirection_Response,
        m_results = RequestVotesResults (PyInt (current_term s)) (PyBool granted),
        m_candidate_id = candidate, m_last_log_index = PyInt (last_applied_index s),
        m_last_log_term = PyInt (last_applied_term s)\<rparr>)) (\<lambda>m.
     seq (send_message m) (modify (\<lambda>s. s\<lparr>voted_for := candidate\<rparr>))))"

text \<open>
  The five senders of \<open>AppendEntriesMessage\<close> differ in the type, direction and fields.
\<close>

definition new_append_entries ::
  "int \<Rightarrow> int \<Rightarrow> pyval \<Rightarrow> pyval \<Rightarrow> pyval \<Rightarrow> pyval \<Rightarrow> pyval \<Rightarrow> results \<Rightarrow> pyval \<Rightarrow> raft_node \<Rightarrow> message" where
  "new_append_entries ty dir receiver leader prev_ix prev_tm ents res ts s =
     AppendEntriesMessage
       \<lparr>m_timestamp = ts, m_type = PyInt ty, m_term = PyInt (current_term s),
        m_sender = PyStr (my_id s), m_receiver = receiver, m_direction = PyInt dir,
        m_results = res, m_leader_id = leader, m_prev_log_index = prev_ix,
        m_prev_log_term = prev_tm, m_entries = ents, m_leader_commit = PyInt (commit_index s)\<rparr>"

definition send_heartbeat :: "unit raft" where
  "send_heartbeat =
     bnd message_timestamp (\<lambda>ts. bnd (gets (\<lambda>s.
       new_append_entries MessageType_Heartbeat MessageDirection_Request PyNone
         (PyStr (my_id s)) PyNone PyNone PyNone (AppendEntriesResults PyNone PyNone) ts s))
     send_message)"

definition send_append_entries :: "int \<Rightarrow> int \<Rightarrow> entry \<Rightarrow> pyval \<Rightarrow> unit raft" where
  "send_append_entries index tm entries receiver =
     bnd message_timestamp (\<lambda>ts. bnd (gets (\<lambda>s.
       new_append_entries MessageType_AppendEntries MessageDirection_Request receiver
         (PyStr (my_id s)) (PyInt index) (PyInt tm) (entry_to_py entries)
         (AppendEntriesResults PyNone PyNone) ts s))
     send_message)"

definition send_committal :: "int \<Rightarrow> pyval \<Rightarrow> unit raft" where
  "send_committal index receiver =
     bnd message_timestamp (\<lambda>ts. bnd (gets (\<lambda>s.
       new_append_entries MessageType_Committal MessageDirection_Request receiver
         (PyStr (my_id s)) (PyInt (last_applied_index s)) (PyInt (last_applied_term s)) PyNone
         (AppendEntriesResults PyNone PyNone) ts s))
     send_message)"

definition send_acknowledge :: "pyval \<Rightarrow> bool \<Rightarrow> unit raft" where
  "send_acknowledge receiver succ =
     bnd message_timestamp (\<lambda>ts. bnd (gets (\<lambda>s.
       new_append_entries MessageType_Acknowledge MessageDirection_Response receiver
         (leader_id s) (PyInt (last_applied_index s)) (PyInt (last_applied_term s)) PyNone
         (AppendEntriesResults (PyInt (current_term s)) (PyBool succ)) ts s))
     send_message)"

definition send_client_request :: "pyval \<Rightarrow> entry \<Rightarrow> unit raft" where
  "send_client_request receiver entry =
     bnd message_timestamp (\<lambda>ts. bnd (gets (\<lambda>s.
       new_append_entries MessageType_ClientRequest MessageDirection_Response receiver
         (leader_id s) (PyInt (last_applied_index s)) (PyInt (last_applied_term s))
         (entry_to_py entry) (AppendEntriesResults PyNone PyNone) ts s))
     send_message)"

section \<open>The public interface\<close>

definition client_request :: "pyval \<Rightarrow> pyval \<Rightarrow> unit raft" where
  "client_request value id_num =
     modify (\<lambda>s. s\<lparr>client_queue := queue_put
        \<lparr>e_term = current_term s, e_value = value, e_id = id_num\<rparr> (client_queue s)\<rparr>)"

text \<open>
  The result is the value of the last committed entry, or the entry found under the id.
\<close>

definition check_committed_entry :: "pyval \<Rightarrow> pyval raft" where
  "check_committed_entry id_num =
     (if id_num = PyNone then
        bnd (gets rlog) (\<lambda>l. bnd (gets commit_index) (\<lambda>i.
        bnd (lift_result (py_getitem l i)) (\<lambda>e. ret (e_value e))))
      else if py_hashable id_num then
        bnd (gets log_hash) (\<lambda>h.
        ret (case h (py_hash_key id_num) of None \<Rightarrow> PyNone | Some e \<Rightarrow> entry_to_py e))
      else raise TypeError)"

definition pause :: "unit raft" where
  "pause = set_current_role Paused"

definition un_pause :: "unit raft" where
  "un_pause =
     bnd check_role (\<lambda>r. if r = Paused then set_current_role Follower else ret ())"

section \<open>An example group\<close>

text \<open>Three members, the clock advancing by one second per reading, no random delay.\<close>

definition trio :: address_book where
  "trio =
     [(''node1'', \<lparr>ip = ''h'', port = ''1''\<rparr>), (''node2'', \<lparr>ip = ''h'', port = ''2''\<rparr>),
      (''node3'', \<lparr>ip = ''h'', port = ''3''\<rparr>)]"

definition trio_node :: "string \<Rightarrow> raft_node" where
  "trio_node name =
     (case RaftNode_init Map.empty (ConfigDict trio) name Follower 0 of_nat (div) of
        Inl _ \<Rightarrow> undefined
      | Inr n \<Rightarrow> n)"

lemma member_addresses_trio [simp]: "member_addresses trio = [''h:1'', ''h:2'', ''h:3'']"
  by (simp add: member_addresses_def trio_def address_of_def)

definition fresh_node :: "string \<Rightarrow> string \<Rightarrow> raft_node" where
  "fresh_node name me =
     \<lparr>terminate = False, client_queue = [], all_ids = [''h:1'', ''h:2'', ''h:3''], my_id = me,
      election_timeout = 4/10, heartbeat_frequency = 1/100, resend_time = 2, node_name = name,
      current_num_nodes = 3, current_role = Follower, leader_id = PyNone, current_term = 1,
      voted_for = PyNone, rlog = [init_entry], log_hash = Map.empty, commit_index = 0,
      last_applied_index = 0, last_applied_term = 1, next_index = [None, None, None],
      match_index = [0, 0, 0], heard_from = [0, 0, 0],
      node_listener = Listener_init [''h:1'', ''h:2'', ''h:3''] me, node_talker = Talker_init me,
      clock = of_nat, ticks = 0, lib_old_div = (div)\<rparr>"

lemma trio_init:
  "RaftNode_init Map.empty (ConfigDict trio) ''node1'' Follower 0 of_nat (div) = Inr (fresh_node ''node1'' ''h:1'')"
  "RaftNode_init Map.empty (ConfigDict trio) ''node2'' Follower 0 of_nat (div) = Inr (fresh_node ''node2'' ''h:2'')"
  "RaftNode_init Map.empty (ConfigDict trio) ''node3'' Follower 0 of_nat (div) = Inr (fresh_node ''node3'' ''h:3'')"
  by (simp_all add: RaftNode_init_def fresh_node_def member_addresses_def trio_def address_of_def
      random_uniform_def numeral_3_eq_3 Let_def)

lemma trio_node [simp]:
  "trio_node ''node1'' = fresh_node ''node1'' ''h:1''"
  "trio_node ''node2'' = fresh_node ''node2'' ''h:2''"
  "trio_node ''node3'' = fresh_node ''node3'' ''h:3''"
  by (simp_all add: trio_node_def trio_init)

end
