(* ===== verification/Raft_Follower.thy ===== *)
theory Raft_Follower
  imports Raft_Node
begin

text \<open>
  \<^verbatim>\<open>RaftNode._follower\<close>: one iteration of its loop. The loop's only local variable is
  \<open>most_recent_heartbeat\<close>; an iteration either returns from the method or continues with
  the new value of the local variables.
\<close>

datatype 'l flow = Return | Continue 'l

definition vote_test :: "message \<Rightarrow> bool raft" where
  "vote_test m =
     bnd (gets voted_for) (\<lambda>v.
     if v \<noteq> PyNone then ret False
     else
       bnd (lift_result (rbind (request_votes_attr ''last_log_index'' m_last_log_index m) py_as_int)) (\<lambda>i.
       bnd (gets last_applied_index) (\<lambda>ai.
       if \<not> i \<ge> ai then ret False
       else
         bnd (lift_result (rbind (request_votes_attr ''last_log_term'' m_last_log_term m) py_as_int)) (\<lambda>t.
         bnd (gets last_applied_term) (\<lambda>lat. ret (t \<ge> lat))))))"

definition follower_request_votes :: "message \<Rightarrow> rat raft" where
  "follower_request_votes m =
     bnd (lift_result (py_as_int (msg_term m))) (\<lambda>t.
     bnd (gets current_term) (\<lambda>ct.
     seq (when_py (t > ct) (increment_term (Some t)))
     (bnd (vote_test m) (\<lambda>granted.
     seq (send_vote (msg_sender m) granted)
     time_time))))"

definition follower_heartbeat :: "message \<Rightarrow> rat raft" where
  "follower_heartbeat m =
     bnd (lift_result (py_as_int (msg_term m))) (\<lambda>t.
     bnd (gets current_term) (\<lambda>ct.
     seq (when_py (t > ct) (increment_term (Some t)))
     (bnd (lift_result (append_entries_attr ''leader_id'' m_leader_id m)) (\<lambda>l.
     seq (modify (\<lambda>s. s\<lparr>leader_id := l\<rparr>))
     (bnd time_time (\<lambda>now.
     seq (when_py (py_truthy l)
           (bnd get_client_request (\<lambda>cr.
            case cr of None \<Rightarrow> ret () | Some e \<Rightarrow> send_client_request l e)))
     (ret now)))))))"

definition follower_append_entries :: "message \<Rightarrow> unit raft" where
  "follower_append_entries m =
     bnd (lift_result (py_as_int (msg_term m))) (\<lambda>t.
     bnd (gets current_term) (\<lambda>ct.
     if t < ct then
       bnd (lift_result (append_entries_attr ''leader_id'' m_leader_id m)) (\<lambda>l. send_acknowledge l False)
     else
       bnd (lift_result (rbind (append_entries_attr ''prev_log_index'' m_prev_log_index m) py_as_int)) (\<lambda>pi.
       bnd (lift_result (append_entries_attr ''prev_log_term'' m_prev_log_term m)) (\<lambda>pt.
       bnd (verify_entry pi pt) (\<lambda>ok.
       if \<not> ok then
         bnd (lift_result (append_entries_attr ''leader_id'' m_leader_id m)) (\<lambda>l. send_acknowledge l False)
       else
         bnd (lift_result (rbind (append_entries_attr ''leader_commit'' m_leader_commit m) py_as_int)) (\<lambda>lc.
         bnd (gets commit_index) (\<lambda>ci.
         bnd (lift_result (rbind (append_entries_attr ''entries'' m_entries m) entry_of_py)) (\<lambda>e.
         seq (append_entry e (lc > ci) (Some pi))
         (bnd (lift_result (append_entries_attr ''leader_id'' m_leader_id m)) (\<lambda>l. send_acknowledge l True))))))))))"

definition follower_committal :: "message \<Rightarrow> unit raft" where
  "follower_committal m =
     bnd (lift_result (rbind (append_entries_attr ''prev_log_index'' m_prev_log_index m) py_as_int)) (\<lambda>pi.
     bnd (lift_result (rbind (append_entries_attr ''prev_log_term'' m_prev_log_term m) py_as_int)) (\<lambda>pt.
     commit_entry pi pt))"

text \<open>The dispatch on direction and type; the result is \<open>most_recent_heartbeat\<close>.\<close>

definition follower_handle :: "rat \<Rightarrow> message \<Rightarrow> rat raft" where
  "follower_handle mrh m =
     (if py_eq_int (msg_direction m) MessageDirection_Request then
        if py_eq_int (msg_type m) MessageType_RequestVotes then follower_request_votes m
        else if py_eq_int (msg_type m) MessageType_Heartbeat then follower_heartbeat m
        else if py_eq_int (msg_type m) MessageType_AppendEntries then
          seq (follower_append_entries m) (ret mrh)
        else if py_eq_int (msg_type m) MessageType_Committal then
          seq (follower_committal m) (ret mrh)
        else ret mrh
      else ret mrh)"

definition follower_iteration :: "rat \<Rightarrow> rat flow raft" where
  "follower_iteration mrh =
     bnd get_message (\<lambda>im.
     bnd (case im of None \<Rightarrow> ret mrh | Some m \<Rightarrow> follower_handle mrh m) (\<lambda>mrh'.
     bnd time_time (\<lambda>now.
     bnd (gets election_timeout) (\<lambda>et.
     if now - mrh' > et then seq (set_current_role Candidate) (ret Return)
     else ret (Continue mrh')))))"

end
