(* ===== verification/Raft_Candidate.thy ===== *)
theory Raft_Candidate
  imports Raft_Follower
begin

text \<open>
  \<^verbatim>\<open>RaftNode._candidate\<close>: the election it opens with and one iteration of its loop. The
  local variables are \<open>votes_for_me\<close>, \<open>total_votes\<close> and \<open>time_election_going\<close>.
\<close>

record election =
  votes_for_me :: int
  total_votes :: int
  time_election_going :: rat

definition candidate_start :: "election raft" where
  "candidate_start =
     seq (increment_term None)
     (seq (send_request_vote PyNone)
     (bnd (gets my_id) (\<lambda>me.
     seq (send_vote (PyStr me) True)
     (bnd time_time (\<lambda>now.
     ret \<lparr>votes_for_me = 0, total_votes = 0, time_election_going = now\<rparr>)))))"

text \<open>\<open>(votes_for_me > int(old_div(n, 2))) or (n == 1)\<close>\<close>

definition has_majority :: "raft_node \<Rightarrow> int \<Rightarrow> bool" where
  "has_majority s votes =
     (votes > lib_old_div s (current_num_nodes s) 2 \<or> current_num_nodes s = 1)"

definition candidate_vote :: "election \<Rightarrow> message \<Rightarrow> election flow raft" where
  "candidate_vote el m =
     bnd (lift_result (results_vote_granted (msg_results m))) (\<lambda>g.
     bnd (ret (if py_truthy g then votes_for_me el + 1 else votes_for_me el)) (\<lambda>v.
     bnd (gets (\<lambda>s. has_majority s v)) (\<lambda>won.
     if won then seq (set_current_role Leader) (ret Return)
     else ret (Continue (el\<lparr>votes_for_me := v, total_votes := total_votes el + 1\<rparr>)))))"

definition candidate_request_votes :: "election \<Rightarrow> message \<Rightarrow> election flow raft" where
  "candidate_request_votes el m =
     bnd (lift_result (py_as_int (msg_term m))) (\<lambda>t.
     bnd (gets current_term) (\<lambda>ct.
     if t > ct then
       seq (increment_term (Some t))
       (seq (send_vote (msg_sender m) True)
       (seq (set_current_role Follower) (ret Return)))
     else ret (Continue el)))"

definition candidate_heartbeat :: "election \<Rightarrow> message \<Rightarrow> election flow raft" where
  "candidate_heartbeat el m =
     bnd (lift_result (py_as_int (msg_term m))) (\<lambda>t.
     bnd (gets current_term) (\<lambda>ct.
     if t \<ge> ct then
       seq (increment_term (Some t))
       (bnd (lift_result (append_entries_attr ''leader_id'' m_leader_id m)) (\<lambda>l.
       seq (modify (\<lambda>s. s\<lparr>leader_id := l\<rparr>))
       (seq (set_current_role Follower) (ret Return))))
     else ret (Continue el)))"

definition candidate_handle :: "election \<Rightarrow> message \<Rightarrow> election flow raft" where
  "candidate_handle el m =
     (if py_eq_int (msg_direction m) MessageDirection_Response then
        if py_eq_int (msg_type m) MessageType_RequestVotes then candidate_vote el m
        else ret (Continue el)
      else if py_eq_int (msg_direction m) MessageDirection_Request then
        if py_eq_int (msg_type m) MessageType_RequestVotes then candidate_request_votes el m
        else if py_eq_int (msg_type m) MessageType_Heartbeat then candidate_heartbeat el m
        else ret (Continue el)
      else ret (Continue el))"

definition candidate_iteration :: "election \<Rightarrow> election flow raft" where
  "candidate_iteration el =
     bnd get_message (\<lambda>im.
     bnd (case im of None \<Rightarrow> ret (Continue el) | Some m \<Rightarrow> candidate_handle el m) (\<lambda>fl.
     case fl of
       Return \<Rightarrow> ret Return
     | Continue el' \<Rightarrow>
         bnd time_time (\<lambda>now.
         bnd (gets election_timeout) (\<lambda>et.
         if now - time_election_going el' > et then seq (set_current_role Candidate) (ret Return)
         else ret (Continue el')))))"

end
