(* ===== verification/Raft_Leader.thy ===== *)
theory Raft_Leader
  imports Raft_Candidate
begin

text \<open>
  \<^verbatim>\<open>RaftNode._leader\<close>: the start of a leadership, replication, the acknowledgement handler
  with its commit rule, and one iteration of the loop, whose local variable is
  \<open>most_recent_heartbeat\<close>.
\<close>

section \<open>Replication\<close>

text \<open>
  The body of the loop over \<open>enumerate(self.next_index)\<close>: the list is read at the position
  reached, so the assignments the loop makes to earlier positions are seen.
\<close>

definition broadcast_append_node :: "int \<Rightarrow> int \<Rightarrow> entry \<Rightarrow> nat \<Rightarrow> unit raft" where
  "broadcast_append_node prev_index prev_term entry node =
     bnd (gets next_index) (\<lambda>nis.
     bnd (lift_result (py_getitem nis (int node))) (\<lambda>index.
     case index of
       None \<Rightarrow>
         bnd (gets all_ids) (\<lambda>ids.
         bnd (lift_result (py_getitem ids (int node))) (\<lambda>a.
         seq (send_append_entries prev_index prev_term entry (PyStr a))
         (bnd (gets next_index) (\<lambda>nis'.
         bnd (gets log_max_index) (\<lambda>lm.
         bnd (lift_result (py_setitem nis' (int node) (Some lm))) (\<lambda>nis''.
         modify (\<lambda>s. s\<lparr>next_index := nis''\<rparr>)))))))
     | Some _ \<Rightarrow> ret ()))"

text \<open>"Update your own information", after the loop.\<close>

definition update_own_indices :: "unit raft" where
  "update_own_indices =
     bnd (gets my_id) (\<lambda>me.
     bnd (get_node_index me) (\<lambda>i.
     bnd (gets next_index) (\<lambda>nis.
     bnd (lift_result (py_setitem nis i None)) (\<lambda>nis'.
     seq (modify (\<lambda>s. s\<lparr>next_index := nis'\<rparr>))
     (bnd (gets match_index) (\<lambda>mis.
     bnd (gets log_max_index) (\<lambda>lm.
     bnd (lift_result (py_setitem mis i lm)) (\<lambda>mis'.
     modify (\<lambda>s. s\<lparr>match_index := mis'\<rparr>)))))))))"

definition broadcast_append_entries :: "entry \<Rightarrow> unit raft" where
  "broadcast_append_entries entry =
     bnd (append_entry entry False None) (\<lambda>(prev_index, prev_term).
     bnd (gets (\<lambda>s. length (next_index s))) (\<lambda>n.
     seq (for_each [0..<n] (broadcast_append_node prev_index prev_term entry))
     update_own_indices))"

text \<open>
  In the second loop of \<open>_broadcast_commmit_entries\<close> the loop variable has the name of
  the argument, so the test \<open>index >= index\<close> compares a number with itself.
\<close>

definition broadcast_commit_node :: "int \<times> nat \<Rightarrow> unit raft" where
  "broadcast_commit_node = (\<lambda>(index, node).
     when_py (index \<ge> index)
       (bnd (gets all_ids) (\<lambda>ids.
        bnd (lift_result (py_getitem ids (int node))) (\<lambda>a.
        send_committal index (PyStr a)))))"

definition broadcast_commit_entries :: "int \<Rightarrow> unit raft" where
  "broadcast_commit_entries index =
     bnd (gets rlog) (\<lambda>l.
     bnd (lift_result (py_getitem l index)) (\<lambda>e.
     seq (commit_entry index (e_term e))
     (bnd (gets match_index) (\<lambda>mis.
     for_each (zip mis [0..<length mis]) broadcast_commit_node))))"

section \<open>The commit rule\<close>

text \<open>
  \<open>log_lengths\<close> sorted downwards; for each one, how many of them it does not exceed.
\<close>

definition replicated_on :: "int list \<Rightarrow> int \<Rightarrow> int" where
  "replicated_on log_lengths index = sum_list (map (\<lambda>i. if index \<le> i then 1 else 0) log_lengths)"

definition max_committable_index :: "(int \<Rightarrow> int \<Rightarrow> int) \<Rightarrow> int \<Rightarrow> int list \<Rightarrow> int" where
  "max_committable_index old_div n match =
     (let log_lengths = rev (sort match) in
      foldl (\<lambda>mx index. if replicated_on log_lengths index \<ge> old_div n 2 + 1 then index else mx)
        0 log_lengths)"

section \<open>Acknowledgements\<close>

definition leader_send_next :: "int \<Rightarrow> pyval \<Rightarrow> unit raft" where
  "leader_send_next next receiver =
     bnd (gets rlog) (\<lambda>l.
     bnd (lift_result (py_getitem l (next - 1))) (\<lambda>p.
     bnd (lift_result (py_getitem l next)) (\<lambda>e.
     send_append_entries (next - 1) (e_term p) e receiver)))"

text \<open>The next index of the sender after its answer, before the test against the log.\<close>

definition ack_next_index :: "bool \<Rightarrow> int \<Rightarrow> int" where
  "ack_next_index succ next = (if succ then next + 1 else if next \<noteq> 1 then next - 1 else next)"

definition leader_commit_rule :: "unit raft" where
  "leader_commit_rule =
     bnd (gets (\<lambda>s. max_committable_index (lib_old_div s) (current_num_nodes s) (match_index s))) (\<lambda>mx.
     bnd (gets commit_index) (\<lambda>ci.
     when_py (mx > ci) (broadcast_commit_entries mx)))"

definition leader_acknowledge_pending :: "message \<Rightarrow> int \<Rightarrow> int \<Rightarrow> unit raft" where
  "leader_acknowledge_pending m i next =
     bnd (lift_result (results_success (msg_results m))) (\<lambda>ok.
     seq (when_py (py_truthy ok)
           (bnd (gets match_index) (\<lambda>mis.
            bnd (lift_result (py_setitem mis i next)) (\<lambda>mis'.
            modify (\<lambda>s. s\<lparr>match_index := mis'\<rparr>)))))
     (bnd (ret (ack_next_index (py_truthy ok) next)) (\<lambda>next'.
     bnd (gets log_max_index) (\<lambda>lm.
     bnd (gets next_index) (\<lambda>nis.
     bnd (lift_result (py_setitem nis i (if next' > lm then None else Some next'))) (\<lambda>nis'.
     seq (modify (\<lambda>s. s\<lparr>next_index := nis'\<rparr>))
     (seq (if next' > lm then ret () else leader_send_next next' (msg_sender m))
     leader_commit_rule)))))))"

definition leader_acknowledge :: "message \<Rightarrow> unit raft" where
  "leader_acknowledge m =
     bnd (case msg_sender m of PyStr a \<Rightarrow> get_node_index a | _ \<Rightarrow> raise ValueError) (\<lambda>i.
     bnd time_time (\<lambda>now.
     bnd (gets heard_from) (\<lambda>hf.
     bnd (lift_result (py_setitem hf i now)) (\<lambda>hf'.
     seq (modify (\<lambda>s. s\<lparr>heard_from := hf'\<rparr>))
     (bnd (gets next_index) (\<lambda>nis.
     bnd (lift_result (py_getitem nis i)) (\<lambda>ni.
     case ni of None \<Rightarrow> ret () | Some next \<Rightarrow> leader_acknowledge_pending m i next)))))))"

section \<open>The loop\<close>

text \<open>The start of a leadership: a heartbeat, then the state and the first entry.\<close>

definition leader_take_over :: "rat raft" where
  "leader_take_over =
     bnd time_time (\<lambda>mrh.
     seq (modify (\<lambda>s. s\<lparr>leader_id := PyStr (my_id s)\<rparr>))
     (seq (modify (\<lambda>s. s\<lparr>match_index := replicate (nat (current_num_nodes s)) (commit_index s)\<rparr>))
     (seq (modify (\<lambda>s. s\<lparr>next_index := replicate (nat (current_num_nodes s)) None\<rparr>))
     (seq (\<lambda>s. (Inr (), s\<lparr>heard_from := map (\<lambda>k. clock s (ticks s + k)) [0..<nat (current_num_nodes s)],
                          ticks := ticks s + nat (current_num_nodes s)\<rparr>))
     (bnd (gets (\<lambda>s. \<lparr>e_term = current_term s, e_value = PyStr ''Leader Entry'', e_id = PyInt (- 1)\<rparr>)) (\<lambda>e.
     seq (broadcast_append_entries e)
     (ret mrh)))))))"

definition leader_start :: "rat raft" where
  "leader_start = seq send_heartbeat leader_take_over"

definition leader_resend_node :: "nat \<Rightarrow> unit raft" where
  "leader_resend_node node =
     bnd (gets next_index) (\<lambda>nis.
     bnd (lift_result (py_getitem nis (int node))) (\<lambda>index.
     case index of
       None \<Rightarrow> ret ()
     | Some k \<Rightarrow>
         bnd time_time (\<lambda>now.
         bnd (gets heard_from) (\<lambda>hf.
         bnd (lift_result (py_getitem hf (int node))) (\<lambda>h.
         bnd (gets resend_time) (\<lambda>rt.
         when_py (now - h > rt)
           (bnd (gets all_ids) (\<lambda>ids.
            bnd (lift_result (py_getitem ids (int node))) (\<lambda>a.
            seq (leader_send_next k (PyStr a))
            (bnd time_time (\<lambda>now'.
            bnd (gets heard_from) (\<lambda>hf'.
            bnd (lift_result (py_setitem hf' (int node) now')) (\<lambda>hf''.
            modify (\<lambda>s. s\<lparr>heard_from := hf''\<rparr>))))))))))))))"

definition leader_request_votes :: "message \<Rightarrow> unit flow raft" where
  "leader_request_votes m =
     bnd (lift_result (py_as_int (msg_term m))) (\<lambda>t.
     bnd (gets current_term) (\<lambda>ct.
     if t > ct then
       seq (increment_term (Some t))
       (seq (send_vote (msg_sender m) True)
       (seq (set_current_role Follower) (ret Return)))
     else ret (Continue ())))"

definition leader_handle :: "message \<Rightarrow> unit flow raft" where
  "leader_handle m =
     (if py_eq_int (msg_direction m) MessageDirection_Response then
        if py_eq_int (msg_type m) MessageType_Acknowledge then
          seq (leader_acknowledge m) (ret (Continue ()))
        else if py_eq_int (msg_type m) MessageType_ClientRequest then
          bnd (lift_result (rbind (append_entries_attr ''entries'' m_entries m) entry_of_py)) (\<lambda>e.
          seq (broadcast_append_entries e) (ret (Continue ())))
        else ret (Continue ())
      else if py_eq_int (msg_direction m) MessageDirection_Request then
        if py_eq_int (msg_type m) MessageType_RequestVotes then leader_request_votes m
        else ret (Continue ())
      else ret (Continue ()))"

definition leader_send_heartbeat_if_due :: "rat \<Rightarrow> rat raft" where
  "leader_send_heartbeat_if_due mrh =
     bnd time_time (\<lambda>now.
     bnd (gets heartbeat_frequency) (\<lambda>hb.
     if now - mrh > hb then seq send_heartbeat time_time else ret mrh))"

text \<open>One iteration after its heartbeat: the resends, a message, a client's request.\<close>

definition leader_round :: "rat \<Rightarrow> rat flow raft" where
  "leader_round mrh =
     bnd (gets (\<lambda>s. length (next_index s))) (\<lambda>n.
     seq (for_each [0..<n] leader_resend_node)
     (bnd get_message (\<lambda>im.
     bnd (case im of None \<Rightarrow> ret (Continue ()) | Some m \<Rightarrow> leader_handle m) (\<lambda>fl.
     case fl of
       Return \<Rightarrow> ret Return
     | Continue _ \<Rightarrow>
         bnd get_client_request (\<lambda>cr.
         seq (case cr of None \<Rightarrow> ret () | Some e \<Rightarrow> broadcast_append_entries e)
         (ret (Continue mrh)))))))"

definition leader_iteration :: "rat \<Rightarrow> rat flow raft" where
  "leader_iteration mrh = bnd (leader_send_heartbeat_if_due mrh) leader_round"

end
