(* ===== verification/Raft_Thread.thy ===== *)
theory Raft_Thread
  imports Raft_Leader
begin

text \<open>
  \<^verbatim>\<open>RaftNode.run\<close>: the node's thread as a state machine. Its control point says which loop
  the thread is in, with that loop's local variables; a step is one pass of the outer loop
  up to and including the start of a role, or one iteration of a role's loop.
\<close>

datatype control =
    Dispatch
  | InFollower rat
  | InCandidate election
  | InLeader rat
  | Stopped
  | Crashed py_error

definition run_dispatch :: "control raft" where
  "run_dispatch =
     bnd (gets terminate) (\<lambda>stop.
     if stop then ret Stopped
     else
       bnd check_role (\<lambda>r.
       case r of
         Leader \<Rightarrow> bnd leader_start (\<lambda>mrh. ret (InLeader mrh))
       | Follower \<Rightarrow> bnd time_time (\<lambda>now. ret (InFollower now))
       | Candidate \<Rightarrow> bnd candidate_start (\<lambda>el. ret (InCandidate el))
       | Paused \<Rightarrow> ret Dispatch))"

text \<open>The guard of a role's loop: the thread leaves it when its role has changed.\<close>

definition in_role :: "role \<Rightarrow> control raft \<Rightarrow> control raft" where
  "in_role r body =
     bnd (gets (\<lambda>s. \<not> terminate s \<and> current_role s = r)) (\<lambda>go.
     if go then body else ret Dispatch)"

definition after_iteration :: "('l \<Rightarrow> control) \<Rightarrow> 'l flow \<Rightarrow> control raft" where
  "after_iteration mk fl = ret (case fl of Return \<Rightarrow> Dispatch | Continue l \<Rightarrow> mk l)"

fun run_step :: "control \<Rightarrow> control raft" where
  "run_step Dispatch = run_dispatch"
| "run_step (InFollower mrh) =
     in_role Follower (bnd (follower_iteration mrh) (after_iteration InFollower))"
| "run_step (InCandidate el) =
     in_role Candidate (bnd (candidate_iteration el) (after_iteration InCandidate))"
| "run_step (InLeader mrh) =
     in_role Leader (bnd (leader_iteration mrh) (after_iteration InLeader))"
| "run_step Stopped = ret Stopped"
| "run_step (Crashed e) = ret (Crashed e)"

text \<open>An exception other than \<open>KeyboardInterrupt\<close> leaves \<open>run\<close> and ends the thread.\<close>

definition thread_step :: "control \<times> raft_node \<Rightarrow> control \<times> raft_node" where
  "thread_step cs =
     (case run_step (fst cs) (snd cs) of
        (Inl e, s') \<Rightarrow> (Crashed e, s')
      | (Inr c, s') \<Rightarrow> (c, s'))"

fun thread_steps :: "nat \<Rightarrow> control \<times> raft_node \<Rightarrow> control \<times> raft_node" where
  "thread_steps 0 cs = cs"
| "thread_steps (Suc n) cs = thread_steps n (thread_step cs)"

end
