(* ===== verification/Raft_Frames.thy ===== *)
theory Raft_Frames
  imports Raft_Thread
begin

text \<open>
  What the methods of a node leave alone. Every statement here is about all executions,
  those that raise included: a method relates the state before and after it by a reflexive
  and transitive relation, shown by one look at each assignment of the source.
\<close>

section \<open>Weakest preconditions of the building blocks\<close>

lemma wp_case_flow [abs_def, wp]:
  "wp (case fl of Return \<Rightarrow> m | Continue l \<Rightarrow> f l) Q E s \<longleftrightarrow>
     (fl = Return \<longrightarrow> wp m Q E s) \<and> (\<forall>l. fl = Continue l \<longrightarrow> wp (f l) Q E s)"
  by (cases fl) simp_all

lemma wp_case_role [abs_def, wp]:
  "wp (case r of Follower \<Rightarrow> a | Candidate \<Rightarrow> b | Leader \<Rightarrow> c | Paused \<Rightarrow> d) Q E s \<longleftrightarrow>
     (r = Follower \<longrightarrow> wp a Q E s) \<and> (r = Candidate \<longrightarrow> wp b Q E s)
     \<and> (r = Leader \<longrightarrow> wp c Q E s) \<and> (r = Paused \<longrightarrow> wp d Q E s)"
  by (cases r) simp_all

text \<open>The state after a message has been sent, and after one has been taken.\<close>

definition sent :: "message \<Rightarrow> raft_node \<Rightarrow> raft_node" where
  "sent m s = s\<lparr>ticks := Suc (ticks s),
                node_talker := Talker_send_message (jsonify m) (node_talker s)\<rparr>"

definition stamp :: "raft_node \<Rightarrow> pyval" where
  "stamp s = PyInt (py_int_of_rat (clock s (ticks s)))"

lemma sent_simps [simp]:
  "terminate (sent m s) = terminate s"
  "client_queue (sent m s) = client_queue s"
  "all_ids (sent m s) = all_ids s"
  "my_id (sent m s) = my_id s"
  "election_timeout (sent m s) = election_timeout s"
  "heartbeat_frequency (sent m s) = heartbeat_frequency s"
  "resend_time (sent m s) = resend_time s"
  "node_name (sent m s) = node_name s"
  "current_num_nodes (sent m s) = current_num_nodes s"
  "current_role (sent m s) = current_role s"
  "leader_id (sent m s) = leader_id s"
  "current_term (sent m s) = current_term s"
  "voted_for (sent m s) = voted_for s"
  "rlog (sent m s) = rlog s"
  "log_hash (sent m s) = log_hash s"
  "commit_index (sent m s) = commit_index s"
  "last_applied_index (sent m s) = last_applied_index s"
  "last_applied_term (sent m s) = last_applied_term s"
  "next_index (sent m s) = next_index s"
  "match_index (sent m s) = match_index s"
  "heard_from (sent m s) = heard_from s"
  "node_listener (sent m s) = node_listener s"
  "node_talker (sent m s) = Talker_send_message (jsonify m) (node_talker s)"
  "clock (sent m s) = clock s"
  "lib_old_div (sent m s) = lib_old_div s"
  by (simp_all add: sent_def)

lemma Talker_send_message_simps [simp]:
  "t_messages (Talker_send_message v t) = t_messages t @ [v]"
  "t_address (Talker_send_message v t) = t_address t"
  "t_stop (Talker_send_message v t) = t_stop t"
  "t_ready (Talker_send_message v t) = t_ready t"
  "t_pc (Talker_send_message v t) = t_pc t"
  by (simp_all add: Talker_send_message_def queue_put_def)

definition vote_message :: "pyval \<Rightarrow> bool \<Rightarrow> raft_node \<Rightarrow> message" where
  "vote_message candidate granted s = RequestVotesMessage
     \<lparr>m_timestamp = stamp s, m_type = PyInt MessageType_RequestVotes, m_term = PyInt (current_term s),
      m_sender = PyStr (my_id s), m_receiver = candidate,
      m_direction = PyInt MessageDirection_Response,
      m_results = RequestVotesResults (PyInt (current_term s)) (PyBool granted),
      m_candidate_id = candidate, m_last_log_index = PyInt (last_applied_index s),
      m_last_log_term = PyInt (last_applied_term s)\<rparr>"

definition request_vote_message :: "pyval \<Rightarrow> raft_node \<Rightarrow> message" where
  "request_vote_message receiver s = RequestVotesMessage
     \<lparr>m_timestamp = stamp s, m_type = PyInt MessageType_RequestVotes, m_term = PyInt (current_term s),
      m_sender = PyStr (my_id s), m_receiver = receiver,
      m_direction = PyInt MessageDirection_Request,
      m_results = RequestVotesResults PyNone PyNone,
      m_candidate_id = PyStr (my_id s), m_last_log_index = PyInt (last_applied_index s),
      m_last_log_term = PyInt (last_applied_term s)\<rparr>"

definition heartbeat_message :: "raft_node \<Rightarrow> message" where
  "heartbeat_message s = new_append_entries MessageType_Heartbeat MessageDirection_Request PyNone
     (PyStr (my_id s)) PyNone PyNone PyNone (AppendEntriesResults PyNone PyNone) (stamp s) s"

definition append_message :: "int \<Rightarrow> int \<Rightarrow> entry \<Rightarrow> pyval \<Rightarrow> raft_node \<Rightarrow> message" where
  "append_message index tm e receiver s =
     new_append_entries MessageType_AppendEntries MessageDirection_Request receiver
       (PyStr (my_id s)) (PyInt index) (PyInt tm) (entry_to_py e)
       (AppendEntriesResults PyNone PyNone) (stamp s) s"

definition committal_message :: "pyval \<Rightarrow> raft_node \<Rightarrow> message" where
  "committal_message receiver s =
     new_append_entries MessageType_Committal MessageDirection_Request receiver
       (PyStr (my_id s)) (PyInt (last_applied_index s)) (PyInt (last_applied_term s)) PyNone
       (AppendEntriesResults PyNone PyNone) (stamp s) s"

definition ack_message :: "pyval \<Rightarrow> bool \<Rightarrow> raft_node \<Rightarrow> message" where
  "ack_message receiver ok s =
     new_append_entries MessageType_Acknowledge MessageDirection_Response receiver
       (leader_id s) (PyInt (last_applied_index s)) (PyInt (last_applied_term s)) PyNone
       (AppendEntriesResults (PyInt (current_term s)) (PyBool ok)) (stamp s) s"

definition forward_message :: "pyval \<Rightarrow> entry \<Rightarrow> raft_node \<Rightarrow> message" where
  "forward_message receiver e s =
     new_append_entries MessageType_ClientRequest MessageDirection_Response receiver
       (leader_id s) (PyInt (last_applied_index s)) (PyInt (last_applied_term s))
       (entry_to_py e) (AppendEntriesResults PyNone PyNone) (stamp s) s"

lemmas message_defs =
  vote_message_def request_vote_message_def heartbeat_message_def append_message_def
  committal_message_def ack_message_def forward_message_def new_append_entries_def

lemmas send_defs =
  send_request_vote_def send_vote_def send_heartbeat_def send_append_entries_def
  send_committal_def send_acknowledge_def send_client_request_def message_timestamp_def
  send_message_def

lemma wp_send [abs_def, wp]:
  "wp (send_request_vote r) Q E s = Q () (sent (request_vote_message r s) s)"
  "wp (send_vote c g) Q E s = Q () ((sent (vote_message c g s) s)\<lparr>voted_for := c\<rparr>)"
  "wp send_heartbeat Q E s = Q () (sent (heartbeat_message s) s)"
  "wp (send_append_entries i t e r) Q E s = Q () (sent (append_message i t e r s) s)"
  "wp (send_committal i r) Q E s = Q () (sent (committal_message r s) s)"
  "wp (send_acknowledge r g) Q E s = Q () (sent (ack_message r g s) s)"
  "wp (send_client_request r e) Q E s = Q () (sent (forward_message r e s) s)"
  by (simp_all add: send_defs message_defs sent_def stamp_def wp)

lemma wp_set_current_role [abs_def, wp]:
  "wp (set_current_role r) Q E s = Q () (s\<lparr>current_role := r\<rparr>)"
  by (simp add: set_current_role_def wp)

lemma wp_check_role [abs_def, wp]: "wp check_role Q E s = Q (current_role s) s"
  by (simp add: check_role_def wp)

lemma wp_increment_term [abs_def, wp]:
  "wp (increment_term t) Q E s =
     Q () (s\<lparr>voted_for := PyNone,
             current_term := (case t of None \<Rightarrow> current_term s + 1 | Some t' \<Rightarrow> t')\<rparr>)"
  by (cases t) (simp_all add: increment_term_def wp)

lemma wp_commit_entry [abs_def, wp]:
  "wp (commit_entry i t) Q E s =
     Q () (s\<lparr>last_applied_index := i, last_applied_term := t, commit_index := i\<rparr>)"
  by (simp add: commit_entry_def wp)

lemma wp_get_node_index [abs_def, wp]:
  "wp (get_node_index a) Q E s \<longleftrightarrow>
     (\<forall>e. py_index (all_ids s) a = Inl e \<longrightarrow> E e s) \<and> (\<forall>i. py_index (all_ids s) a = Inr i \<longrightarrow> Q i s)"
  by (simp add: get_node_index_def wp)

lemma wp_get_client_request [abs_def, wp]:
  "wp get_client_request Q E s \<longleftrightarrow>
     (client_queue s = [] \<longrightarrow> Q None s)
     \<and> (\<forall>e q. client_queue s = e # q \<longrightarrow> Q (Some e) (s\<lparr>client_queue := q\<rparr>))"
  by (cases "client_queue s") (simp_all add: wp_def get_client_request_def)

text \<open>Taking a message: nothing is there, or the head is parsed.\<close>

definition received :: "pyval list \<Rightarrow> raft_node \<Rightarrow> raft_node" where
  "received q s = s\<lparr>node_listener := (node_listener s)\<lparr>l_messages := q\<rparr>\<rparr>"

lemma received_simps [simp]:
  "terminate (received q s) = terminate s"
  "client_queue (received q s) = client_queue s"
  "all_ids (received q s) = all_ids s"
  "my_id (received q s) = my_id s"
  "election_timeout (received q s) = election_timeout s"
  "heartbeat_frequency (received q s) = heartbeat_frequency s"
  "resend_time (received q s) = resend_time s"
  "node_name (received q s) = node_name s"
  "current_num_nodes (received q s) = current_num_nodes s"
  "current_role (received q s) = current_role s"
  "leader_id (received q s) = leader_id s"
  "current_term (received q s) = current_term s"
  "voted_for (received q s) = voted_for s"
  "rlog (received q s) = rlog s"
  "log_hash (received q s) = log_hash s"
  "commit_index (received q s) = commit_index s"
  "last_applied_index (received q s) = last_applied_index s"
  "last_applied_term (received q s) = last_applied_term s"
  "next_index (received q s) = next_index s"
  "match_index (received q s) = match_index s"
  "heard_from (received q s) = heard_from s"
  "node_listener (received q s) = (node_listener s)\<lparr>l_messages := q\<rparr>"
  "node_talker (received q s) = node_talker s"
  "clock (received q s) = clock s"
  "ticks (received q s) = ticks s"
  "lib_old_div (received q s) = lib_old_div s"
  by (simp_all add: received_def)

lemma wp_get_message [abs_def, wp]:
  "wp get_message Q E s \<longleftrightarrow>
     (l_messages (node_listener s) = [] \<longrightarrow> Q None s)
     \<and> (\<forall>v q. l_messages (node_listener s) = v # q \<longrightarrow>
          (\<forall>e. parse_json_message v = Inl e \<longrightarrow> E e (received q s))
          \<and> (\<forall>m. parse_json_message v = Inr m \<longrightarrow> Q m (received q s)))"
  by (cases "l_messages (node_listener s)")
     (auto simp: wp_def get_message_def bnd_def Listener_get_message_def lift_result_def
       parse_json_message_def received_def Let_def split: sum.split)

section \<open>Contracts for frames\<close>

text \<open>
  A relation between the states before and after is kept by the replication methods of the
  leader when it is kept by the assignments they are made of. The contract is stated once
  as the assumptions of a locale, and each frame property below is an interpretation. The
  two extensions add the assignments of the leader's whole loop and of the other roles.
\<close>

locale replication_frame = frame R for R :: "raft_node \<Rightarrow> raft_node \<Rightarrow> bool" +
  assumes on_ticks: "R s (s\<lparr>ticks := n\<rparr>)"
    and on_append_message: "R s (sent (append_message i t e r s) s)"
    and on_committal: "R s (sent (committal_message r s) s)"
    and on_next_index: "R s (s\<lparr>next_index := nis\<rparr>)"
    and on_match_index: "R s (s\<lparr>match_index := mis\<rparr>)"
    and on_heard_from: "R s (s\<lparr>heard_from := hf\<rparr>)"
    and on_heard_from_all: "R s (s\<lparr>heard_from := hf, ticks := n\<rparr>)"
    and on_log: "R s (s\<lparr>rlog := rlog s @ [e]\<rparr>)"
    and on_log_hash: "R s (s\<lparr>log_hash := h\<rparr>)"
    and on_commit: "commit_index s < i \<Longrightarrow>
      R s (s\<lparr>last_applied_index := i, last_applied_term := t, commit_index := i\<rparr>)"
    and on_client_queue: "R s (s\<lparr>client_queue := q\<rparr>)"
    and on_leader_id: "R s (s\<lparr>leader_id := l\<rparr>)"
begin

lemma time_time: "always R time_time"
  by (simp add: always_def wp on_ticks)

lemma get_node_index: "always R (get_node_index a)"
  by (simp add: always_def wp frame_refl split: sum.split)

lemma get_client_request: "always R get_client_request"
  by (simp add: always_def wp frame_refl on_client_queue split: list.split)

lemma check_role: "always R check_role"
  by (simp add: always_def wp frame_refl)

lemma verify_entry: "always R (verify_entry i t)"
  unfolding verify_entry_def by (intro frame_intros)

lemma send_append_entries: "always R (send_append_entries i t e r)"
  by (simp add: always_def wp on_append_message)

lemma send_committal: "always R (send_committal i r)"
  by (simp add: always_def wp on_committal)

lemmas small =
  time_time get_node_index get_client_request check_role verify_entry
  send_append_entries send_committal

lemma append_at_end: "always R (append_entry e False None)"
  unfolding append_entry_def option.case when_py_def if_False
  by (intro frame_intros small modify_frame on_log on_log_hash)

lemma broadcast_append_node: "always R (broadcast_append_node i t e node)"
  unfolding broadcast_append_node_def
  by (intro frame_intros small modify_frame on_next_index)

lemma broadcast_append_entries: "always R (broadcast_append_entries e)"
  unfolding broadcast_append_entries_def update_own_indices_def
  by (intro frame_intros small append_at_end broadcast_append_node modify_frame on_next_index on_match_index)

lemma broadcast_commit_node: "always R (broadcast_commit_node x)"
  unfolding broadcast_commit_node_def
  by (intro frame_intros small)

lemma broadcast_commit_entries:
  assumes "commit_index s < i"
  shows "wp (broadcast_commit_entries i) (\<lambda>_. R s) (\<lambda>_. R s) s"
proof -
  have loop: "always R (for_each xs broadcast_commit_node)" for xs
    by (intro for_each_frame broadcast_commit_node)
  have "wp (for_each xs broadcast_commit_node) (\<lambda>_. R s) (\<lambda>_. R s) t" if "R s t" for xs t
    by (rule wp_mono [OF alwaysD [OF loop]]) (use that frame_trans in blast)+
  then show ?thesis
    using on_commit [OF assms] frame_refl by (simp add: broadcast_commit_entries_def wp)
qed

lemma leader_send_next: "always R (leader_send_next k r)"
  unfolding leader_send_next_def by (intro frame_intros small)

lemma leader_commit_rule: "always R leader_commit_rule"
  using broadcast_commit_entries frame_refl by (simp add: leader_commit_rule_def always_def wp)

lemma leader_acknowledge_pending: "always R (leader_acknowledge_pending m i k)"
  unfolding leader_acknowledge_pending_def
  by (intro frame_intros small leader_send_next leader_commit_rule modify_frame on_match_index on_next_index)

lemma leader_acknowledge: "always R (leader_acknowledge m)"
proof -
  have "always R (case msg_sender m of PyStr a \<Rightarrow> get_node_index a | _ \<Rightarrow> raise ValueError)"
    by (cases "msg_sender m") (simp_all add: get_node_index raise_frame)
  then show ?thesis
    unfolding leader_acknowledge_def
    by (intro frame_intros small leader_acknowledge_pending modify_frame on_heard_from)
qed

lemma leader_take_over: "always R leader_take_over"
proof -
  have "always R (\<lambda>s. (Inr (), s\<lparr>heard_from := f s, ticks := g s\<rparr>))" for f g
    by (simp add: always_def wp on_heard_from_all)
  then show ?thesis
    unfolding leader_take_over_def
    by (intro frame_intros small broadcast_append_entries modify_frame on_leader_id on_match_index
          on_next_index)
qed

lemma leader_resend_node: "always R (leader_resend_node node)"
  unfolding leader_resend_node_def
  by (intro frame_intros small leader_send_next modify_frame on_heard_from)

end


locale loop_frame = replication_frame R for R :: "raft_node \<Rightarrow> raft_node \<Rightarrow> bool" +
  assumes on_role: "r \<noteq> Leader \<Longrightarrow> R s (s\<lparr>current_role := r\<rparr>)"
    and on_receive: "l_messages (node_listener s) = v # q \<Longrightarrow> R s (received q s)"
    and on_term: "current_term s < tm \<Longrightarrow> R s (s\<lparr>voted_for := PyNone, current_term := tm\<rparr>)"
begin

lemma set_current_role:
  "always R (set_current_role Follower)" "always R (set_current_role Candidate)"
  by (simp_all add: always_def wp on_role)

lemma get_message: "always R get_message"
  by (auto simp: always_def wp frame_refl on_receive)

lemma flow_intro:
  "always R m \<Longrightarrow> (\<And>l. always R (f l)) \<Longrightarrow>
     always R (case fl of Return \<Rightarrow> m | Continue l \<Rightarrow> f l)"
  by (cases fl) simp_all

lemma role_intro:
  "always R a \<Longrightarrow> always R b \<Longrightarrow> always R c \<Longrightarrow> always R d \<Longrightarrow>
     always R (case r of Follower \<Rightarrow> a | Candidate \<Rightarrow> b | Leader \<Rightarrow> c | Paused \<Rightarrow> d)"
  by (cases r) simp_all

text \<open>The term is set under a guard: to a higher one the message carries.\<close>

lemma guarded_term:
  assumes "always R m"
  shows "always R (bnd (gets current_term) (\<lambda>ct. seq (when_py (t > ct) (increment_term (Some t))) m))"
proof (rule alwaysI)
  fix s
  have "wp m (\<lambda>_. R s) (\<lambda>_. R s) u" if "R s u" for u
    by (rule wp_mono [OF alwaysD [OF assms]]) (use that frame_trans in blast)+
  then show "wp (bnd (gets current_term) (\<lambda>ct. seq (when_py (t > ct) (increment_term (Some t))) m))
      (\<lambda>_. R s) (\<lambda>_. R s) s"
    using on_term [of s t] frame_refl [of s] by (simp add: wp)
qed

lemma stand_down:
  assumes "always R m"
  shows "always R (bnd (gets current_term) (\<lambda>ct.
    if t > ct then seq (increment_term (Some t)) m else ret y))"
proof (rule alwaysI)
  fix s
  have "wp m (\<lambda>_. R s) (\<lambda>_. R s) u" if "R s u" for u
    by (rule wp_mono [OF alwaysD [OF assms]]) (use that frame_trans in blast)+
  then show "wp (bnd (gets current_term) (\<lambda>ct.
      if t > ct then seq (increment_term (Some t)) m else ret y)) (\<lambda>_. R s) (\<lambda>_. R s) s"
    using on_term [of s t] frame_refl [of s] by (simp add: wp)
qed

end

locale voter_frame = loop_frame R for R :: "raft_node \<Rightarrow> raft_node \<Rightarrow> bool" +
  assumes on_vote: "R s ((sent (vote_message c g s) s)\<lparr>voted_for := c\<rparr>)"
begin

lemma send_vote: "always R (send_vote c g)"
  by (simp add: always_def wp on_vote)

lemma leader_handle: "always R (leader_handle m)"
  unfolding leader_handle_def leader_request_votes_def
  by (intro frame_intros(1-5) if_frame stand_down seq_frame small set_current_role send_vote leader_acknowledge
        broadcast_append_entries)

lemma leader_round: "always R (leader_round mrh)"
  unfolding leader_round_def
  by (intro frame_intros flow_intro small get_message leader_handle leader_resend_node
        broadcast_append_entries)

end

locale leader_frame = voter_frame R for R :: "raft_node \<Rightarrow> raft_node \<Rightarrow> bool" +
  assumes on_heartbeat: "R s (sent (heartbeat_message s) s)"
begin

lemma send_heartbeat: "always R send_heartbeat"
  by (simp add: always_def wp on_heartbeat)

lemma leader_start: "always R leader_start"
  unfolding leader_start_def by (intro seq_frame send_heartbeat leader_take_over)

lemma leader_iteration: "always R (leader_iteration mrh)"
  unfolding leader_iteration_def leader_send_heartbeat_if_due_def
  by (intro frame_intros small send_heartbeat leader_round)

end

locale follower_frame = loop_frame R for R :: "raft_node \<Rightarrow> raft_node \<Rightarrow> bool" +
  assumes on_cut: "R s (s\<lparr>rlog := py_take n (rlog s)\<rparr>)"
    and on_acknowledge: "R s (sent (ack_message r g s) s)"
    and on_forward: "R s (sent (forward_message r e s) s)"
    and on_commit_any: "R s (s\<lparr>last_applied_index := i, last_applied_term := t, commit_index := i\<rparr>)"
begin

lemma commit_entry: "always R (commit_entry i t)"
  by (simp add: always_def wp on_commit_any)

lemma send_acknowledge: "always R (send_acknowledge r g)"
  by (simp add: always_def wp on_acknowledge)

lemma send_client_request: "always R (send_client_request r e)"
  by (simp add: always_def wp on_forward)

lemma append_entry: "always R (append_entry e c p)"
  unfolding append_entry_def
  by (intro frame_intros small commit_entry modify_frame on_log on_log_hash on_cut)

lemma follower_append_entries: "always R (follower_append_entries m)"
  unfolding follower_append_entries_def
  by (intro frame_intros small append_entry send_acknowledge)

lemma follower_committal: "always R (follower_committal m)"
  unfolding follower_committal_def by (intro frame_intros small commit_entry)

lemma vote_test: "always R (vote_test m)"
  unfolding vote_test_def by (intro frame_intros)

lemma follow_leader: "always R (bnd (lift_result r) (\<lambda>l. seq (modify (\<lambda>s. s\<lparr>leader_id := l\<rparr>))
     (bnd time_time (\<lambda>now.
     seq (when_py (py_truthy l)
           (bnd get_client_request (\<lambda>cr.
            case cr of None \<Rightarrow> ret () | Some e \<Rightarrow> send_client_request l e)))
     (ret now)))))"
  by (intro frame_intros small send_client_request modify_frame on_leader_id)

end

locale electorate_frame = voter_frame R + follower_frame R for R :: "raft_node \<Rightarrow> raft_node \<Rightarrow> bool"
begin

lemmas all_small =
  small set_current_role send_vote get_message send_acknowledge
  send_client_request append_entry

lemma follower_handle: "always R (follower_handle mrh m)"
proof -
  have "always R (follower_request_votes m)"
    unfolding follower_request_votes_def
    by (intro bnd_frame [OF lift_result_frame] guarded_term bnd_frame seq_frame all_small vote_test)
  moreover have "always R (follower_heartbeat m)"
    unfolding follower_heartbeat_def
    by (intro bnd_frame [OF lift_result_frame] guarded_term follow_leader)
  ultimately show ?thesis
    unfolding follower_handle_def
    by (intro frame_intros follower_append_entries follower_committal)
qed

lemma follower_iteration: "always R (follower_iteration mrh)"
  unfolding follower_iteration_def
  by (intro frame_intros all_small follower_handle)

end

locale member_frame = electorate_frame R for R :: "raft_node \<Rightarrow> raft_node \<Rightarrow> bool" +
  assumes on_request_vote: "R s (sent (request_vote_message r s) s)"
    and on_same_term: "R s (s\<lparr>voted_for := PyNone\<rparr>)"
    and on_elected: "R s (s\<lparr>current_role := Leader\<rparr>)"
begin

lemma on_term_from: "current_term s \<le> tm \<Longrightarrow> R s (s\<lparr>voted_for := PyNone, current_term := tm\<rparr>)"
  using on_term [of s tm] on_same_term [of s] by (cases "tm = current_term s") auto

lemma increment_term_next: "always R (increment_term None)"
  by (simp add: always_def wp on_term)

lemma give_way:
  assumes "always R m"
  shows "always R (bnd (gets current_term) (\<lambda>ct.
    if t \<ge> ct then seq (increment_term (Some t)) m else ret y))"
proof (rule alwaysI)
  fix s
  have "wp m (\<lambda>_. R s) (\<lambda>_. R s) u" if "R s u" for u
    by (rule wp_mono [OF alwaysD [OF assms]]) (use that frame_trans in blast)+
  then show "wp (bnd (gets current_term) (\<lambda>ct.
      if t \<ge> ct then seq (increment_term (Some t)) m else ret y)) (\<lambda>_. R s) (\<lambda>_. R s) s"
    using on_term_from [of s t] frame_refl [of s] by (simp add: wp)
qed

lemma send_request_vote: "always R (send_request_vote r)"
  by (simp add: always_def wp on_request_vote)

lemma candidate_vote: "always R (candidate_vote el m)"
proof -
  have "always R (set_current_role Leader)"
    by (simp add: always_def wp on_elected)
  then show ?thesis
    unfolding candidate_vote_def by (intro frame_intros)
qed

lemma candidate_start: "always R candidate_start"
  unfolding candidate_start_def by (intro frame_intros all_small send_request_vote increment_term_next)

lemma candidate_handle: "always R (candidate_handle el m)"
proof -
  have "always R (candidate_request_votes el m)"
    unfolding candidate_request_votes_def
    by (intro bnd_frame [OF lift_result_frame] stand_down seq_frame all_small ret_frame)
  moreover have "always R (candidate_heartbeat el m)"
    unfolding candidate_heartbeat_def
    by (intro bnd_frame [OF lift_result_frame] give_way seq_frame all_small ret_frame modify_frame on_leader_id)
  ultimately show ?thesis
    unfolding candidate_handle_def by (intro frame_intros candidate_vote)
qed

lemma candidate_iteration: "always R (candidate_iteration el)"
  unfolding candidate_iteration_def
  by (intro frame_intros flow_intro all_small candidate_handle)

end

locale thread_frame = leader_frame R + member_frame R for R :: "raft_node \<Rightarrow> raft_node \<Rightarrow> bool"
begin

lemma run_step: "always R (run_step c)"
proof -
  have "always R run_dispatch"
    unfolding run_dispatch_def
    by (intro frame_intros role_intro small leader_start candidate_start)
  then show ?thesis
    by (cases c) (auto simp: in_role_def after_iteration_def
      intro!: frame_intros follower_iteration candidate_iteration leader_iteration)
qed

lemma thread_step: "thread_step (c, s) = (c', s') \<Longrightarrow> R s s'"
  using always_run [OF run_step] by (auto simp: thread_step_def split: prod.splits sum.splits)

lemma thread_steps: "R s (snd (thread_steps n (c, s)))"
proof (induction n arbitrary: c s)
  case 0
  then show ?case by (simp add: frame_refl)
next
  case (Suc n)
  obtain c' s' where "thread_step (c, s) = (c', s')"
    by force
  with Suc.IH [of s' c'] thread_step [OF this] show ?case
    by (auto intro: frame_trans)
qed

end

section \<open>What no step of the thread changes\<close>

definition same_talker_process :: "talker \<Rightarrow> talker \<Rightarrow> bool" where
  "same_talker_process t t' \<longleftrightarrow>
     t_address t' = t_address t \<and> t_stop t' = t_stop t \<and> t_ready t' = t_ready t \<and> t_pc t' = t_pc t"

definition same_listener_process :: "listener \<Rightarrow> listener \<Rightarrow> bool" where
  "same_listener_process l l' \<longleftrightarrow>
     l_address_list l' = l_address_list l \<and> l_my_id l' = l_my_id l \<and> l_stop l' = l_stop l
     \<and> l_pc l' = l_pc l"

text \<open>The configuration, and the processes of the interface but for their queues.\<close>

definition same_config :: "raft_node \<Rightarrow> raft_node \<Rightarrow> bool" where
  "same_config s t \<longleftrightarrow>
     terminate t = terminate s \<and> all_ids t = all_ids s \<and> my_id t = my_id s
     \<and> node_name t = node_name s \<and> current_num_nodes t = current_num_nodes s
     \<and> election_timeout t = election_timeout s \<and> heartbeat_frequency t = heartbeat_frequency s
     \<and> resend_time t = resend_time s \<and> clock t = clock s \<and> lib_old_div t = lib_old_div s
     \<and> same_talker_process (node_talker s) (node_talker t)
     \<and> same_listener_process (node_listener s) (node_listener t)"

lemmas same_config_defs =
  same_config_def same_talker_process_def same_listener_process_def

interpretation cfg: thread_frame same_config
  by unfold_locales (auto simp: same_config_defs)

section \<open>Terms never decrease\<close>

definition term_grows :: "raft_node \<Rightarrow> raft_node \<Rightarrow> bool" where
  "term_grows s t \<longleftrightarrow> current_term s \<le> current_term t"

interpretation terms: thread_frame term_grows
  by unfold_locales (auto simp: term_grows_def)

section \<open>The two records of the commit position agree\<close>

definition keeps_applied :: "raft_node \<Rightarrow> raft_node \<Rightarrow> bool" where
  "keeps_applied s t \<longleftrightarrow>
     (last_applied_index s = commit_index s \<longrightarrow> last_applied_index t = commit_index t)"

interpretation applied: thread_frame keeps_applied
  by unfold_locales (auto simp: keeps_applied_def)

section \<open>The leader only appends to its log\<close>

definition log_extends :: "raft_node \<Rightarrow> raft_node \<Rightarrow> bool" where
  "log_extends s t \<longleftrightarrow> (\<exists>es. rlog t = rlog s @ es)"

interpretation grow: leader_frame log_extends
  by unfold_locales (auto simp: log_extends_def)

section \<open>The leader only raises its commit index\<close>

definition commit_grows :: "raft_node \<Rightarrow> raft_node \<Rightarrow> bool" where
  "commit_grows s t \<longleftrightarrow> commit_index s \<le> commit_index t"

interpretation commits: leader_frame commit_grows
  by unfold_locales (auto simp: commit_grows_def)

section \<open>Messages are queued behind those already queued, under the node's own name\<close>

definition message_sender :: "pyval \<Rightarrow> pyval option" where
  "message_sender v = (case py_subscript v ''sender'' of Inl _ \<Rightarrow> None | Inr x \<Rightarrow> Some x)"

definition sends_as_itself :: "raft_node \<Rightarrow> raft_node \<Rightarrow> bool" where
  "sends_as_itself s t \<longleftrightarrow>
     my_id t = my_id s \<and>
     (\<exists>vs. t_messages (node_talker t) = t_messages (node_talker s) @ vs
         \<and> (\<forall>v \<in> set vs. message_sender v = Some (PyStr (my_id s))))"

lemma message_sender_jsonify [simp]: "message_sender (jsonify m) = Some (msg_sender m)"
  by (cases m) (simp_all add: message_sender_def jsonify_defs py_subscript_def)

lemma msg_sender_messages [simp]:
  "msg_sender (vote_message c g s) = PyStr (my_id s)"
  "msg_sender (request_vote_message r s) = PyStr (my_id s)"
  "msg_sender (heartbeat_message s) = PyStr (my_id s)"
  "msg_sender (append_message i t e r s) = PyStr (my_id s)"
  "msg_sender (committal_message r s) = PyStr (my_id s)"
  "msg_sender (ack_message r g s) = PyStr (my_id s)"
  "msg_sender (forward_message r e s) = PyStr (my_id s)"
  by (simp_all add: message_defs)

interpretation authentic: thread_frame sends_as_itself
proof unfold_locales
  fix s t u
  assume "sends_as_itself s t" and "sends_as_itself t u"
  then show "sends_as_itself s u"
    by (fastforce simp: sends_as_itself_def)
qed (auto simp: sends_as_itself_def)

section \<open>Properties\<close>

text \<open>
  A leader only appends to its log: whatever one iteration of the leader's loop does,
  the exceptions it may raise included, the log it had is a prefix of the log it has.
\<close>

theorem leader_append_only: "\<exists>es. rlog (snd (thread_step (InLeader mrh, s))) = rlog s @ es"
proof -
  have "always log_extends (run_step (InLeader mrh))"
    by (auto simp: in_role_def after_iteration_def intro!: grow.frame_intros grow.leader_iteration)
  then have "log_extends s (snd (run_step (InLeader mrh) s))"
    using always_run by (metis prod.collapse)
  then show ?thesis
    by (auto simp: thread_step_def log_extends_def split: prod.splits sum.splits)
qed

text \<open>
  A leader never takes back a commitment: one iteration of the leader's loop, the
  exceptions it may raise included, leaves the commit index as it was or raises it.
\<close>

theorem leader_commit_grows: "commit_index s \<le> commit_index (snd (thread_step (InLeader mrh, s)))"
proof -
  have "always commit_grows (run_step (InLeader mrh))"
    by (auto simp: in_role_def after_iteration_def intro!: commits.frame_intros commits.leader_iteration)
  then have "commit_grows s (snd (run_step (InLeader mrh) s))"
    using always_run by (metis prod.collapse)
  then show ?thesis
    by (auto simp: thread_step_def commit_grows_def split: prod.splits sum.splits)
qed

text \<open>
  The current term of a node never decreases, over any number of steps of its thread in
  any roles and with any messages, well formed or not, in its inbox.
\<close>

theorem terms_never_decrease: "current_term s \<le> current_term (snd (thread_steps n (c, s)))"
  using terms.thread_steps [of s n c] by (simp add: term_grows_def)

text \<open>
  A node sends under its own name and in order: over any number of steps of its thread
  the messages it queues for its talker are appended behind those already queued, each one
  with the node's own id as its sender.
\<close>

theorem queued_under_own_name:
  "\<exists>vs. t_messages (node_talker (snd (thread_steps n (c, s)))) = t_messages (node_talker s) @ vs
     \<and> list_all (\<lambda>v. message_sender v = Some (PyStr (my_id s))) vs"
  using authentic.thread_steps [of s n c] by (auto simp: sends_as_itself_def list_all_iff)

text \<open>
  The configuration is fixed: over any number of steps of its thread a node keeps its
  id, its name, the members and their number, its timeouts, the stop request, and the
  control of its talker and listener processes.
\<close>

theorem configuration_fixed: "same_config s (snd (thread_steps n (c, s)))"
  by (rule cfg.thread_steps)

text \<open>
  The two records of the commit position agree: once \<open>last_applied_index\<close> and
  \<open>commit_index\<close> are equal, as they are after construction, they stay equal.
\<close>

theorem applied_is_committed:
  assumes "last_applied_index s = commit_index s"
  shows "last_applied_index (snd (thread_steps n (c, s))) = commit_index (snd (thread_steps n (c, s)))"
  using applied.thread_steps [of s n c] assms by (simp add: keeps_applied_def)

theorem applied_is_committed_witness:
  "last_applied_index (snd (thread_steps 5 (Dispatch, trio_node ''node1'')))
     = commit_index (snd (thread_steps 5 (Dispatch, trio_node ''node1'')))"
  by (rule applied_is_committed) (simp add: fresh_node_def)

end
