(* ===== verification/Raft_Invariant.thy ===== *)
theory Raft_Invariant
  imports Raft_Frames
begin

text \<open>
  Well-formed messages and nodes. A node that starts well formed and receives well-formed
  messages never raises: the members of the address book are found, indices stay inside
  the log, comparisons are between integers and ids of entries are hashable. Every step of
  the thread keeps the invariant and every message it queues is well formed again.
\<close>

section \<open>Well-formed messages\<close>

definition wf_entry :: "entry \<Rightarrow> bool" where
  "wf_entry e \<longleftrightarrow> json_plain (e_value e) \<and> json_plain (e_id e) \<and> py_hashable (e_id e)"

fun is_int :: "pyval \<Rightarrow> bool" where
  "is_int (PyInt i) = True"
| "is_int _ = False"

fun is_nat :: "pyval \<Rightarrow> bool" where
  "is_nat (PyInt i) = (0 \<le> i)"
| "is_nat _ = False"

fun is_member :: "string list \<Rightarrow> pyval \<Rightarrow> bool" where
  "is_member ids (PyStr a) = (a \<in> set ids)"
| "is_member ids _ = False"

definition wf_payload :: "pyval \<Rightarrow> bool" where
  "wf_payload v = (case entry_of_py v of Inl _ \<Rightarrow> False | Inr e \<Rightarrow> wf_entry e)"

fun wf_message :: "string list \<Rightarrow> message \<Rightarrow> bool" where
  "wf_message ids (RequestVotesMessage m) =
     (m_type m = PyInt MessageType_RequestVotes \<and> is_int (m_term m) \<and> is_member ids (m_sender m)
      \<and> is_RequestVotesResults (m_results m)
      \<and> (py_eq_int (m_direction m) MessageDirection_Response \<longrightarrow> is_member ids (m_receiver m))
      \<and> is_int (m_last_log_index m) \<and> is_int (m_last_log_term m))"
| "wf_message ids (AppendEntriesMessage m) =
     (is_int (m_type m) \<and> \<not> py_eq_int (m_type m) MessageType_RequestVotes
      \<and> is_int (m_term m) \<and> is_member ids (m_sender m) \<and> is_AppendEntriesResults (m_results m)
      \<and> (m_type m = PyInt MessageType_AppendEntries \<longrightarrow>
           is_nat (m_prev_log_index m) \<and> is_int (m_prev_log_term m) \<and> is_int (m_leader_commit m)
           \<and> wf_payload (m_entries m))
      \<and> (m_type m = PyInt MessageType_Committal \<longrightarrow>
           is_nat (m_prev_log_index m) \<and> is_int (m_prev_log_term m))
      \<and> (m_type m = PyInt MessageType_ClientRequest \<longrightarrow> wf_payload (m_entries m)))"

definition wf_json :: "string list \<Rightarrow> pyval \<Rightarrow> bool" where
  "wf_json ids v \<longleftrightarrow> json_plain v \<and> (\<exists>m. v = jsonify m \<and> wf_message ids m)"

lemma is_int_cases: "is_int v \<Longrightarrow> (\<And>i. v = PyInt i \<Longrightarrow> P) \<Longrightarrow> P"
  by (cases v) auto

lemma is_int_eq [simp]: "is_int v \<Longrightarrow> py_eq_int v k \<longleftrightarrow> v = PyInt k"
  by (cases v) auto

lemma is_int_as_int: "is_int v \<Longrightarrow> \<exists>i. py_as_int v = Inr i"
  by (cases v) auto

lemma is_nat_as_int: "is_nat v \<Longrightarrow> \<exists>i. py_as_int v = Inr i \<and> 0 \<le> i"
  by (cases v) auto

lemma is_member_cases: "is_member ids v \<Longrightarrow> (\<And>a. v = PyStr a \<Longrightarrow> a \<in> set ids \<Longrightarrow> P) \<Longrightarrow> P"
  by (cases v) auto

lemma wf_payloadE: "wf_payload v \<Longrightarrow> \<exists>e. entry_of_py v = Inr e \<and> wf_entry e"
  by (auto simp: wf_payload_def split: sum.splits)

lemma entry_of_to_py [simp]: "entry_of_py (entry_to_py e) = Inr e"
  by (simp add: entry_of_py_def entry_to_py_def py_subscript_def)

lemma wf_payload_entry [simp]: "wf_payload (entry_to_py e) = wf_entry e"
  by (simp add: wf_payload_def)

lemma json_plain_entry [simp]:
  "json_plain (entry_to_py e) = (json_plain (e_value e) \<and> json_plain (e_id e))"
  by (simp add: entry_to_py_def)

lemma wf_message_classed: "wf_message ids m \<Longrightarrow> well_classed m"
  by (cases m) auto

lemma wf_json_parse:
  "wf_json ids v \<Longrightarrow>
     \<exists>m. parse_json_message v = Inr (Some m) \<and> wf_message ids m \<and> json_plain (jsonify m)"
  by (auto simp: wf_json_def dest: wf_message_classed parse_jsonify_message)

section \<open>Well-formed nodes\<close>

definition node_ok :: "string list \<Rightarrow> raft_node \<Rightarrow> bool" where
  "node_ok ids s \<longleftrightarrow>
     all_ids s = ids \<and> my_id s \<in> set ids \<and> current_num_nodes s = int (length ids)
     \<and> length (next_index s) = length ids \<and> length (match_index s) = length ids
     \<and> length (heard_from s) = length ids
     \<and> rlog s \<noteq> [] \<and> list_all wf_entry (rlog s) \<and> list_all wf_entry (client_queue s)
     \<and> 0 \<le> commit_index s \<and> 0 \<le> last_applied_index s \<and> json_plain (leader_id s)
     \<and> list_all (wf_json ids) (l_messages (node_listener s))
     \<and> list_all (wf_json ids) (t_messages (node_talker s))"

text \<open>
  While a node leads: the next index of a peer is a position of the log after the first,
  and a match index beyond the committed entries is a position of the log.
\<close>

definition leader_ok :: "raft_node \<Rightarrow> bool" where
  "leader_ok s \<longleftrightarrow>
     (\<forall>k. Some k \<in> set (next_index s) \<longrightarrow> 1 \<le> k \<and> k < int (length (rlog s)))
     \<and> (\<forall>k \<in> set (match_index s). k \<le> commit_index s \<or> k < int (length (rlog s)))"

lemma json_plain_jsonify:
  "json_plain (jsonify (RequestVotesMessage r)) \<longleftrightarrow>
     json_plain (m_type r) \<and> json_plain (m_term r) \<and> json_plain (m_timestamp r)
     \<and> json_plain (m_sender r) \<and> json_plain (m_receiver r) \<and> json_plain (m_direction r)
     \<and> json_plain (results_jsonify (m_results r)) \<and> json_plain (m_candidate_id r)
     \<and> json_plain (m_last_log_index r) \<and> json_plain (m_last_log_term r)"
  "json_plain (jsonify (AppendEntriesMessage a)) \<longleftrightarrow>
     json_plain (m_type a) \<and> json_plain (m_term a) \<and> json_plain (m_timestamp a)
     \<and> json_plain (m_sender a) \<and> json_plain (m_receiver a) \<and> json_plain (m_direction a)
     \<and> json_plain (results_jsonify (m_results a)) \<and> json_plain (m_leader_id a)
     \<and> json_plain (m_prev_log_index a) \<and> json_plain (m_prev_log_term a)
     \<and> json_plain (m_entries a) \<and> json_plain (m_leader_commit a)"
  by (simp_all add: jsonify_defs)

lemma json_plain_stamp [simp]: "json_plain (stamp s)"
  by (simp add: stamp_def)

lemma wf_sent_messages:
  assumes "node_ok ids s"
  shows "is_member ids c \<Longrightarrow> wf_json ids (jsonify (vote_message c g s))"
    and "json_plain c \<Longrightarrow> wf_json ids (jsonify (request_vote_message c s))"
    and "wf_json ids (jsonify (heartbeat_message s))"
    and "json_plain c \<Longrightarrow> 0 \<le> i \<Longrightarrow> wf_entry e \<Longrightarrow> wf_json ids (jsonify (append_message i t e c s))"
    and "json_plain c \<Longrightarrow> wf_json ids (jsonify (committal_message c s))"
    and "json_plain c \<Longrightarrow> wf_json ids (jsonify (ack_message c g s))"
    and "json_plain c \<Longrightarrow> wf_entry e \<Longrightarrow> wf_json ids (jsonify (forward_message c e s))"
  using assms unfolding wf_json_def
  by (auto intro!: exI simp: message_defs json_plain_jsonify node_ok_def message_type_defs wf_entry_def
        elim!: is_member_cases simp del: jsonify.simps)

lemma node_ok_sent:
  "node_ok ids s \<Longrightarrow> wf_json ids (jsonify m) \<Longrightarrow> node_ok ids (sent m s)"
  by (simp add: node_ok_def)

lemma leader_ok_sent [simp]: "leader_ok (sent m s) = leader_ok s"
  by (simp add: leader_ok_def)

section \<open>The leader\<close>

lemma node_okD:
  assumes "node_ok ids s"
  shows "all_ids s = ids" "my_id s \<in> set ids" "current_num_nodes s = int (length ids)"
    "length (next_index s) = length ids" "length (match_index s) = length ids"
    "length (heard_from s) = length ids" "rlog s \<noteq> []" "list_all wf_entry (rlog s)"
    "list_all wf_entry (client_queue s)" "0 \<le> commit_index s" "0 \<le> last_applied_index s"
    "json_plain (leader_id s)"
    "list_all (wf_json ids) (l_messages (node_listener s))"
    "list_all (wf_json ids) (t_messages (node_talker s))"
  using assms by (simp_all add: node_ok_def)

lemma node_ok_update [simp]:
  "node_ok ids (s\<lparr>ticks := n\<rparr>) = node_ok ids s"
  "node_ok ids (s\<lparr>current_role := r\<rparr>) = node_ok ids s"
  "node_ok ids (s\<lparr>voted_for := v, current_term := tm\<rparr>) = node_ok ids s"
  "node_ok ids (s\<lparr>voted_for := v\<rparr>) = node_ok ids s"
  "node_ok ids (s\<lparr>log_hash := h\<rparr>) = node_ok ids s"
  by (simp_all add: node_ok_def)

lemma leader_ok_update [simp]:
  "leader_ok (s\<lparr>ticks := n\<rparr>) = leader_ok s"
  "leader_ok (s\<lparr>heard_from := hf\<rparr>) = leader_ok s"
  "leader_ok (s\<lparr>current_role := r\<rparr>) = leader_ok s"
  "leader_ok (s\<lparr>voted_for := v, current_term := tm\<rparr>) = leader_ok s"
  "leader_ok (s\<lparr>voted_for := v\<rparr>) = leader_ok s"
  "leader_ok (s\<lparr>log_hash := h\<rparr>) = leader_ok s"
  "leader_ok (s\<lparr>client_queue := q\<rparr>) = leader_ok s"
  "leader_ok (s\<lparr>node_listener := l\<rparr>) = leader_ok s"
  "leader_ok (received ms s) = leader_ok s"
  by (simp_all add: leader_ok_def)

lemma wf_entry_nth: "node_ok ids s \<Longrightarrow> i < length (rlog s) \<Longrightarrow> wf_entry (rlog s ! i)"
  by (simp add: node_ok_def list_all_length)

text \<open>An entry is appended at the end: the log grows and nothing else that matters changes.\<close>

lemma wp_append_at_end:
  assumes "node_ok ids s" and "wf_entry e"
    and "Q (int (length (rlog s)) - 1, e_term (last (rlog s)))
           (s\<lparr>rlog := rlog s @ [e], log_hash := (log_hash s)(py_hash_key (e_id e) \<mapsto> e)\<rparr>)"
  shows "wp (append_entry e False None) Q E s"
  using assms by (simp add: append_entry_def wp node_okD wf_entry_def)

lemma leader_appended:
  assumes "node_ok ids s" and "leader_ok s" and "wf_entry e"
  shows "node_ok ids (s\<lparr>rlog := rlog s @ [e], log_hash := h\<rparr>)"
    and "leader_ok (s\<lparr>rlog := rlog s @ [e], log_hash := h\<rparr>)"
  using assms by (fastforce simp: node_ok_def leader_ok_def)+

lemma leader_next_index:
  assumes "node_ok ids s" and "leader_ok s" and "i < length ids"
    and "\<And>k. v = Some k \<Longrightarrow> 1 \<le> k \<and> k < int (length (rlog s))"
  shows "node_ok ids (s\<lparr>next_index := (next_index s)[i := v]\<rparr>)"
    and "leader_ok (s\<lparr>next_index := (next_index s)[i := v]\<rparr>)"
  using assms by (auto simp: node_ok_def leader_ok_def dest!: set_update_subset_insert [THEN subsetD])

lemma leader_match_index:
  assumes "node_ok ids s" and "leader_ok s" and "k < int (length (rlog s))"
  shows "node_ok ids (s\<lparr>match_index := (match_index s)[i := k]\<rparr>)"
    and "leader_ok (s\<lparr>match_index := (match_index s)[i := k]\<rparr>)"
  using assms by (auto simp: node_ok_def leader_ok_def dest!: set_update_subset_insert [THEN subsetD])

lemma broadcast_append_node_ok:
  assumes ok: "node_ok ids s" "leader_ok s" and "node < length ids" and "0 \<le> pix" and "wf_entry e"
    and "2 \<le> length (rlog s)"
  shows "wp (broadcast_append_node pix pt e node)
           (\<lambda>_ t. node_ok ids t \<and> leader_ok t \<and> rlog t = rlog s) (\<lambda>_ _. False) s"
proof -
  let ?m = "append_message pix pt e (PyStr (ids ! node)) s"
  let ?t = "sent ?m s"
  have t: "node_ok ids ?t" "leader_ok ?t"
    using assms by (auto intro!: node_ok_sent wf_sent_messages)
  show ?thesis
    using assms leader_next_index [OF t, of node "Some (log_max_index ?t)"]
    by (simp add: broadcast_append_node_def wp node_okD log_max_index_def split: option.split)
qed

lemma update_own_indices_ok:
  assumes ok: "node_ok ids t" "leader_ok t"
  shows "wp update_own_indices (\<lambda>_ u. node_ok ids u \<and> leader_ok u \<and> rlog u = rlog t) (\<lambda>_ _. False) t"
proof -
  obtain i where i: "py_index ids (my_id t) = Inr i" "0 \<le> i" "i < int (length ids)"
    using py_index_mem [of "my_id t" ids] ok by (auto simp: node_okD)
  then have "nat i < length ids" by simp
  note n' = leader_next_index [OF ok this, of None, simplified]
  note m' = leader_match_index [OF n', of "log_max_index t" "nat i", simplified]
  show ?thesis
    using i ok n' m' by (simp add: update_own_indices_def wp node_okD log_max_index_def)
qed

lemma broadcast_append_entries_ok:
  assumes ok: "node_ok ids s" "leader_ok s" and "wf_entry e"
  shows "wp (broadcast_append_entries e) (\<lambda>_ t. node_ok ids t \<and> leader_ok t \<and> rlog t = rlog s @ [e])
           (\<lambda>_ _. False) s"
proof -
  let ?s = "s\<lparr>rlog := rlog s @ [e], log_hash := (log_hash s)(py_hash_key (e_id e) \<mapsto> e)\<rparr>"
  let ?I = "\<lambda>xs t. node_ok ids t \<and> leader_ok t \<and> rlog t = rlog s @ [e] \<and> (\<forall>x \<in> set xs. x < length ids)"
  have s: "node_ok ids ?s" "leader_ok ?s"
    using leader_appended [OF ok] assms(3) by simp_all
  have "1 \<le> length (rlog s)"
    using ok(1) by (cases "rlog s") (simp_all add: node_ok_def)
  then have loop: "wp (for_each [0..<length ids] (broadcast_append_node (int (length (rlog s)) - 1) pt e))
      (\<lambda>_. ?I []) (\<lambda>_ _. False) ?s" for pt
  proof (intro wp_for_each [where I = ?I])
    fix x ys t
    assume "?I (x # ys) t" and "1 \<le> length (rlog s)"
    then show "wp (broadcast_append_node (int (length (rlog s)) - 1) pt e x) (\<lambda>_. ?I ys) (\<lambda>_ _. False) t"
      using assms(3) by (intro wp_mono [OF broadcast_append_node_ok]) auto
  qed (use s in auto)
  have finish: "wp (for_each [0..<length ids] (broadcast_append_node (int (length (rlog s)) - 1) pt e))
      (\<lambda>_. wp update_own_indices (\<lambda>_ t. node_ok ids t \<and> leader_ok t \<and> rlog t = rlog s @ [e]) (\<lambda>_ _. False))
      (\<lambda>_ _. False) ?s" for pt
    using loop by (rule wp_mono) (auto intro!: wp_mono [OF update_own_indices_ok])
  show ?thesis
    unfolding broadcast_append_entries_def wp_bnd
    by (rule wp_append_at_end [OF ok(1) assms(3)]) (use finish in \<open>simp add: wp node_okD(4) [OF ok(1)]\<close>)
qed

text \<open>From here on: the leader's methods neither raise nor break the invariant.\<close>

abbreviation leading :: "string list \<Rightarrow> raft_node \<Rightarrow> bool" where
  "leading ids s \<equiv> node_ok ids s \<and> leader_ok s"

abbreviation safe_leading :: "string list \<Rightarrow> 'a raft \<Rightarrow> raft_node \<Rightarrow> bool" where
  "safe_leading ids m s \<equiv> wp m (\<lambda>_ t. leading ids t) (\<lambda>_ _. False) s"

lemma leader_send_next_ok:
  assumes "leading ids s" and "json_plain r" and "1 \<le> k" and "k < int (length (rlog s))"
  shows "safe_leading ids (leader_send_next k r) s"
proof -
  have "wf_json ids (jsonify (append_message (k - 1) (e_term (rlog s ! nat (k - 1))) (rlog s ! nat k) r s))"
    using assms by (intro wf_sent_messages) (auto intro: wf_entry_nth)
  with assms show ?thesis
    by (simp add: leader_send_next_def wp node_ok_sent)
qed

lemma broadcast_commit_entries_ok:
  assumes ok: "leading ids s" and "commit_index s < k" and "k < int (length (rlog s))"
  shows "safe_leading ids (broadcast_commit_entries k) s"
proof -
  let ?s = "s\<lparr>last_applied_index := k, last_applied_term := e_term (rlog s ! nat k), commit_index := k\<rparr>"
  let ?I = "\<lambda>(xs :: (int \<times> nat) list) t. leading ids t \<and> (\<forall>x \<in> set xs. snd x < length ids)"
  have k: "0 \<le> k" using ok assms(2) by (simp add: node_ok_def)
  have s: "leading ids ?s"
    using assms k by (fastforce simp: node_ok_def leader_ok_def)
  have "wp (for_each (zip (match_index ?s) [0..<length (match_index ?s)]) broadcast_commit_node)
      (\<lambda>_. ?I []) (\<lambda>_ _. False) ?s"
  proof (rule wp_for_each [where I = ?I])
    fix x ys t
    assume "?I (x # ys) t"
    then show "wp (broadcast_commit_node x) (\<lambda>_. ?I ys) (\<lambda>_ _. False) t"
      by (cases x) (auto simp: broadcast_commit_node_def wp node_okD intro!: node_ok_sent wf_sent_messages)
  qed (use s in \<open>auto dest!: set_zip_rightD simp: node_okD(5) [OF conjunct1 [OF ok]]\<close>)
  then show ?thesis
    using assms k by (auto simp: broadcast_commit_entries_def wp elim!: wp_mono)
qed

lemma foldl_keep_member:
  "foldl (\<lambda>mx i. if P i then i else mx) a xs \<in> insert a (set xs)"
  by (induction xs rule: rev_induct) auto

text \<open>The commit rule selects one of the match indices, or 0.\<close>

lemma max_committable_member: "max_committable_index d n xs \<in> insert 0 (set xs)"
  using foldl_keep_member [of "\<lambda>i. replicated_on (rev (sort xs)) i \<ge> d n 2 + 1" 0 "rev (sort xs)"]
  by (simp add: max_committable_index_def Let_def)

text \<open>
  With integer division as documented it selects the least of them: the smallest match
  index is the last one of the descending list, and every list entry reaches it.
\<close>

definition floor_division :: "(int \<Rightarrow> int \<Rightarrow> int) \<Rightarrow> bool" where
  "floor_division od \<longleftrightarrow> (\<forall>a b. od a b = a div b)"

lemma replicated_on_least:
  assumes "\<forall>i \<in> set xs. k \<le> i"
  shows "replicated_on xs k = int (length xs)"
  using assms by (induction xs) (auto simp: replicated_on_def)

lemma max_committable_Min:
  assumes "floor_division od" and "xs \<noteq> []"
  shows "max_committable_index od (int (length xs)) xs = Min (set xs)"
proof -
  have sx: "sort xs = hd (sort xs) # tl (sort xs)"
    using assms(2) by (metis length_0_conv length_sort list.collapse)
  have least: "\<forall>i \<in> set (sort xs). hd (sort xs) \<le> i"
    by (subst sx) (metis sx set_ConsD sorted_simps(2) sorted_sort order_refl list.set_intros(1) list.set_intros(2))
  moreover have "hd (sort xs) \<in> set (sort xs)"
    by (subst (2) sx) simp
  ultimately have "Min (set (sort xs)) = hd (sort xs)"
    by (intro Min_eqI) auto
  then have min: "Min (set xs) = hd (sort xs)"
    by simp
  have "rev (sort xs) = rev (tl (sort xs)) @ [hd (sort xs)]"
    by (subst sx) simp
  moreover have "replicated_on (rev (sort xs)) (hd (sort xs)) = int (length xs)"
    using least by (subst replicated_on_least) auto
  moreover have "int (length xs) \<ge> od (int (length xs)) 2 + 1"
    using assms by (cases xs) (auto simp: floor_division_def)
  ultimately show ?thesis
    by (simp add: max_committable_index_def Let_def min)
qed

lemma leader_commit_rule_ok:
  assumes "leading ids s"
  shows "safe_leading ids leader_commit_rule s"
proof -
  let ?mx = "max_committable_index (lib_old_div s) (current_num_nodes s) (match_index s)"
  have "?mx < int (length (rlog s))" if "commit_index s < ?mx"
    using max_committable_member [of "lib_old_div s" "current_num_nodes s" "match_index s"] assms that
    by (auto simp: leader_ok_def node_ok_def)
  with assms show ?thesis
    by (simp add: leader_commit_rule_def wp broadcast_commit_entries_ok)
qed

lemma leader_acknowledge_pending_ok:
  assumes ok: "leading ids s" and "wf_message ids m" and "py_eq_int (msg_type m) MessageType_Acknowledge"
    and i: "0 \<le> i" "i < int (length ids)" and k: "1 \<le> k" "k < int (length (rlog s))"
  shows "safe_leading ids (leader_acknowledge_pending m i k) s"
proof -
  obtain g where g: "results_success (msg_results m) = Inr g" and plain: "json_plain (msg_sender m)"
    using assms(2,3)
    by (cases m; cases "msg_results m") (auto simp: message_type_defs elim!: is_member_cases)
  have ni: "nat i < length ids" using i by simp
  let ?k = "ack_next_index (py_truthy g) k"
  let ?t = "\<lambda>s. s\<lparr>next_index := (next_index s)[nat i := if ?k > log_max_index s then None else Some ?k]\<rparr>"
  have nxt: "leading ids (?t s')" if "leading ids s'" "rlog s' = rlog s" for s'
    using that leader_next_index [of ids s' "nat i" "if ?k > log_max_index s' then None else Some ?k"] ni k
    by (auto simp: ack_next_index_def log_max_index_def split: if_splits)
  have rest: "wp (seq (if ?k > log_max_index s' then ret () else leader_send_next ?k (msg_sender m))
        leader_commit_rule) (\<lambda>_ t. leading ids t) (\<lambda>_ _. False) (?t s')"
    if "leading ids s'" "rlog s' = rlog s" for s'
  proof (cases "?k > log_max_index s'")
    case True
    with nxt [OF that] show ?thesis
      by (simp add: wp leader_commit_rule_ok)
  next
    case False
    have "safe_leading ids (leader_send_next ?k (msg_sender m)) (?t s')"
      using nxt [OF that] plain False k that(2)
      by (intro leader_send_next_ok) (auto simp: ack_next_index_def log_max_index_def)
    with False show ?thesis
      by (simp add: wp) (erule wp_mono, auto intro: leader_commit_rule_ok)
  qed
  show ?thesis
  proof (cases "py_truthy g")
    case True
    let ?s = "s\<lparr>match_index := (match_index s)[nat i := k]\<rparr>"
    have "leading ids ?s"
      using leader_match_index [of ids s k "nat i"] ok k by auto
    from rest [OF this] True ok i show ?thesis
      by (simp add: leader_acknowledge_pending_def wp g node_okD [OF conjunct1 [OF ok]] log_max_index_def
            cong: if_cong)
  next
    case False
    from rest [OF ok refl] False ok i show ?thesis
      by (simp add: leader_acknowledge_pending_def wp g node_okD [OF conjunct1 [OF ok]] log_max_index_def
            cong: if_cong)
  qed
qed

lemma heard_from_ok [simp]:
  "node_ok ids (s\<lparr>heard_from := (heard_from s)[i := x]\<rparr>) = node_ok ids s"
  by (simp add: node_ok_def)

lemma leader_acknowledge_ok:
  assumes ok: "leading ids s" and m: "wf_message ids m" "py_eq_int (msg_type m) MessageType_Acknowledge"
  shows "safe_leading ids (leader_acknowledge m) s"
proof -
  obtain a where a: "msg_sender m = PyStr a" "a \<in> set ids"
    using m(1) by (cases m) (auto elim!: is_member_cases)
  from py_index_mem [OF a(2)] obtain i where
    i: "py_index ids a = Inr i" "0 \<le> i" "i < int (length ids)" by blast
  let ?s = "s\<lparr>ticks := Suc (ticks s), heard_from := (heard_from s)[nat i := clock s (ticks s)]\<rparr>"
  have s: "leading ids ?s" using ok by (simp add: node_ok_def leader_ok_def)
  have "safe_leading ids (leader_acknowledge_pending m i k) ?s" if "next_index s ! nat i = Some k" for k
  proof -
    have "Some k \<in> set (next_index s)"
      using that i ok by (metis node_okD(4) nat_less_iff nth_mem)
    with ok s m i show ?thesis
      by (intro leader_acknowledge_pending_ok) (auto simp: leader_ok_def)
  qed
  with i ok s a show ?thesis
    by (auto simp: leader_acknowledge_def wp node_okD split: option.split)
qed

lemma leader_start_ok:
  assumes "node_ok ids s"
  shows "safe_leading ids leader_start s"
proof -
  let ?n = "nat (current_num_nodes s)"
  let ?e = "\<lparr>e_term = current_term s, e_value = PyStr ''Leader Entry'', e_id = PyInt (- 1)\<rparr>"
  let ?s1 = "sent (heartbeat_message s) s"
  let ?s = "?s1\<lparr>leader_id := PyStr (my_id s),
      match_index := replicate ?n (commit_index s), next_index := replicate ?n None,
      heard_from := map (\<lambda>k. clock s (Suc (ticks ?s1) + k)) [0..<?n], ticks := Suc (ticks ?s1) + ?n\<rparr>"
  have "node_ok ids ?s1"
    using assms by (intro node_ok_sent wf_sent_messages)
  then have "leading ids ?s"
    by (simp add: node_ok_def leader_ok_def)
  then have "wp (broadcast_append_entries ?e) (\<lambda>_ t. leading ids t \<and> rlog t = rlog ?s @ [?e]) (\<lambda>_ _. False) ?s"
    using broadcast_append_entries_ok [of ids ?s ?e] by (simp add: wf_entry_def)
  then show ?thesis
    by (simp add: leader_start_def leader_take_over_def wp) (erule wp_mono, auto)
qed

lemma leader_resend_node_ok:
  assumes ok: "leading ids s" and node: "node < length ids"
  shows "safe_leading ids (leader_resend_node node) s"
proof -
  note okD = node_okD [OF conjunct1 [OF ok]]
  have upd: "safe_leading ids (bnd time_time (\<lambda>now'. bnd (gets heard_from) (\<lambda>hf'.
      bnd (lift_result (py_setitem hf' (int node) now')) (\<lambda>hf''.
      modify (\<lambda>s. s\<lparr>heard_from := hf''\<rparr>))))) t" if "leading ids t" for t
    using that node by (auto simp: wp node_ok_def leader_ok_def)
  have "safe_leading ids (leader_send_next k (PyStr (ids ! node))) (s\<lparr>ticks := Suc (ticks s)\<rparr>)"
    if "next_index s ! node = Some k" for k
  proof -
    have "Some k \<in> set (next_index s)"
      using that node okD(4) by (metis nth_mem)
    with ok show ?thesis
      by (intro leader_send_next_ok) (auto simp: leader_ok_def)
  qed
  then have "wp (leader_send_next k (PyStr (ids ! node)))
      (\<lambda>_. safe_leading ids (bnd time_time (\<lambda>now'. bnd (gets heard_from) (\<lambda>hf'.
      bnd (lift_result (py_setitem hf' (int node) now')) (\<lambda>hf''.
      modify (\<lambda>s. s\<lparr>heard_from := hf''\<rparr>)))))) (\<lambda>_ _. False) (s\<lparr>ticks := Suc (ticks s)\<rparr>)"
    if "next_index s ! node = Some k" for k
    by (rule wp_mono [OF _ upd]) (use that in auto)
  with ok node show ?thesis
    by (simp add: leader_resend_node_def wp okD split: option.split)
qed

lemma resend_loop_ok:
  assumes "leading ids s"
  shows "safe_leading ids (for_each [0..<length ids] leader_resend_node) s"
proof -
  let ?I = "\<lambda>xs t. leading ids t \<and> (\<forall>x \<in> set xs. x < length ids)"
  have "wp (for_each [0..<length ids] leader_resend_node) (\<lambda>_. ?I []) (\<lambda>_ _. False) s"
  proof (rule wp_for_each [where I = ?I])
    fix x ys t
    assume "?I (x # ys) t"
    then show "wp (leader_resend_node x) (\<lambda>_. ?I ys) (\<lambda>_ _. False) t"
      by (intro wp_mono [OF leader_resend_node_ok]) auto
  qed (use assms in auto)
  then show ?thesis by (rule wp_mono) auto
qed

lemma heartbeat_if_due_ok:
  "leading ids s \<Longrightarrow> safe_leading ids (leader_send_heartbeat_if_due mrh) s"
  by (auto simp: leader_send_heartbeat_if_due_def wp intro!: node_ok_sent wf_sent_messages)

lemma vote_reply_ok:
  assumes "node_ok ids s" and "wf_message ids m"
  shows "node_ok ids ((sent (vote_message (msg_sender m) g s) s)\<lparr>voted_for := x, current_role := r\<rparr>)"
    and "node_ok ids ((sent (vote_message (msg_sender m) g s) s)\<lparr>voted_for := x\<rparr>)"
proof -
  have "is_member ids (msg_sender m)"
    using assms(2) by (cases m) auto
  with assms(1) show "node_ok ids ((sent (vote_message (msg_sender m) g s) s)\<lparr>voted_for := x, current_role := r\<rparr>)"
    and "node_ok ids ((sent (vote_message (msg_sender m) g s) s)\<lparr>voted_for := x\<rparr>)"
    using node_ok_sent [OF assms(1) wf_sent_messages(1) [OF assms(1)]] by (simp_all add: node_ok_def)
qed

lemma wf_message_term: "wf_message ids m \<Longrightarrow> \<exists>t. py_as_int (msg_term m) = Inr t"
  by (cases m) (auto dest: is_int_as_int)

lemma leader_handle_ok:
  assumes ok: "leading ids s" and m: "wf_message ids m"
  shows "wp (leader_handle m) (\<lambda>fl t. node_ok ids t \<and> (fl \<noteq> Return \<longrightarrow> leader_ok t)) (\<lambda>_ _. False) s"
proof -
  obtain t where t: "py_as_int (msg_term m) = Inr t"
    using wf_message_term [OF m] by blast
  have votes: "wp (leader_request_votes m) (\<lambda>fl t. node_ok ids t \<and> (fl \<noteq> Return \<longrightarrow> leader_ok t)) (\<lambda>_ _. False) s"
    using ok t vote_reply_ok [OF _ m, of "s\<lparr>voted_for := PyNone, current_term := t\<rparr>"]
    by (simp add: leader_request_votes_def wp)
  have client: "wp (bnd (lift_result (rbind (append_entries_attr ''entries'' m_entries m) entry_of_py)) (\<lambda>e.
          seq (broadcast_append_entries e) (ret (Continue ()))))
      (\<lambda>fl t. node_ok ids t \<and> (fl \<noteq> Return \<longrightarrow> leader_ok t)) (\<lambda>_ _. False) s"
    if ty: "py_eq_int (msg_type m) MessageType_ClientRequest"
  proof -
    obtain e where "rbind (append_entries_attr ''entries'' m_entries m) entry_of_py = Inr e" "wf_entry e"
      using m ty by (cases m) (auto simp: message_type_defs dest: wf_payloadE)
    with ok show ?thesis
      by (simp add: wp) (rule wp_mono [OF broadcast_append_entries_ok], auto)
  qed
  show ?thesis
    unfolding leader_handle_def
    using ok m votes client leader_acknowledge_ok [OF ok m]
    by (auto simp: wp elim!: wp_mono)
qed

text \<open>Taking a message from a well-formed inbox: it parses, and the rest is well formed.\<close>

lemma get_message_ok:
  assumes "node_ok ids s"
    and "\<And>t. node_ok ids t \<Longrightarrow> leader_ok t = leader_ok s \<Longrightarrow> Q None t"
    and "\<And>m t. wf_message ids m \<Longrightarrow> json_plain (jsonify m) \<Longrightarrow> node_ok ids t \<Longrightarrow>
           leader_ok t = leader_ok s \<Longrightarrow> Q (Some m) t"
  shows "wp get_message Q (\<lambda>_ _. False) s"
proof (cases "l_messages (node_listener s)")
  case Nil
  with assms show ?thesis by (simp add: wp)
next
  case (Cons v q)
  with assms(1) have "wf_json ids v" and "list_all (wf_json ids) q"
    by (auto simp: node_ok_def)
  moreover from this obtain m where "parse_json_message v = Inr (Some m)" "wf_message ids m"
    "json_plain (jsonify m)"
    using wf_json_parse by blast
  ultimately show ?thesis
    using assms(1) Cons by (auto simp: wp Let_def node_ok_def intro!: assms(3))
qed

lemma client_request_leading_ok:
  assumes "leading ids s"
  shows "safe_leading ids (bnd get_client_request (\<lambda>cr. case cr of None \<Rightarrow> ret () | Some e \<Rightarrow> broadcast_append_entries e)) s"
proof (cases "client_queue s")
  case Nil
  with assms show ?thesis by (simp add: wp)
next
  case (Cons e q)
  with assms have "leading ids (s\<lparr>client_queue := q\<rparr>)" and "wf_entry e"
    by (auto simp: node_ok_def)
  with Cons show ?thesis
    by (simp add: wp) (rule wp_mono [OF broadcast_append_entries_ok], auto)
qed

lemma leader_round_ok:
  assumes ok: "leading ids s"
  shows "wp (leader_round mrh) (\<lambda>fl t. node_ok ids t \<and> (fl \<noteq> Return \<longrightarrow> leader_ok t)) (\<lambda>_ _. False) s"
proof -
  let ?Q = "\<lambda>(fl :: rat flow) t. node_ok ids t \<and> (fl \<noteq> Return \<longrightarrow> leader_ok t)"
  let ?E = "\<lambda>(_ :: py_error) (_ :: raft_node). False"
  let ?K = "\<lambda>x (fl :: unit flow). case fl of Return \<Rightarrow> ret Return | Continue _ \<Rightarrow> bnd get_client_request (\<lambda>cr.
      seq (case cr of None \<Rightarrow> ret () | Some e \<Rightarrow> broadcast_append_entries e) (ret (Continue x)))"
  have handled: "wp (?K x fl) ?Q ?E t" if "node_ok ids t" "fl \<noteq> Return \<longrightarrow> leader_ok t" for t x fl
    using that client_request_leading_ok [of ids t] by (cases fl) (simp_all add: wp)
  have none: "wp (bnd (case None of None \<Rightarrow> ret (Continue ()) | Some m \<Rightarrow> leader_handle m) (?K x)) ?Q ?E t"
    if "leading ids t" for t x
    unfolding option.case wp_bnd [of "ret _"] wp_ret by (rule handled) (use that in simp_all)
  have some: "wp (bnd (case Some m of None \<Rightarrow> ret (Continue ()) | Some m \<Rightarrow> leader_handle m) (?K x)) ?Q ?E t"
    if "leading ids t" "wf_message ids m" for t x m
    unfolding option.case wp_bnd [of "leader_handle _"]
    by (rule wp_mono [OF leader_handle_ok [OF that]]) (auto intro: handled)
  have msg: "wp (bnd get_message (\<lambda>im.
      bnd (case im of None \<Rightarrow> ret (Continue ()) | Some m \<Rightarrow> leader_handle m) (?K x))) ?Q ?E t"
    if "leading ids t" for t x
    unfolding wp_bnd [of get_message]
    by (rule get_message_ok [of ids t]) (use that none some in simp_all)
  have "wp (for_each [0..<length ids] leader_resend_node) (\<lambda>_. wp (bnd get_message (\<lambda>im.
      bnd (case im of None \<Rightarrow> ret (Continue ()) | Some m \<Rightarrow> leader_handle m) (?K mrh))) ?Q ?E) ?E s"
    by (rule wp_mono [OF resend_loop_ok [OF ok] msg]) auto
  then show ?thesis
    unfolding leader_round_def wp_bnd [of "gets _"] wp_gets wp_seq node_okD(4) [OF conjunct1 [OF ok]] .
qed

lemma leader_iteration_ok:
  assumes ok: "leading ids s"
  shows "wp (leader_iteration mrh) (\<lambda>fl t. node_ok ids t \<and> (fl \<noteq> Return \<longrightarrow> leader_ok t)) (\<lambda>_ _. False) s"
  unfolding leader_iteration_def wp_bnd
  by (rule wp_mono [OF heartbeat_if_due_ok [OF ok]]) (auto intro: leader_round_ok)

section \<open>The follower and the candidate\<close>

lemma append_entry_at_ok:
  assumes ok: "node_ok ids s" and "wf_entry e" and "0 \<le> p" and "p < int (length (rlog s))"
  shows "wp (append_entry e c (Some p))
     (\<lambda>_ t. node_ok ids t \<and> rlog t = take (nat (p + 1)) (rlog s) @ [e]) (\<lambda>_ _. False) s"
proof -
  have "take (nat (p + 1)) (rlog s) \<noteq> []"
    using assms by (auto simp: node_ok_def)
  moreover have "list_all wf_entry (take (nat (p + 1)) (rlog s))"
    using ok by (auto simp: node_ok_def list_all_iff dest: in_set_takeD)
  ultimately show ?thesis
    using assms by (auto simp: append_entry_def wp node_ok_def wf_entry_def)
qed

lemma vote_test_ok:
  assumes "node_ok ids s" and "wf_message ids m" and "py_eq_int (msg_type m) MessageType_RequestVotes"
  shows "wp (vote_test m) (\<lambda>_ t. t = s) (\<lambda>_ _. False) s"
proof -
  obtain r i t where "m = RequestVotesMessage r" "m_last_log_index r = PyInt i" "m_last_log_term r = PyInt t"
    using assms(2,3) by (cases m) (auto elim!: is_int_cases)
  then show ?thesis
    by (simp add: vote_test_def wp)
qed

lemma follower_request_votes_ok:
  assumes ok: "node_ok ids s" and m: "wf_message ids m"
    and ty: "py_eq_int (msg_type m) MessageType_RequestVotes"
  shows "wp (follower_request_votes m) (\<lambda>_ t. node_ok ids t) (\<lambda>_ _. False) s"
proof -
  obtain t where t: "py_as_int (msg_term m) = Inr t"
    using wf_message_term [OF m] by blast
  have rest: "wp (bnd (vote_test m) (\<lambda>g. seq (send_vote (msg_sender m) g) time_time))
      (\<lambda>_ t. node_ok ids t) (\<lambda>_ _. False) u" if "node_ok ids u" for u
    unfolding wp_bnd
    by (rule wp_mono [OF vote_test_ok [OF that m ty]])
       (use vote_reply_ok(2) [OF that m] in \<open>auto simp: wp\<close>)
  show ?thesis
    unfolding follower_request_votes_def wp_bnd [of "lift_result _"] wp_bnd [of "gets _"] wp_seq wp_when_py
    using rest ok t by (simp add: wp_lift_result wp_gets wp_increment_term)
qed

lemma follower_heartbeat_ok:
  assumes ok: "node_ok ids s" and m: "wf_message ids m" "json_plain (jsonify m)"
    and ty: "py_eq_int (msg_type m) MessageType_Heartbeat"
  shows "wp (follower_heartbeat m) (\<lambda>_ t. node_ok ids t) (\<lambda>_ _. False) s"
proof -
  obtain t where t: "py_as_int (msg_term m) = Inr t"
    using wf_message_term [OF m(1)] by blast
  obtain a where a: "m = AppendEntriesMessage a" and l: "json_plain (m_leader_id a)"
    using m ty by (cases m) (auto simp: message_type_defs json_plain_jsonify simp del: jsonify.simps)
  have "node_ok ids (sent (forward_message (m_leader_id a) e u) u)"
    if "node_ok ids u" "wf_entry e" for u e
    using that l by (intro node_ok_sent wf_sent_messages)
  then show ?thesis
    using ok t a l by (auto simp: follower_heartbeat_def wp node_ok_def)
qed

lemma follower_append_entries_ok:
  assumes ok: "node_ok ids s" and m: "wf_message ids m" "json_plain (jsonify m)"
    and ty: "py_eq_int (msg_type m) MessageType_AppendEntries"
  shows "wp (follower_append_entries m) (\<lambda>_ t. node_ok ids t) (\<lambda>_ _. False) s"
proof -
  obtain t where t: "py_as_int (msg_term m) = Inr t"
    using wf_message_term [OF m(1)] by blast
  obtain a where a: "m = AppendEntriesMessage a" and l: "json_plain (m_leader_id a)"
    using m ty by (cases m) (auto simp: message_type_defs json_plain_jsonify simp del: jsonify.simps)
  obtain p pt c e where p: "m_prev_log_index a = PyInt p" "0 \<le> p" and pt: "m_prev_log_term a = PyInt pt"
    and c: "m_leader_commit a = PyInt c" and e: "entry_of_py (m_entries a) = Inr e" "wf_entry e"
    using m(1) ty a
    by (cases "m_prev_log_index a")
       (auto simp: message_type_defs elim!: is_int_cases dest!: wf_payloadE)
  have ack: "node_ok ids (sent (ack_message (m_leader_id a) g u) u)" if "node_ok ids u" for g u
    using that l by (intro node_ok_sent wf_sent_messages)
  have app: "wp (append_entry e b (Some p)) (\<lambda>_ u. node_ok ids (sent (ack_message (m_leader_id a) True u) u))
      (\<lambda>_ _. False) s" if "p < int (length (rlog s))" for b
    by (rule wp_mono [OF append_entry_at_ok [OF ok e(2) p(2) that]]) (auto intro: ack)
  show ?thesis
    using ok t p pt c e app ack by (simp add: follower_append_entries_def verify_entry_def wp a)
qed

lemma follower_committal_ok:
  assumes ok: "node_ok ids s" and m: "wf_message ids m"
    and ty: "py_eq_int (msg_type m) MessageType_Committal"
  shows "wp (follower_committal m) (\<lambda>_ t. node_ok ids t) (\<lambda>_ _. False) s"
proof -
  obtain a p pt where "m = AppendEntriesMessage a" "m_prev_log_index a = PyInt p" "0 \<le> p"
    "m_prev_log_term a = PyInt pt"
  proof (cases m)
    case (AppendEntriesMessage a)
    with m ty that show ?thesis
      by (cases "m_prev_log_index a") (auto simp: message_type_defs elim!: is_int_cases)
  qed (use m ty in \<open>auto simp: message_type_defs\<close>)
  with ok show ?thesis
    by (simp add: follower_committal_def wp node_ok_def)
qed

lemma follower_handle_ok:
  assumes ok: "node_ok ids s" and m: "wf_message ids m" "json_plain (jsonify m)"
  shows "wp (follower_handle mrh m) (\<lambda>_ t. node_ok ids t) (\<lambda>_ _. False) s"
  unfolding follower_handle_def
  using ok follower_request_votes_ok [OF ok m(1)] follower_heartbeat_ok [OF ok m]
    follower_append_entries_ok [OF ok m] follower_committal_ok [OF ok m(1)]
  by (simp add: wp)

lemma follower_iteration_ok:
  assumes ok: "node_ok ids s"
  shows "wp (follower_iteration mrh) (\<lambda>_ t. node_ok ids t) (\<lambda>_ _. False) s"
  unfolding follower_iteration_def wp_bnd
proof (rule get_message_ok [OF ok], goal_cases)
  case (1 t)
  then show ?case by (simp add: wp)
next
  case (2 m t)
  then show ?case
    unfolding option.case by (intro wp_mono [OF follower_handle_ok]) (auto simp: wp)
qed

lemma candidate_start_ok:
  assumes ok: "node_ok ids s"
  shows "wp candidate_start (\<lambda>_ t. node_ok ids t) (\<lambda>_ _. False) s"
proof -
  let ?s = "s\<lparr>voted_for := PyNone, current_term := current_term s + 1\<rparr>"
  let ?t = "sent (request_vote_message PyNone ?s) ?s"
  have t: "node_ok ids ?t"
    using ok by (intro node_ok_sent wf_sent_messages) simp_all
  have "node_ok ids (sent (vote_message (PyStr (my_id s)) True ?t) ?t)"
    by (intro node_ok_sent wf_sent_messages t) (simp add: node_okD(2) [OF ok])
  then show ?thesis
    by (simp add: candidate_start_def wp)
qed

lemma candidate_handle_ok:
  assumes ok: "node_ok ids s" and m: "wf_message ids m" "json_plain (jsonify m)"
  shows "wp (candidate_handle el m) (\<lambda>_ t. node_ok ids t) (\<lambda>_ _. False) s"
proof -
  obtain t where t: "py_as_int (msg_term m) = Inr t"
    using wf_message_term [OF m(1)] by blast
  have vote: "wp (candidate_vote el m) (\<lambda>_ t. node_ok ids t) (\<lambda>_ _. False) s"
    if ty: "py_eq_int (msg_type m) MessageType_RequestVotes"
  proof -
    obtain g where "results_vote_granted (msg_results m) = Inr g"
      using m(1) ty by (cases m; cases "msg_results m") auto
    with ok show ?thesis
      by (simp add: candidate_vote_def wp)
  qed
  have request: "wp (candidate_request_votes el m) (\<lambda>_ t. node_ok ids t) (\<lambda>_ _. False) s"
    using ok t vote_reply_ok [OF _ m(1), of "s\<lparr>voted_for := PyNone, current_term := t\<rparr>"]
    by (simp add: candidate_request_votes_def wp)
  have heartbeat: "wp (candidate_heartbeat el m) (\<lambda>_ t. node_ok ids t) (\<lambda>_ _. False) s"
    if ty: "py_eq_int (msg_type m) MessageType_Heartbeat"
  proof -
    obtain a where "m = AppendEntriesMessage a" and "json_plain (m_leader_id a)"
      using m ty by (cases m) (auto simp: message_type_defs json_plain_jsonify simp del: jsonify.simps)
    with ok t show ?thesis
      by (simp add: candidate_heartbeat_def wp node_ok_def)
  qed
  show ?thesis
    unfolding candidate_handle_def using ok vote request heartbeat by (simp add: wp)
qed

lemma candidate_iteration_ok:
  assumes ok: "node_ok ids s"
  shows "wp (candidate_iteration el) (\<lambda>_ t. node_ok ids t) (\<lambda>_ _. False) s"
  unfolding candidate_iteration_def wp_bnd [of get_message]
proof (rule get_message_ok [OF ok], goal_cases)
  case (1 t)
  then show ?case by (simp add: wp)
next
  case (2 m t)
  then show ?case
    unfolding option.case wp_bnd [of "candidate_handle _ _"]
    by (intro wp_mono [OF candidate_handle_ok]) (auto simp: wp)
qed

section \<open>The thread\<close>

definition thread_ok :: "string list \<Rightarrow> control \<times> raft_node \<Rightarrow> bool" where
  "thread_ok ids cs \<longleftrightarrow>
     node_ok ids (snd cs)
     \<and> (case fst cs of InLeader _ \<Rightarrow> leader_ok (snd cs) | Crashed _ \<Rightarrow> False | _ \<Rightarrow> True)"

lemma run_step_ok:
  assumes "thread_ok ids (c, s)"
  shows "wp (run_step c) (\<lambda>c' t. thread_ok ids (c', t)) (\<lambda>_ _. False) s"
proof -
  have ok: "node_ok ids s" using assms by (simp add: thread_ok_def)
  have dispatch: "wp run_dispatch (\<lambda>c' t. thread_ok ids (c', t)) (\<lambda>_ _. False) s"
    using ok leader_start_ok [OF ok] candidate_start_ok [OF ok]
    by (auto simp: run_dispatch_def wp thread_ok_def elim!: wp_mono)
  show ?thesis
  proof (cases c)
    case (InFollower mrh)
    then show ?thesis
      using ok by (auto simp: in_role_def wp thread_ok_def after_iteration_def
        intro!: wp_mono [OF follower_iteration_ok] split: flow.split)
  next
    case (InCandidate el)
    then show ?thesis
      using ok by (auto simp: in_role_def wp thread_ok_def after_iteration_def
        intro!: wp_mono [OF candidate_iteration_ok] split: flow.split)
  next
    case (InLeader mrh)
    with assms have "leading ids s" by (simp add: thread_ok_def)
    with InLeader ok show ?thesis
      by (auto simp: in_role_def wp thread_ok_def after_iteration_def
        intro!: wp_mono [OF leader_iteration_ok] split: flow.split)
  qed (use assms dispatch in \<open>simp_all add: wp thread_ok_def\<close>)
qed

text \<open>A well-formed thread makes a step, stays well formed and so has not crashed.\<close>

lemma thread_step_ok:
  assumes "thread_ok ids cs"
  shows "thread_ok ids (thread_step cs)"
  using run_step_ok [of ids "fst cs" "snd cs"] assms
  by (auto simp: thread_step_def wp_def split: prod.splits sum.splits)

section \<open>Properties\<close>

lemma broadcast_commit_node_keeps:
  "wp (broadcast_commit_node x) (\<lambda>_ t. commit_index t = commit_index s \<and> rlog t = rlog s)
     (\<lambda>_ t. commit_index t = commit_index s \<and> rlog t = rlog s) s"
  by (cases x) (auto simp: broadcast_commit_node_def wp)

lemma committable_least:
  assumes "floor_division (lib_old_div s)" and "current_num_nodes s = int (length (match_index s))"
    and "match_index s \<noteq> []"
  shows "max_committable_index (lib_old_div s) (current_num_nodes s) (match_index s) = Min (set (match_index s))"
  using max_committable_Min [OF assms(1,3)] assms(2) by simp

text \<open>
  C15. The commit rule of a leader, run after every acknowledgement: the new commit index is
  the smallest match index of the members, not the one that a majority of them has reached,
  or the old commit index if that is higher.
\<close>

theorem commit_rule_takes_the_minimum:
  assumes ok: "leading ids s" and od: "floor_division (lib_old_div s)"
  shows "\<exists>t. leader_commit_rule s = (Inr (), t) \<and> rlog t = rlog s
     \<and> commit_index t = max (commit_index s) (Min (set (match_index s)))"
proof -
  let ?mx = "Min (set (match_index s))"
  let ?K = "\<lambda>t. commit_index t = ?mx \<and> rlog t = rlog s"
  have ids: "ids \<noteq> []" and len: "length (match_index s) = length ids"
    and n: "current_num_nodes s = int (length ids)"
    using ok by (auto simp: node_ok_def)
  have mx: "max_committable_index (lib_old_div s) (current_num_nodes s) (match_index s) = ?mx"
    using od ids len n by (intro committable_least) auto
  have loop: "wp (for_each xs broadcast_commit_node) (\<lambda>_. ?K) (\<lambda>_. ?K) t" if "?K t" for xs t
  proof (rule wp_for_each [where I = "\<lambda>_. ?K"])
    show "wp (broadcast_commit_node x) (\<lambda>_. ?K) (\<lambda>_. ?K) u" if "?K u" for x u
      by (rule wp_mono [OF broadcast_commit_node_keeps]) (use that in auto)
  qed (rule that)
  have "wp leader_commit_rule (\<lambda>_ t. rlog t = rlog s \<and> commit_index t = max (commit_index s) ?mx)
      (\<lambda>_ t. True) s"
    by (auto simp: leader_commit_rule_def broadcast_commit_entries_def wp mx intro!: wp_mono [OF loop])
  then obtain r t where t: "leader_commit_rule s = (r, t)"
    "\<And>a. r = Inr a \<Longrightarrow> rlog t = rlog s \<and> commit_index t = max (commit_index s) ?mx"
    by (cases "leader_commit_rule s") (auto simp: wp_def split: sum.splits)
  with leader_commit_rule_ok [OF ok] obtain a where "r = Inr a"
    by (cases r) (auto simp: wp_def)
  with t show ?thesis
    by auto
qed

definition trio_leader :: raft_node where
  "trio_leader = (fresh_node ''node1'' ''h:1'')
     \<lparr>current_role := Leader, rlog := [init_entry, init_entry], match_index := [1, 1, 0],
      next_index := [None, None, Some 1]\<rparr>"

lemma leading_trio_leader: "leading [''h:1'', ''h:2'', ''h:3''] trio_leader"
  by (simp add: trio_leader_def fresh_node_def node_ok_def leader_ok_def wf_entry_def init_entry_def
      Listener_init_def Talker_init_def)

theorem commit_rule_takes_the_minimum_witness:
  "\<exists>t. leader_commit_rule trio_leader = (Inr (), t) \<and> rlog t = rlog trio_leader
     \<and> commit_index t = max (commit_index trio_leader) (Min (set (match_index trio_leader)))"
proof (rule commit_rule_takes_the_minimum)
  show "leading [''h:1'', ''h:2'', ''h:3''] trio_leader"
    by (rule leading_trio_leader)
  show "floor_division (lib_old_div trio_leader)"
    by (simp add: trio_leader_def fresh_node_def floor_division_def)
qed

end
