(* ===== verification/Raft_System.thy ===== *)
theory Raft_System
  imports Raft_Invariant
begin

text \<open>
  A group of nodes and the network between them. Every node has its thread, its talker and
  its listener; a published message travels on one first-in-first-out connection per
  subscriber, on which it may also be lost. Everything the code leaves to the scheduler is
  a choice of the step relation: which thread, process or client moves next, and which
  subscribers a message reaches. \<open>tr\<close> is what zmq's \<open>send_json\<close> and \<open>recv_json\<close> make of a
  message.
\<close>

record system =
  threads :: "string \<Rightarrow> control"
  nodes :: "string \<Rightarrow> raft_node"
  wires :: "string \<Rightarrow> string \<Rightarrow> pyval list"

definition publish_to ::
  "(pyval \<Rightarrow> pyval) \<Rightarrow> string \<Rightarrow> string set \<Rightarrow> pyval option \<Rightarrow>
     (string \<Rightarrow> string \<Rightarrow> pyval list) \<Rightarrow> string \<Rightarrow> string \<Rightarrow> pyval list" where
  "publish_to tr i D out w =
     (case out of
        None \<Rightarrow> w
      | Some m \<Rightarrow> (\<lambda>a b. if a = i \<and> b \<in> D then w a b @ [tr m] else w a b))"

definition set_node :: "string \<Rightarrow> raft_node \<Rightarrow> system \<Rightarrow> system" where
  "set_node i n s = s\<lparr>nodes := (nodes s)(i := n)\<rparr>"

text \<open>
  The documented behaviour of the JSON transport the sources rely on: JSON-shaped values
  arrive as they were sent. \<open>json_norm\<close> is one such transport.
\<close>

definition json_wire :: "(pyval \<Rightarrow> pyval) \<Rightarrow> bool" where
  "json_wire tr \<longleftrightarrow> (\<forall>v. json_plain v \<longrightarrow> tr v = v)"

lemma json_wire_norm: "json_wire json_norm"
  by (simp add: json_wire_def)

text \<open>
  Requests of clients: a JSON-shaped value under a JSON-shaped, hashable id. The default id
  and every number or string are such ids.
\<close>

definition plain_request :: "pyval \<Rightarrow> pyval \<Rightarrow> bool" where
  "plain_request value id_num \<longleftrightarrow> json_plain value \<and> json_plain id_num \<and> py_hashable id_num"

text \<open>The steps of everything but the threads.\<close>

inductive env_step :: "(pyval \<Rightarrow> pyval) \<Rightarrow> string list \<Rightarrow> system \<Rightarrow> system \<Rightarrow> bool"
  for tr ids where
  talk: "i \<in> set ids \<Longrightarrow> D \<subseteq> set ids \<Longrightarrow>
    Talker_run_step bound (node_talker (nodes s i)) = (t, out) \<Longrightarrow>
    env_step tr ids s
      ((set_node i ((nodes s i)\<lparr>node_talker := t\<rparr>) s)\<lparr>wires := publish_to tr i D out (wires s)\<rparr>)"
| listen: "i \<in> set ids \<Longrightarrow> j \<in> set ids \<Longrightarrow> wires s j i = v # q \<Longrightarrow>
    env_step tr ids s
      ((set_node i ((nodes s i)\<lparr>node_listener := Listener_run_step (Some v) (node_listener (nodes s i))\<rparr>) s)
         \<lparr>wires := (wires s)(j := (wires s j)(i := q))\<rparr>)"
| listen_nothing: "i \<in> set ids \<Longrightarrow>
    env_step tr ids s
      (set_node i ((nodes s i)\<lparr>node_listener := Listener_run_step None (node_listener (nodes s i))\<rparr>) s)"
| request: "i \<in> set ids \<Longrightarrow> plain_request value id_num \<Longrightarrow>
    env_step tr ids s (set_node i (snd (client_request value id_num (nodes s i))) s)"
| pausing: "i \<in> set ids \<Longrightarrow> env_step tr ids s (set_node i (snd (pause (nodes s i))) s)"
| unpausing: "i \<in> set ids \<Longrightarrow> env_step tr ids s (set_node i (snd (un_pause (nodes s i))) s)"
| stopping: "i \<in> set ids \<Longrightarrow> env_step tr ids s (set_node i (RaftNode_stop (nodes s i)) s)"

definition thread_move :: "string \<Rightarrow> system \<Rightarrow> system" where
  "thread_move i s =
     (let (c, n) = thread_step (threads s i, nodes s i)
      in (set_node i n s)\<lparr>threads := (threads s)(i := c)\<rparr>)"

inductive sys_step :: "(pyval \<Rightarrow> pyval) \<Rightarrow> string list \<Rightarrow> system \<Rightarrow> system \<Rightarrow> bool"
  for tr ids where
  thread: "i \<in> set ids \<Longrightarrow> sys_step tr ids s (thread_move i s)"
| env: "env_step tr ids s t \<Longrightarrow> sys_step tr ids s t"

text \<open>
  The start: every member of the address book has been constructed from it as a follower,
  and nothing has been sent.
\<close>

definition started :: "address_book \<Rightarrow> system \<Rightarrow> bool" where
  "started ab s \<longleftrightarrow>
     (\<forall>i \<in> set (member_addresses ab).
        threads s i = Dispatch \<and> my_id (nodes s i) = i
        \<and> (\<exists>name draw clk od. name \<noteq> ''leader'' \<and>
             RaftNode_init Map.empty (ConfigDict ab) name Follower draw clk od = Inr (nodes s i)))
     \<and> (\<forall>i j. wires s i j = [])"

inductive reachable :: "(pyval \<Rightarrow> pyval) \<Rightarrow> address_book \<Rightarrow> system \<Rightarrow> bool"
  for tr ab where
  start: "started ab s \<Longrightarrow> reachable tr ab s"
| step: "reachable tr ab s \<Longrightarrow> sys_step tr (member_addresses ab) s t \<Longrightarrow> reachable tr ab t"

section \<open>The invariant of the group\<close>

definition node_sound :: "string list \<Rightarrow> string \<Rightarrow> control \<Rightarrow> raft_node \<Rightarrow> bool" where
  "node_sound ids i c n \<longleftrightarrow>
     thread_ok ids (c, n) \<and> my_id n = i \<and> l_my_id (node_listener n) = i
     \<and> (\<forall>e. l_pc (node_listener n) \<noteq> L_Crashed e)"

definition sys_ok :: "string list \<Rightarrow> system \<Rightarrow> bool" where
  "sys_ok ids s \<longleftrightarrow>
     (\<forall>i \<in> set ids. node_sound ids i (threads s i) (nodes s i))
     \<and> (\<forall>i j. list_all (wf_json ids) (wires s i j))"

lemma addressed_to_jsonify:
  "addressed_to v (jsonify r) = Inr (msg_receiver r = PyStr v \<or> msg_receiver r = PyNone)"
  by (cases r) (simp_all add: addressed_to_def jsonify_defs py_subscript_def)

lemma wf_json_addressed: "wf_json ids v \<Longrightarrow> \<exists>b. addressed_to me v = Inr b"
proof -
  assume "wf_json ids v"
  then obtain m where "v = jsonify m" by (auto simp: wf_json_def)
  then show ?thesis
    by (cases m) (simp_all add: addressed_to_def jsonify_defs py_subscript_def)
qed

lemma node_ok_talker:
  "node_ok ids (n\<lparr>node_talker := t\<rparr>) \<longleftrightarrow>
     node_ok ids (n\<lparr>node_talker := t\<lparr>t_messages := []\<rparr>\<rparr>) \<and> list_all (wf_json ids) (t_messages t)"
  by (auto simp: node_ok_def)

lemma thread_ok_listener:
  assumes "thread_ok ids (c, n)" and "list_all (wf_json ids) (l_messages l)"
  shows "thread_ok ids (c, n\<lparr>node_listener := l\<rparr>)"
  using assms by (cases c) (auto simp: thread_ok_def node_ok_def)

lemma thread_ok_talker:
  assumes "thread_ok ids (c, n)" and "list_all (wf_json ids) (t_messages t)"
  shows "thread_ok ids (c, n\<lparr>node_talker := t\<rparr>)"
  using assms by (cases c) (auto simp: thread_ok_def node_ok_def leader_ok_def)

lemma thread_ok_role: "thread_ok ids (c, n) \<Longrightarrow> thread_ok ids (c, n\<lparr>current_role := r\<rparr>)"
  by (cases c) (auto simp: thread_ok_def)

lemma talker_step_messages:
  assumes "Talker_run_step b t = (t', out)" and "list_all P (t_messages t)"
  shows "list_all P (t_messages t')" and "\<And>m. out = Some m \<Longrightarrow> P m"
  using assms by (auto simp: Talker_run_step_def queue_get_nowait_def
      split: talker_pc.splits if_splits list.splits)

lemma listener_step_ok:
  assumes "list_all (wf_json ids) (l_messages l)" and "\<forall>e. l_pc l \<noteq> L_Crashed e"
    and "\<And>m. v = Some m \<Longrightarrow> wf_json ids m"
  shows "list_all (wf_json ids) (l_messages (Listener_run_step v l))"
    and "l_pc (Listener_run_step v l) \<noteq> L_Crashed e"
    and "l_my_id (Listener_run_step v l) = l_my_id l"
proof -
  have "Listener_run_step v l \<in> {l, l\<lparr>l_pc := L_Running\<rparr>, l\<lparr>l_pc := L_Closed\<rparr>}
      \<union> {l\<lparr>l_messages := l_messages l @ [m]\<rparr> | m. v = Some m}"
  proof (cases v)
    case (Some m)
    from wf_json_addressed [OF assms(3) [OF Some]] obtain b where "addressed_to (l_my_id l) m = Inr b"
      by blast
    with Some show ?thesis
      by (cases b) (auto simp: Listener_run_step_def queue_put_def split: listener_pc.split)
  qed (auto simp: Listener_run_step_def split: listener_pc.split)
  with assms show "list_all (wf_json ids) (l_messages (Listener_run_step v l))"
    "l_pc (Listener_run_step v l) \<noteq> L_Crashed e"
    "l_my_id (Listener_run_step v l) = l_my_id l"
    by auto
qed

text \<open>The steps of one node's parts keep it sound.\<close>

lemma node_sound_listener:
  assumes "node_sound ids i c n" and "\<And>m. v = Some m \<Longrightarrow> wf_json ids m"
  shows "node_sound ids i c (n\<lparr>node_listener := Listener_run_step v (node_listener n)\<rparr>)"
proof -
  have "list_all (wf_json ids) (l_messages (node_listener n))"
    using assms(1) by (simp add: node_sound_def thread_ok_def node_ok_def)
  from listener_step_ok [OF this _ assms(2)] show ?thesis
    using assms(1) by (auto simp: node_sound_def intro!: thread_ok_listener)
qed

lemma node_sound_talker:
  assumes "node_sound ids i c n" and "Talker_run_step b (node_talker n) = (t, out)"
  shows "node_sound ids i c (n\<lparr>node_talker := t\<rparr>)" and "\<And>m. out = Some m \<Longrightarrow> wf_json ids m"
proof -
  have "list_all (wf_json ids) (t_messages (node_talker n))"
    using assms(1) by (simp add: node_sound_def thread_ok_def node_ok_def)
  from talker_step_messages [OF assms(2) this]
  show "node_sound ids i c (n\<lparr>node_talker := t\<rparr>)" and "\<And>m. out = Some m \<Longrightarrow> wf_json ids m"
    using assms(1) by (auto simp: node_sound_def intro!: thread_ok_talker)
qed

lemma node_sound_api:
  assumes "node_sound ids i c n"
  shows "plain_request value id_num \<Longrightarrow> node_sound ids i c (snd (client_request value id_num n))"
    and "node_sound ids i c (snd (pause n))"
    and "node_sound ids i c (snd (un_pause n))"
    and "node_sound ids i c (RaftNode_stop n)"
  using assms
  by (cases c; auto simp: node_sound_def client_request_def modify_def thread_ok_def node_ok_def
      leader_ok_def plain_request_def wf_entry_def queue_put_def pause_def un_pause_def
      set_current_role_def check_role_def py_run RaftNode_stop_def Talker_stop_def Listener_stop_def)+

lemma node_sound_thread:
  assumes "node_sound ids i c n" and "thread_step (c, n) = (c', n')"
  shows "node_sound ids i c' n'"
  using thread_step_ok [of ids "(c, n)"] cfg.thread_step [OF assms(2)] assms
  by (auto simp: node_sound_def same_config_defs)

lemma constructed_node_sound:
  assumes "RaftNode_init files (ConfigDict ab) name r draw clk od = Inr n"
    and "my_id n \<in> set (member_addresses ab)"
  shows "node_sound (member_addresses ab) (my_id n) Dispatch n"
  using assms
  by (auto simp: RaftNode_init_def Let_def node_sound_def thread_ok_def node_ok_def
      init_entry_def wf_entry_def Listener_init_def Talker_init_def split: option.splits)

lemma started_node_sound:
  assumes "started ab s" and "i \<in> set (member_addresses ab)"
  shows "node_sound (member_addresses ab) i (threads s i) (nodes s i)"
  using assms constructed_node_sound [of Map.empty ab _ Follower _ _ _ "nodes s i"]
  by (fastforce simp: started_def)

lemma sys_ok_node: "sys_ok ids s \<Longrightarrow> i \<in> set ids \<Longrightarrow> node_sound ids i (threads s i) (nodes s i)"
  by (simp add: sys_ok_def)

lemma sys_ok_set_node:
  "sys_ok ids s \<Longrightarrow> node_sound ids i (threads s i) n \<Longrightarrow> sys_ok ids (set_node i n s)"
  by (auto simp: sys_ok_def set_node_def)

lemma env_step_ok:
  assumes "env_step tr ids s t" and "sys_ok ids s" and tr: "json_wire tr"
  shows "sys_ok ids t"
  using assms(1)
proof cases
  case (talk i D bound tk out)
  note n = node_sound_talker [OF sys_ok_node [OF assms(2) talk(2)] talk(4)]
  have "list_all (wf_json ids) (publish_to tr i D out (wires s) a b)" for a b
    using assms(2) n(2) tr by (auto simp: publish_to_def sys_ok_def json_wire_def wf_json_def
      split: option.split)
  with sys_ok_set_node [OF assms(2) n(1)] show ?thesis
    by (simp add: talk sys_ok_def set_node_def)
next
  case (listen i j v q)
  have "list_all (wf_json ids) (wires s j i)"
    using assms(2) by (simp add: sys_ok_def)
  then have v: "wf_json ids v" "list_all (wf_json ids) q"
    by (simp_all add: listen(4))
  have "sys_ok ids (set_node i ((nodes s i)\<lparr>node_listener := Listener_run_step (Some v) (node_listener (nodes s i))\<rparr>) s)"
    using v(1) by (intro sys_ok_set_node node_sound_listener sys_ok_node assms(2) listen(2)) simp
  with v(2) show ?thesis
    by (simp add: listen sys_ok_def set_node_def)
next
  case (listen_nothing i)
  then show ?thesis
    using assms(2) by (auto intro!: sys_ok_set_node node_sound_listener sys_ok_node)
qed (use assms(2) in \<open>auto intro!: sys_ok_set_node node_sound_api sys_ok_node\<close>)

lemma thread_move_ok:
  assumes "sys_ok ids s" and "i \<in> set ids"
  shows "sys_ok ids (thread_move i s)"
proof -
  obtain c n where cn: "thread_step (threads s i, nodes s i) = (c, n)"
    by force
  from node_sound_thread [OF sys_ok_node [OF assms] this] assms(1) show ?thesis
    by (auto simp: thread_move_def cn sys_ok_def set_node_def)
qed

lemma sys_step_ok: "sys_step tr ids s t \<Longrightarrow> sys_ok ids s \<Longrightarrow> json_wire tr \<Longrightarrow> sys_ok ids t"
  by (auto elim!: sys_step.cases intro: env_step_ok thread_move_ok)

lemma reachable_ok:
  assumes "reachable tr ab s" and "json_wire tr"
  shows "sys_ok (member_addresses ab) s"
  using assms(1)
proof induction
  case (start s)
  then show ?case
    using started_node_sound by (auto simp: sys_ok_def started_def)
next
  case (step s t)
  then show ?case
    using assms(2) by (blast intro: sys_step_ok)
qed

section \<open>Properties\<close>

text \<open>
  C14. No node of a group whose clients make plain requests ever crashes: in every state the
  group reaches from its start, whatever the interleaving of threads, processes and clients
  and whatever messages are lost, no thread has died of an exception and no listener has, if
  every value and every id that a client asks with is one that JSON carries unchanged and
  every id is hashable (so that no request has a tuple in it).
\<close>

theorem group_never_crashes:
  assumes "reachable tr ab s" and "json_wire tr" and "i \<in> set (member_addresses ab)"
  shows "threads s i \<noteq> Crashed e \<and> l_pc (node_listener (nodes s i)) \<noteq> L_Crashed e"
  using sys_ok_node [OF reachable_ok [OF assms(1,2)] assms(3)]
  by (auto simp: node_sound_def thread_ok_def split: control.splits)

definition trio_start :: system where
  "trio_start =
     \<lparr>threads = (\<lambda>i. Dispatch),
      nodes = (\<lambda>i. trio_node (if i = ''h:1'' then ''node1'' else if i = ''h:2'' then ''node2'' else ''node3'')),
      wires = (\<lambda>i j. [])\<rparr>"

lemma trio_start_node:
  assumes "i \<in> set (member_addresses trio)"
  shows "my_id (nodes trio_start i) = i \<and> (\<exists>name. name \<noteq> ''leader'' \<and>
    RaftNode_init Map.empty (ConfigDict trio) name Follower 0 of_nat (div) = Inr (nodes trio_start i))"
proof -
  let ?name = "if i = ''h:1'' then ''node1'' else if i = ''h:2'' then ''node2'' else ''node3''"
  have "RaftNode_init Map.empty (ConfigDict trio) ?name Follower 0 of_nat (div) = Inr (nodes trio_start i)"
    by (simp add: trio_start_def trio_init)
  moreover have "my_id (nodes trio_start i) = i"
    using assms by (auto simp: trio_start_def fresh_node_def)
  moreover have "?name \<noteq> ''leader''"
    by simp
  ultimately show ?thesis by blast
qed

lemma started_trio: "started trio trio_start"
  unfolding started_def
proof (intro conjI ballI allI)
  fix i
  assume "i \<in> set (member_addresses trio)"
  from trio_start_node [OF this]
  show "my_id (nodes trio_start i) = i"
    and "\<exists>name draw clk od. name \<noteq> ''leader'' \<and>
      RaftNode_init Map.empty (ConfigDict trio) name Follower draw clk od = Inr (nodes trio_start i)"
    by blast+
qed (simp_all add: trio_start_def)

theorem group_never_crashes_witness:
  "threads (thread_move ''h:1'' trio_start) ''h:1'' \<noteq> Crashed IndexError
     \<and> l_pc (node_listener (nodes (thread_move ''h:1'' trio_start) ''h:1'')) \<noteq> L_Crashed IndexError"
proof (rule group_never_crashes)
  show "reachable json_norm trio (thread_move ''h:1'' trio_start)"
    by (rule reachable.step [OF reachable.start [OF started_trio]]) (rule sys_step.thread, simp)
qed (simp_all add: json_wire_norm)

end
