(* ===== verification/Raft_Replication.thy ===== *)
theory Raft_Replication
  imports Raft_System
begin

text \<open>
  Replication between a leader and one follower: what the follower's handler does with an
  entry it is offered, what the leader's handler does with the answer, and that the two
  together bring the follower's log to the leader's.
\<close>

section \<open>The follower's answer to an entry\<close>

text \<open>An \<open>AppendEntries\<close> request of leader \<open>lid\<close> in term \<open>T\<close> with its commit index \<open>lc\<close>.\<close>

definition offer_message :: "int \<Rightarrow> string \<Rightarrow> int \<Rightarrow> int \<Rightarrow> int \<Rightarrow> entry \<Rightarrow> pyval \<Rightarrow> pyval \<Rightarrow> message" where
  "offer_message T lid lc p t e receiver ts = AppendEntriesMessage
     \<lparr>m_timestamp = ts, m_type = PyInt MessageType_AppendEntries, m_term = PyInt T,
      m_sender = PyStr lid, m_receiver = receiver, m_direction = PyInt MessageDirection_Request,
      m_results = AppendEntriesResults PyNone PyNone, m_leader_id = PyStr lid,
      m_prev_log_index = PyInt p, m_prev_log_term = PyInt t, m_entries = entry_to_py e,
      m_leader_commit = PyInt lc\<rparr>"

lemma offer_message_is_sent:
  "offer_message (current_term l) (my_id l) (commit_index l) p t e r (stamp l) = append_message p t e r l"
  by (simp add: offer_message_def message_defs)

text \<open>The test of \<open>_follower\<close> and \<open>_verify_entry\<close>, for an index that is not negative.\<close>

definition acceptable :: "int \<Rightarrow> int \<Rightarrow> int \<Rightarrow> raft_node \<Rightarrow> bool" where
  "acceptable T p t f \<longleftrightarrow>
     current_term f \<le> T \<and> p < int (length (rlog f)) \<and> e_term (rlog f ! nat p) = t"

definition with_entry :: "int \<Rightarrow> int \<Rightarrow> entry \<Rightarrow> raft_node \<Rightarrow> raft_node" where
  "with_entry lc p e f =
     (let f' = f\<lparr>rlog := take (nat (p + 1)) (rlog f) @ [e],
                 log_hash := (log_hash f)(py_hash_key (e_id e) \<mapsto> e)\<rparr>
      in if lc > commit_index f
         then f'\<lparr>last_applied_index := p, last_applied_term := e_term e, commit_index := p\<rparr>
         else f')"

lemma follower_append_entries_run:
  assumes "rlog f \<noteq> []" and "0 \<le> p" and "py_hashable (e_id e)"
  shows "follower_append_entries (offer_message T lid lc p t e receiver ts) f =
     (if acceptable T p t f
      then (Inr (), sent (ack_message (PyStr lid) True (with_entry lc p e f)) (with_entry lc p e f))
      else (Inr (), sent (ack_message (PyStr lid) False f) f))"
proof -
  let ?m = "offer_message T lid lc p t e receiver ts"
  let ?f' = "if acceptable T p t f
      then sent (ack_message (PyStr lid) True (with_entry lc p e f)) (with_entry lc p e f)
      else sent (ack_message (PyStr lid) False f) f"
  have "take (nat (p + 1)) (rlog f) \<noteq> []"
    using assms(1,2) by simp
  then have "wp (follower_append_entries ?m) (\<lambda>_ f'. f' = ?f') (\<lambda>_ _. False) f"
    using assms
    by (auto simp: follower_append_entries_def offer_message_def verify_entry_def append_entry_def
        acceptable_def with_entry_def Let_def wp)
  from wp_total [OF this] show ?thesis
    by auto
qed

section \<open>Bringing a log up to date\<close>

text \<open>
  The leader's side of the exchange: entry \<open>k\<close> of its log is offered after entry \<open>k - 1\<close>,
  and the answer moves \<open>k\<close> as the acknowledgement handler does, until nothing is left.
\<close>

fun pursue ::
  "(int \<Rightarrow> int \<Rightarrow> entry \<Rightarrow> 'f \<Rightarrow> bool \<times> 'f) \<Rightarrow> entry list \<Rightarrow> nat \<Rightarrow> int option \<times> 'f \<Rightarrow> int option \<times> 'f" where
  "pursue offer lg 0 r = r"
| "pursue offer lg (Suc n) (None, f) = (None, f)"
| "pursue offer lg (Suc n) (Some k, f) =
     (let (ok, f') = offer (k - 1) (e_term (lg ! nat (k - 1))) (lg ! nat k) f;
          k' = ack_next_index ok k
      in pursue offer lg n (if k' > int (length lg) - 1 then None else Some k', f'))"

lemma pursue_None [simp]: "pursue offer lg n (None, f) = (None, f)"
  by (cases n) simp_all

text \<open>Two logs match when entries of the same index and term have the same past.\<close>

definition log_matching :: "entry list \<Rightarrow> entry list \<Rightarrow> bool" where
  "log_matching l f \<longleftrightarrow>
     (\<forall>i < min (length l) (length f). e_term (l ! i) = e_term (f ! i) \<longrightarrow> take (Suc i) l = take (Suc i) f)"

text \<open>
  What the leader relies on: an offer is accepted when the entry before it is there with
  the right term, and then replaces what follows; otherwise nothing changes.
\<close>

locale log_store =
  fixes entries :: "'f \<Rightarrow> entry list"
    and offer :: "int \<Rightarrow> int \<Rightarrow> entry \<Rightarrow> 'f \<Rightarrow> bool \<times> 'f"
    and usable :: "'f \<Rightarrow> bool"
  assumes accepts: "usable f \<Longrightarrow> 0 \<le> p \<Longrightarrow> py_hashable (e_id e) \<Longrightarrow> p < int (length (entries f)) \<Longrightarrow>
      e_term (entries f ! nat p) = t \<Longrightarrow>
      fst (offer p t e f) \<and> entries (snd (offer p t e f)) = take (Suc (nat p)) (entries f) @ [e]"
    and rejects: "usable f \<Longrightarrow> 0 \<le> p \<Longrightarrow> py_hashable (e_id e) \<Longrightarrow>
      \<not> (p < int (length (entries f)) \<and> e_term (entries f ! nat p) = t) \<Longrightarrow>
      \<not> fst (offer p t e f) \<and> entries (snd (offer p t e f)) = entries f"
    and stays_usable: "usable f \<Longrightarrow> 0 \<le> p \<Longrightarrow> py_hashable (e_id e) \<Longrightarrow> usable (snd (offer p t e f))"
begin

lemma climb:
  assumes "usable f" and "list_all (\<lambda>e. py_hashable (e_id e)) lg"
    and "0 < k" and "k < length lg" and "entries f = take k lg" and "length lg \<le> n + k"
  shows "\<exists>f'. pursue offer lg n (Some (int k), f) = (None, f') \<and> entries f' = lg"
  using assms
proof (induction n arbitrary: k f)
  case 0
  then show ?case by simp
next
  case (Suc n)
  let ?p = "int k - 1"
  have p: "nat ?p = k - 1" "k - 1 < length (entries f)"
    using Suc.prems by auto
  have hash: "py_hashable (e_id (lg ! k))"
    using Suc.prems by (simp add: list_all_length)
  have same: "entries f ! (k - 1) = lg ! (k - 1)"
    using Suc.prems by simp
  obtain ok f' where off: "offer ?p (e_term (lg ! (k - 1))) (lg ! k) f = (ok, f')"
    by force
  have ok: "ok" "entries f' = take (Suc (k - 1)) (entries f) @ [lg ! k]" "usable f'"
  proof -
    have lt: "?p < int (length (entries f))" "0 \<le> ?p"
      using p Suc.prems by auto
    show "ok" "entries f' = take (Suc (k - 1)) (entries f) @ [lg ! k]"
      using accepts [OF Suc.prems(1) lt(2) hash lt(1) refl] same off p by auto
    show "usable f'"
      using stays_usable [OF Suc.prems(1) lt(2) hash, of "e_term (lg ! (k - 1))"] off by simp
  qed
  have f': "entries f' = take (Suc k) lg"
    using ok(2) Suc.prems by (simp add: take_Suc_conv_app_nth)
  show ?case
  proof (cases "Suc k < length lg")
    case True
    then have "\<exists>f''. pursue offer lg n (Some (int (Suc k)), f') = (None, f'') \<and> entries f'' = lg"
      using Suc.prems ok f' by (intro Suc.IH) auto
    with True off ok(1) p show ?thesis
      by (simp add: ack_next_index_def add.commute)
  next
    case False
    then have "length lg = Suc k"
      using Suc.prems by simp
    with False off ok(1) p f' show ?thesis
      by (simp add: ack_next_index_def)
  qed
qed

text \<open>From any next index the leader comes down to the common prefix, and climbs from there.\<close>

lemma catches_up:
  assumes "usable f" and "list_all (\<lambda>e. py_hashable (e_id e)) lg"
    and "0 < k" and "k < length lg" and "entries f \<noteq> []" and "e_term (entries f ! 0) = e_term (lg ! 0)"
    and "log_matching lg (entries f)" and "length lg + k \<le> n"
  shows "\<exists>f'. pursue offer lg n (Some (int k), f) = (None, f') \<and> entries f' = lg"
  using assms
proof (induction n arbitrary: k f)
  case 0
  then show ?case by simp
next
  case (Suc n)
  let ?p = "int k - 1"
  have p: "nat ?p = k - 1" "0 \<le> ?p"
    using Suc.prems by auto
  have hash: "py_hashable (e_id (lg ! k))"
    using Suc.prems by (simp add: list_all_length)
  obtain ok f' where off: "offer ?p (e_term (lg ! (k - 1))) (lg ! k) f = (ok, f')"
    by force
  have use': "usable f'"
    using stays_usable [OF Suc.prems(1) p(2) hash, of "e_term (lg ! (k - 1))"] off by simp
  show ?case
  proof (cases "k - 1 < length (entries f) \<and> e_term (entries f ! (k - 1)) = e_term (lg ! (k - 1))")
    case True
    then have lt: "?p < int (length (entries f))"
      using Suc.prems(3) by linarith
    have ok: "ok" "entries f' = take (Suc (k - 1)) (entries f) @ [lg ! k]"
      using accepts [OF Suc.prems(1) p(2) hash lt refl] True p off by auto
    have "take (Suc (k - 1)) lg = take (Suc (k - 1)) (entries f)"
      using Suc.prems(4,7) True by (auto simp: log_matching_def)
    then have f': "entries f' = take (Suc k) lg"
      using ok(2) Suc.prems by (simp add: take_Suc_conv_app_nth)
    show ?thesis
    proof (cases "Suc k < length lg")
      case True
      then have "\<exists>f''. pursue offer lg n (Some (int (Suc k)), f') = (None, f'') \<and> entries f'' = lg"
        using Suc.prems f' use' by (intro climb) auto
      with True off ok(1) p show ?thesis
        by (simp add: ack_next_index_def add.commute)
    next
      case False
      then have "length lg = Suc k"
        using Suc.prems by simp
      with False off ok(1) p f' show ?thesis
        by (simp add: ack_next_index_def)
    qed
  next
    case False
    have no: "\<not> ok" "entries f' = entries f"
      using rejects [OF Suc.prems(1) p(2) hash, of "e_term (lg ! (k - 1))"] False p off by auto
    have "k \<noteq> 1"
      using False Suc.prems by auto
    then have k: "0 < k - 1" "k - 1 < length lg" "int (k - 1) = int k - 1"
      using Suc.prems by auto
    then have "\<exists>f''. pursue offer lg n (Some (int (k - 1)), f') = (None, f'') \<and> entries f'' = lg"
      using Suc.prems no use' by (intro Suc.IH) auto
    with k off no(1) p \<open>k \<noteq> 1\<close> Suc.prems show ?thesis
      by (simp add: ack_next_index_def)
  qed
qed

end

text \<open>The follower's handler as such a store; its answer is the message it queues last.\<close>

definition answer_granted :: "pyval \<Rightarrow> bool" where
  "answer_granted v =
     (case parse_json_message v of
        Inr (Some m) \<Rightarrow> (case results_success (msg_results m) of Inl _ \<Rightarrow> False | Inr g \<Rightarrow> py_truthy g)
      | _ \<Rightarrow> False)"

definition offer_entry ::
  "int \<Rightarrow> string \<Rightarrow> int \<Rightarrow> pyval \<Rightarrow> pyval \<Rightarrow> int \<Rightarrow> int \<Rightarrow> entry \<Rightarrow> raft_node \<Rightarrow> bool \<times> raft_node" where
  "offer_entry T lid lc receiver ts p t e f =
     (let (r, f') = follower_append_entries (offer_message T lid lc p t e receiver ts) f
      in (answer_granted (last (t_messages (node_talker f'))), f'))"

lemma answer_granted_ack: "answer_granted (jsonify (ack_message r g s)) = g"
proof -
  have "parse_json_message (jsonify (ack_message r g s)) = Inr (Some (ack_message r g s))"
    by (rule parse_jsonify_message) (simp add: message_defs message_type_defs)
  then show ?thesis
    by (simp add: answer_granted_def message_defs)
qed

lemma with_entry_simps [simp]:
  "rlog (with_entry lc p e f) = take (nat (p + 1)) (rlog f) @ [e]"
  "current_term (with_entry lc p e f) = current_term f"
  by (simp_all add: with_entry_def Let_def)

interpretation follower_log: log_store rlog "offer_entry T lid lc r ts"
    "\<lambda>f. rlog f \<noteq> [] \<and> current_term f \<le> T" for T lid lc r ts
  by unfold_locales
     (auto simp: offer_entry_def follower_append_entries_run acceptable_def answer_granted_ack
        nat_add_distrib)

section \<open>The leader's answer to an acknowledgement\<close>

text \<open>
  After the acknowledgement of node \<open>i\<close> whose entry \<open>k\<close> was pending: the match index on
  success, the next index as \<open>pursue\<close> has it, and the next entry offered if there is one.
\<close>

definition acknowledged :: "bool \<Rightarrow> nat \<Rightarrow> int \<Rightarrow> raft_node \<Rightarrow> raft_node \<Rightarrow> bool" where
  "acknowledged ok i k s t \<longleftrightarrow>
     (let k' = ack_next_index ok k; n = (if k' > int (length (rlog s)) - 1 then None else Some k')
      in match_index t = (if ok then (match_index s)[i := k] else match_index s)
       \<and> next_index t = (next_index s)[i := n]
       \<and> rlog t = rlog s
       \<and> (\<exists>ts vs. t_messages (node_talker t) = t_messages (node_talker s)
            @ (case n of None \<Rightarrow> []
                 | Some j \<Rightarrow> [jsonify (offer_message (current_term s) (my_id s) (commit_index s) (j - 1)
                                 (e_term (rlog s ! nat (j - 1))) (rlog s ! nat j) (PyStr (all_ids s ! i)) ts)])
            @ vs))"

definition keeps_replication :: "raft_node \<Rightarrow> raft_node \<Rightarrow> bool" where
  "keeps_replication s t \<longleftrightarrow>
     match_index t = match_index s \<and> next_index t = next_index s \<and> rlog t = rlog s
     \<and> (\<exists>vs. t_messages (node_talker t) = t_messages (node_talker s) @ vs)"

lemma keeps_replication_trans:
  "keeps_replication s t \<Longrightarrow> keeps_replication t u \<Longrightarrow> keeps_replication s u"
  by (auto simp: keeps_replication_def)

lemma commit_rule_keeps_replication:
  "wp leader_commit_rule (\<lambda>_. keeps_replication s) (\<lambda>_. keeps_replication s) s"
proof -
  let ?K = "keeps_replication s"
  have loop: "wp (for_each xs broadcast_commit_node) (\<lambda>_. ?K) (\<lambda>_. ?K) t" if "?K t" for xs t
  proof (rule wp_for_each [where I = "\<lambda>_. ?K"])
    show "wp (broadcast_commit_node x) (\<lambda>_. ?K) (\<lambda>_. ?K) u" if "?K u" for x u
      by (cases x) (use that in \<open>auto simp: broadcast_commit_node_def wp keeps_replication_def\<close>)
  qed (rule that)
  show ?thesis
    by (auto simp: leader_commit_rule_def broadcast_commit_entries_def wp intro!: loop)
       (auto simp: keeps_replication_def)
qed

lemma acknowledged_then:
  "acknowledged ok i k s u \<Longrightarrow> keeps_replication u t \<Longrightarrow> acknowledged ok i k s t"
  by (fastforce simp: acknowledged_def keeps_replication_def Let_def)

lemma leader_acknowledge_pending_effect:
  assumes ok: "leading ids s" and i: "i < length ids" and k: "1 \<le> k" "k < int (length (rlog s))"
    and m: "msg_sender m = PyStr (ids ! i)" "results_success (msg_results m) = Inr g"
  shows "wp (leader_acknowledge_pending m (int i) k) (\<lambda>_. acknowledged (py_truthy g) i k s) (\<lambda>_ _. True) s"
proof -
  let ?k = "ack_next_index (py_truthy g) k"
  let ?mis = "if py_truthy g then (match_index s)[i := k] else match_index s"
  let ?s1 = "s\<lparr>match_index := ?mis\<rparr>"
  let ?n = "if ?k > int (length (rlog s)) - 1 then None else Some ?k"
  let ?s2 = "?s1\<lparr>next_index := (next_index s)[i := ?n]\<rparr>"
  note lens = node_okD [OF conjunct1 [OF ok]]
  have rule: "wp leader_commit_rule (\<lambda>_. acknowledged (py_truthy g) i k s) (\<lambda>_ _. True) u"
    if "acknowledged (py_truthy g) i k s u" for u
    by (rule wp_mono [OF commit_rule_keeps_replication]) (use that acknowledged_then in auto)
  have rest: "wp (seq (if ?k > int (length (rlog s)) - 1 then ret () else leader_send_next ?k (msg_sender m))
      leader_commit_rule) (\<lambda>_. acknowledged (py_truthy g) i k s) (\<lambda>_ _. True) ?s2"
  proof (cases "?k > int (length (rlog s)) - 1")
    case True
    then have "acknowledged (py_truthy g) i k s ?s2"
      by (auto simp: acknowledged_def Let_def)
    from rule [OF this] show ?thesis
      unfolding if_P [OF True] wp_seq wp_ret .
  next
    case False
    have pos: "1 \<le> ?k" "?k < int (length (rlog s))"
      using False k by (auto simp: ack_next_index_def)
    have "acknowledged (py_truthy g) i k s
        (sent (append_message (?k - 1) (e_term (rlog s ! nat (?k - 1))) (rlog s ! nat ?k) (PyStr (ids ! i)) ?s2) ?s2)"
      using False lens(1)
      by (auto simp: acknowledged_def Let_def offer_message_def message_defs intro!: exI [of _ "stamp ?s2"] exI [of _ "[]"])
    from rule [OF this] show ?thesis
      using False pos by (simp add: leader_send_next_def wp m)
  qed
  have "wp (bnd (lift_result (py_setitem (next_index ?s1) (int i) (if ?k > log_max_index ?s1 then None else Some ?k)))
      (\<lambda>nis'. seq (modify (\<lambda>s. s\<lparr>next_index := nis'\<rparr>))
        (seq (if ?k > log_max_index ?s1 then ret () else leader_send_next ?k (msg_sender m)) leader_commit_rule)))
      (\<lambda>_. acknowledged (py_truthy g) i k s) (\<lambda>_ _. True) ?s1"
    using rest i lens(4) by (simp add: wp_bnd wp_lift_result wp_seq wp_modify log_max_index_def)
  then show ?thesis
    using i lens(5)
    by (cases "py_truthy g")
       (simp_all add: leader_acknowledge_pending_def wp_bnd wp_seq wp_when_py wp_lift_result wp_modify
          wp_gets wp_ret m(2) log_max_index_def cong: if_cong)
qed

lemma leader_acknowledge_run:
  assumes ok: "leading ids s" and wf: "wf_message ids m"
    and ty: "py_eq_int (msg_type m) MessageType_Acknowledge"
    and ids: "distinct ids" and i: "i < length ids" and sender: "msg_sender m = PyStr (ids ! i)"
    and g: "results_success (msg_results m) = Inr g" and pending: "next_index s ! i = Some k"
  shows "\<exists>t. leader_acknowledge m s = (Inr (), t) \<and> leading ids t \<and> acknowledged (py_truthy g) i k s t"
proof -
  note lens = node_okD [OF conjunct1 [OF ok]]
  let ?s = "s\<lparr>ticks := Suc (ticks s), heard_from := (heard_from s)[i := clock s (ticks s)]\<rparr>"
  have "Some k \<in> set (next_index s)"
    using i pending lens(4) by (metis nth_mem)
  then have k: "1 \<le> k" "k < int (length (rlog s))"
    using ok by (auto simp: leader_ok_def)
  have ok': "leading ids ?s"
    using ok by (simp add: node_ok_def leader_ok_def)
  have same: "acknowledged b i k ?s = acknowledged b i k s" for b
    by (simp add: acknowledged_def fun_eq_iff)
  have "wp (leader_acknowledge_pending m (int i) k) (\<lambda>_. acknowledged (py_truthy g) i k s) (\<lambda>_ _. True) ?s"
    using leader_acknowledge_pending_effect [OF ok' i k(1) _ sender g] k(2) same by simp
  then have "wp (leader_acknowledge m) (\<lambda>_. acknowledged (py_truthy g) i k s) (\<lambda>_ _. True) s"
    using i lens ids pending
    by (simp add: leader_acknowledge_def wp_bnd wp_seq wp_get_node_index wp_time_time wp_lift_result
        wp_gets wp_modify sender py_index_nth)
  with leader_acknowledge_ok [OF ok wf ty] show ?thesis
    by (auto simp: wp_def split: prod.splits sum.splits)
qed

section \<open>Properties\<close>

text \<open>
  C18. The answer to an entry: a follower that is offered entry \<open>e\<close> after index \<open>p\<close> and
  term \<open>t\<close> replaces what it has after \<open>p\<close> by \<open>e\<close> and acknowledges, if the leader is not of
  an older term and its own entry at \<open>p\<close> has term \<open>t\<close>; otherwise it answers no and changes
  nothing. When the leader has committed further, the follower commits \<open>p\<close>, the entry before
  the new one, under the term of the new one.
\<close>

theorem append_entries_answer:
  assumes "rlog f \<noteq> []" and "0 \<le> p" and "py_hashable (e_id e)"
  shows "follower_append_entries (offer_message T lid lc p t e receiver ts) f =
     (if current_term f \<le> T \<and> p < int (length (rlog f)) \<and> e_term (rlog f ! nat p) = t
      then (Inr (), sent (ack_message (PyStr lid) True (with_entry lc p e f)) (with_entry lc p e f))
      else (Inr (), sent (ack_message (PyStr lid) False f) f))"
  using follower_append_entries_run [OF assms] by (simp add: acceptable_def)

theorem append_entries_answer_witness:
  "follower_append_entries (offer_message 1 ''h:1'' 0 0 1 init_entry PyNone PyNone) (trio_node ''node2'') =
     (if current_term (trio_node ''node2'') \<le> 1 \<and> 0 < int (length (rlog (trio_node ''node2'')))
         \<and> e_term (rlog (trio_node ''node2'') ! nat 0) = 1
      then (Inr (), sent (ack_message (PyStr ''h:1'') True (with_entry 0 0 init_entry (trio_node ''node2'')))
              (with_entry 0 0 init_entry (trio_node ''node2'')))
      else (Inr (), sent (ack_message (PyStr ''h:1'') False (trio_node ''node2'')) (trio_node ''node2'')))"
  by (rule append_entries_answer) (simp_all add: fresh_node_def init_entry_def)

text \<open>
  C19. Replication ends: a leader that offers its entries to one follower from any next
  index, going back by one on a refusal and forward by one on an acceptance, is done after
  at most twice the length of its log exchanges, and the follower's log then equals its own,
  whatever the follower had, as long as both logs begin with the same term and match.
\<close>

theorem follower_catches_up:
  assumes "rlog f \<noteq> []" and "current_term f \<le> T" and "list_all (\<lambda>e. py_hashable (e_id e)) lg"
    and "0 < k" and "k < length lg" and "e_term (rlog f ! 0) = e_term (lg ! 0)"
    and "log_matching lg (rlog f)"
  shows "\<exists>f'. pursue (offer_entry T lid lc r ts) lg (2 * length lg) (Some (int k), f) = (None, f')
    \<and> rlog f' = lg"
  using assms by (intro follower_log.catches_up [where T = T]) auto

definition sample_log :: "entry list" where
  "sample_log = [init_entry, \<lparr>e_term = 2, e_value = PyStr ''a'', e_id = PyInt 1\<rparr>,
     \<lparr>e_term = 2, e_value = PyStr ''b'', e_id = PyInt 2\<rparr>]"

definition stale_follower :: raft_node where
  "stale_follower = (fresh_node ''node2'' ''h:2'')
     \<lparr>rlog := [init_entry, \<lparr>e_term = 1, e_value = PyStr ''x'', e_id = PyInt 9\<rparr>]\<rparr>"

theorem follower_catches_up_witness:
  "\<exists>f'. pursue (offer_entry 2 ''h:1'' 0 (PyStr ''h:2'') (PyInt 0)) sample_log (2 * length sample_log)
      (Some (int 2), stale_follower) = (None, f') \<and> rlog f' = sample_log"
proof (rule follower_catches_up)
  show "log_matching sample_log (rlog stale_follower)"
    by (auto simp: log_matching_def sample_log_def stale_follower_def less_Suc_eq)
qed (simp_all add: sample_log_def stale_follower_def fresh_node_def init_entry_def)

text \<open>
  C20. The leader's handler for acknowledgements is that exchange: the answer of a member
  whose entry \<open>k\<close> is pending moves its next index as described, records the match index on
  success, leaves the leader's log alone and queues the next entry to offer, if there is one,
  before anything else.
\<close>

theorem leader_answers_acknowledgement:
  assumes ok: "leading ids s" and wf: "wf_message ids m"
    and ty: "py_eq_int (msg_type m) MessageType_Acknowledge"
    and ids: "distinct ids" and i: "i < length ids" and sender: "msg_sender m = PyStr (ids ! i)"
    and g: "results_success (msg_results m) = Inr g" and pending: "next_index s ! i = Some k"
  shows "\<exists>t. leader_acknowledge m s = (Inr (), t) \<and> acknowledged (py_truthy g) i k s t"
  using leader_acknowledge_run [OF assms] by blast

definition sample_ack :: message where
  "sample_ack = AppendEntriesMessage
     \<lparr>m_timestamp = PyInt 0, m_type = PyInt MessageType_Acknowledge, m_term = PyInt 1,
      m_sender = PyStr ''h:3'', m_receiver = PyStr ''h:1'', m_direction = PyInt MessageDirection_Response,
      m_results = AppendEntriesResults (PyInt 1) (PyBool True), m_leader_id = PyStr ''h:1'',
      m_prev_log_index = PyInt 0, m_prev_log_term = PyInt 1, m_entries = PyNone, m_leader_commit = PyInt 0\<rparr>"

theorem leader_answers_acknowledgement_witness:
  "\<exists>t. leader_acknowledge sample_ack trio_leader = (Inr (), t)
     \<and> acknowledged (py_truthy (PyBool True)) 2 1 trio_leader t"
proof (rule leader_answers_acknowledgement)
  show "leading [''h:1'', ''h:2'', ''h:3''] trio_leader"
    by (simp add: trio_leader_def fresh_node_def node_ok_def leader_ok_def wf_entry_def init_entry_def
        Listener_init_def Talker_init_def)
qed (simp_all add: sample_ack_def message_type_defs trio_leader_def)

end
