(* ===== verification/Raft_Exchange.thy ===== *)
theory Raft_Exchange
  imports Raft_Replication "HOL-Library.Sublist"
begin

text \<open>
  The exchange between a leader and one member, as what is on its way between them: at most
  one offer or one answer at a time. This theory says what holds of the two logs at every
  point of the exchange, and that every move of it keeps that.
\<close>

section \<open>Offers and answers among the messages\<close>

definition is_offer :: "pyval \<Rightarrow> bool" where
  "is_offer x =
     (case parse_json_message x of
        Inr (Some m) \<Rightarrow> py_eq_int (msg_direction m) MessageDirection_Request
          \<and> py_eq_int (msg_type m) MessageType_AppendEntries
      | _ \<Rightarrow> False)"

definition acked_by :: "pyval \<Rightarrow> string option" where
  "acked_by x =
     (case parse_json_message x of
        Inr (Some m) \<Rightarrow>
          if py_eq_int (msg_direction m) MessageDirection_Response \<and> py_eq_int (msg_type m) MessageType_Acknowledge
          then (case msg_sender m of PyStr v \<Rightarrow> Some v | _ \<Rightarrow> None) else None
      | _ \<Rightarrow> None)"

definition offer_for :: "string \<Rightarrow> pyval \<Rightarrow> bool" where
  "offer_for v x \<longleftrightarrow> is_offer x \<and> addressed_to v x = Inr True"

abbreviation ack_from :: "string \<Rightarrow> pyval \<Rightarrow> bool" where
  "ack_from v x \<equiv> acked_by x = Some v"

lemma parse_sent:
  "parse_json_message (jsonify (heartbeat_message s)) = Inr (Some (heartbeat_message s))"
  "parse_json_message (jsonify (vote_message c g s)) = Inr (Some (vote_message c g s))"
  "parse_json_message (jsonify (request_vote_message r s)) = Inr (Some (request_vote_message r s))"
  "parse_json_message (jsonify (append_message i t e r s)) = Inr (Some (append_message i t e r s))"
  "parse_json_message (jsonify (committal_message r s)) = Inr (Some (committal_message r s))"
  "parse_json_message (jsonify (ack_message r g s)) = Inr (Some (ack_message r g s))"
  "parse_json_message (jsonify (forward_message r e s)) = Inr (Some (forward_message r e s))"
  by (rule parse_jsonify_message; simp add: message_defs message_type_defs)+

lemma is_offer_sent [simp]:
  "\<not> is_offer (jsonify (heartbeat_message s))"
  "\<not> is_offer (jsonify (vote_message c g s))"
  "\<not> is_offer (jsonify (request_vote_message r s))"
  "is_offer (jsonify (append_message i t e r s))"
  "\<not> is_offer (jsonify (committal_message r s))"
  "\<not> is_offer (jsonify (ack_message r g s))"
  "\<not> is_offer (jsonify (forward_message r e s))"
  by (simp_all add: is_offer_def parse_sent) (simp_all add: message_defs message_type_defs)

lemma acked_by_sent [simp]:
  "acked_by (jsonify (heartbeat_message s)) = None"
  "acked_by (jsonify (vote_message c g s)) = None"
  "acked_by (jsonify (request_vote_message r s)) = None"
  "acked_by (jsonify (append_message i t e r s)) = None"
  "acked_by (jsonify (committal_message r s)) = None"
  "acked_by (jsonify (ack_message r g s)) = Some (my_id s)"
  "acked_by (jsonify (forward_message r e s)) = None"
  by (simp_all add: acked_by_def parse_sent) (simp_all add: message_defs message_type_defs)

lemma offer_for_sent [simp]:
  "\<not> offer_for v (jsonify (heartbeat_message s))"
  "\<not> offer_for v (jsonify (vote_message c g s))"
  "\<not> offer_for v (jsonify (request_vote_message r s))"
  "offer_for v (jsonify (append_message i t e (PyStr w) s)) \<longleftrightarrow> w = v"
  "\<not> offer_for v (jsonify (committal_message r s))"
  "\<not> offer_for v (jsonify (ack_message r g s))"
  "\<not> offer_for v (jsonify (forward_message r e s))"
  by (auto simp: offer_for_def addressed_to_jsonify simp del: jsonify.simps) (simp_all add: message_defs)

section \<open>The two logs\<close>

definition agree :: "int \<Rightarrow> entry list \<Rightarrow> entry list \<Rightarrow> bool" where
  "agree k l f \<longleftrightarrow>
     0 \<le> k \<and> k < int (length l) \<and> k < int (length f) \<and> take (nat (k + 1)) f = take (nat (k + 1)) l"

lemma agree_append: "agree k l f \<Longrightarrow> agree k (l @ es) f"
  by (auto simp: agree_def)

lemma agree_nth: "agree k l f \<Longrightarrow> 0 \<le> i \<Longrightarrow> i \<le> k \<Longrightarrow> f ! nat i = l ! nat i"
proof -
  assume "agree k l f" "0 \<le> i" "i \<le> k"
  then have "take (nat (k + 1)) f ! nat i = take (nat (k + 1)) l ! nat i" and "nat i < nat (k + 1)"
    by (simp_all add: agree_def)
  then show ?thesis
    by simp
qed

lemma agree_down:
  assumes "agree k l f" and "0 \<le> i" and "i \<le> k"
  shows "agree i l f"
proof -
  have "take (nat (i + 1)) (take (nat (k + 1)) f) = take (nat (i + 1)) (take (nat (k + 1)) l)"
    using assms(1) by (simp add: agree_def)
  moreover have "min (nat (i + 1)) (nat (k + 1)) = nat (i + 1)"
    using assms(3) by simp
  ultimately have "take (nat (i + 1)) f = take (nat (i + 1)) l"
    by simp
  with assms show ?thesis
    by (simp add: agree_def)
qed

lemma agree_extended:
  assumes "agree (k - 1) l f" and "k < int (length l)"
  shows "agree k l (take (nat k) f @ [l ! nat k])"
proof -
  have k: "nat (k + 1) = Suc (nat k)" "nat k < length l" "nat k < length f \<or> nat k = length f"
    using assms by (auto simp: agree_def)
  have "take (nat k) f = take (nat k) l"
    using assms(1) by (simp add: agree_def)
  with assms k show ?thesis
    by (auto simp: agree_def take_Suc_conv_app_nth)
qed

lemma matching_agree:
  assumes "log_matching l f" and "0 \<le> k" and "k < int (length l)" and "k < int (length f)"
    and "e_term (f ! nat k) = e_term (l ! nat k)"
  shows "agree k l f"
proof -
  have k: "nat k < length l" "nat k < length f" "nat (k + 1) = Suc (nat k)"
    using assms by auto
  with assms(1,5) have "take (Suc (nat k)) l = take (Suc (nat k)) f"
    by (simp add: log_matching_def)
  with assms k show ?thesis
    by (simp add: agree_def)
qed

lemma agree_all_matching: "agree k l f \<Longrightarrow> length f = nat (k + 1) \<Longrightarrow> log_matching l f"
proof -
  assume "agree k l f" "length f = nat (k + 1)"
  then have "f = take (length f) l"
    by (simp add: agree_def)
  then have "take (Suc i) f = take (Suc i) l" if "i < length f" for i
    using that by (metis Suc_leI min.absorb1 take_take)
  then show ?thesis
    by (simp add: log_matching_def)
qed

lemma matching_append: "log_matching l f \<Longrightarrow> length f \<le> length l \<Longrightarrow> log_matching (l @ es) f"
  by (simp add: log_matching_def nth_append)

section \<open>The exchange\<close>

text \<open>
  \<open>T\<close> is the term of leader \<open>ld\<close>, \<open>lg\<close> its log, \<open>mt\<close> and \<open>nx\<close> its match and next index
  for member \<open>v\<close>, which has log \<open>f\<close> and term \<open>tf\<close>; \<open>offs\<close> and \<open>acks\<close> are on their way.
\<close>

definition offer_at :: "int \<Rightarrow> string \<Rightarrow> string \<Rightarrow> entry list \<Rightarrow> int \<Rightarrow> pyval \<Rightarrow> bool" where
  "offer_at T ld v lg k x \<longleftrightarrow>
     (\<exists>lc ts. x = jsonify (offer_message T ld lc (k - 1) (e_term (lg ! nat (k - 1))) (lg ! nat k) (PyStr v) ts))"

definition exchange ::
  "int \<Rightarrow> string \<Rightarrow> string \<Rightarrow> entry list \<Rightarrow> int \<Rightarrow> int option \<Rightarrow> entry list \<Rightarrow> int \<Rightarrow> pyval list \<Rightarrow> pyval list \<Rightarrow> bool" where
  "exchange T ld v lg mt nx f tf offs acks \<longleftrightarrow>
     (case nx of
        None \<Rightarrow> offs = [] \<and> acks = []
      | Some k \<Rightarrow>
          1 \<le> k \<and> k < int (length lg) \<and> (k \<le> mt \<longrightarrow> T < tf) \<and> length offs + length acks \<le> 1
          \<and> (\<forall>x \<in> set offs. offer_at T ld v lg k x)
          \<and> (\<forall>x \<in> set acks. if answer_granted x then mt < k \<and> agree k lg f else k - 1 \<le> mt \<longrightarrow> T < tf))"

definition tracks ::
  "int \<Rightarrow> string \<Rightarrow> string \<Rightarrow> entry list \<Rightarrow> int \<Rightarrow> int option \<Rightarrow> entry list \<Rightarrow> int \<Rightarrow> pyval list \<Rightarrow> pyval list \<Rightarrow> bool" where
  "tracks T ld v lg mt nx f tf offs acks \<longleftrightarrow>
     length f \<le> length lg \<and> log_matching lg f \<and> agree mt lg f \<and> exchange T ld v lg mt nx f tf offs acks"

lemma tracksD:
  assumes "tracks T ld v lg mt nx f tf offs acks"
  shows "length f \<le> length lg" "log_matching lg f" "agree mt lg f" "exchange T ld v lg mt nx f tf offs acks"
  using assms by (simp_all add: tracks_def)

text \<open>Messages are lost.\<close>

lemma tracks_lose:
  assumes "tracks T ld v lg mt nx f tf offs acks" and "subseq offs' offs" and "subseq acks' acks"
  shows "tracks T ld v lg mt nx f tf offs' acks'"
proof -
  have "length offs' \<le> length offs" "length acks' \<le> length acks"
    using assms(2,3) by (auto dest: list_emb_length)
  moreover have "set offs' \<subseteq> set offs" "set acks' \<subseteq> set acks"
    using assms(2,3) by (auto dest: list_emb_set)
  ultimately show ?thesis
    using assms(1) by (auto simp: tracks_def exchange_def subset_iff split: option.splits)
qed

text \<open>The member learns of a higher term.\<close>

lemma tracks_term:
  "tracks T ld v lg mt nx f tf offs acks \<Longrightarrow> tf \<le> tf' \<Longrightarrow> tracks T ld v lg mt nx f tf' offs acks"
  by (auto simp: tracks_def exchange_def split: option.splits)

text \<open>The leader appends.\<close>

lemma offer_at_append:
  assumes "offer_at T ld v lg k x" and "1 \<le> k" and "k < int (length lg)"
  shows "offer_at T ld v (lg @ es) k x"
proof -
  have "nat (k - 1) < length lg" "nat k < length lg"
    using assms(2,3) by auto
  with assms(1) show ?thesis
    by (simp add: offer_at_def nth_append)
qed

lemma tracks_append: "tracks T ld v lg mt nx f tf offs acks \<Longrightarrow> tracks T ld v (lg @ es) mt nx f tf offs acks"
  by (auto simp: tracks_def exchange_def matching_append agree_append offer_at_append split: option.splits if_splits)

text \<open>The leader makes an offer, for the first time or again.\<close>

lemma tracks_open:
  assumes "tracks T ld v lg mt None f tf [] []" and "mt < k" and "k < int (length lg)" and "offer_at T ld v lg k x"
  shows "tracks T ld v lg mt (Some k) f tf [x] []"
  using assms by (auto simp: tracks_def exchange_def agree_def)

lemma tracks_again:
  assumes "tracks T ld v lg mt (Some k) f tf [] []" and "offer_at T ld v lg k x"
  shows "tracks T ld v lg mt (Some k) f tf [x] []"
  using assms by (auto simp: tracks_def exchange_def)

text \<open>The member answers.\<close>

lemma tracks_accepted:
  assumes "tracks T ld v lg mt (Some k) f tf offs acks" and "tf \<le> T" and "k - 1 < int (length f)"
    and "e_term (f ! nat (k - 1)) = e_term (lg ! nat (k - 1))" and "answer_granted x"
  shows "tracks T ld v lg mt (Some k) (take (nat k) f @ [lg ! nat k]) tf [] [x]"
proof -
  note t = tracksD [OF assms(1)]
  have k: "1 \<le> k" "k < int (length lg)" "mt < k"
    using t(4) assms(2) by (auto simp: exchange_def)
  let ?f = "take (nat k) f @ [lg ! nat k]"
  have "agree (k - 1) lg f"
    using k assms(3,4) t(2) by (intro matching_agree) auto
  then have new: "agree k lg ?f"
    using k(2) by (rule agree_extended)
  have len: "length ?f = nat (k + 1)"
    using k assms(3) by auto
  moreover have "agree mt lg ?f"
    by (rule agree_down [OF new]) (use t(3) k in \<open>auto simp: agree_def\<close>)
  ultimately show ?thesis
    using new k assms(5) agree_all_matching [OF new len] by (auto simp: tracks_def exchange_def)
qed

lemma tracks_refused:
  assumes "tracks T ld v lg mt (Some k) f tf offs acks"
    and "\<not> (tf \<le> T \<and> k - 1 < int (length f) \<and> e_term (f ! nat (k - 1)) = e_term (lg ! nat (k - 1)))"
    and "\<not> answer_granted x"
  shows "tracks T ld v lg mt (Some k) f tf [] [x]"
proof -
  note t = tracksD [OF assms(1)]
  have "T < tf" if "k - 1 \<le> mt"
  proof -
    have "f ! nat (k - 1) = lg ! nat (k - 1)" "k - 1 < int (length f)"
      using agree_nth [OF t(3), of "k - 1"] t(3,4) that by (auto simp: agree_def exchange_def)
    with assms(2) show ?thesis
      by auto
  qed
  with t assms(3) show ?thesis
    by (auto simp: tracks_def exchange_def)
qed

text \<open>The leader takes the answer.\<close>

lemma tracks_answered:
  assumes "tracks T ld v lg mt (Some k) f tf [] [a]"
  defines "mt' \<equiv> if answer_granted a then k else mt" and "k' \<equiv> ack_next_index (answer_granted a) k"
  shows "k' \<ge> int (length lg) \<Longrightarrow> tracks T ld v lg mt' None f tf [] []"
    and "k' < int (length lg) \<Longrightarrow> offer_at T ld v lg k' x \<Longrightarrow> tracks T ld v lg mt' (Some k') f tf [x] []"
proof -
  note t = tracksD [OF assms(1)]
  have k: "1 \<le> k" "k < int (length lg)"
    and g: "if answer_granted a then mt < k \<and> agree k lg f else k - 1 \<le> mt \<longrightarrow> T < tf"
    using t(4) by (auto simp: exchange_def)
  have mt': "agree mt' lg f"
    using t(3) g by (simp add: mt'_def split: if_splits)
  then show "k' \<ge> int (length lg) \<Longrightarrow> tracks T ld v lg mt' None f tf [] []"
    using t by (simp add: tracks_def exchange_def)
  have "k' \<le> mt' \<Longrightarrow> T < tf"
    using g k t(3,4) by (auto simp: mt'_def k'_def ack_next_index_def agree_def exchange_def split: if_splits)
  moreover have "1 \<le> k'"
    using k by (simp add: k'_def ack_next_index_def)
  ultimately show "k' < int (length lg) \<Longrightarrow> offer_at T ld v lg k' x \<Longrightarrow> tracks T ld v lg mt' (Some k') f tf [x] []"
    using t mt' by (simp add: tracks_def exchange_def)
qed

end
