(* ===== verification/Raft_Ballots.thy ===== *)
theory Raft_Ballots
  imports Raft_System
begin

text \<open>
  Ballots: the votes nodes grant. A node that is not told by a leader of its own term to
  stand down grants at most one vote per term; this theory shows it for every step of a
  thread, and says what a candidate counts.
\<close>

section \<open>Granted votes\<close>

definition grants_vote :: "message \<Rightarrow> bool" where
  "grants_vote m \<longleftrightarrow>
     py_eq_int (msg_direction m) MessageDirection_Response
     \<and> py_eq_int (msg_type m) MessageType_RequestVotes
     \<and> (case results_vote_granted (msg_results m) of Inl _ \<Rightarrow> False | Inr g \<Rightarrow> py_truthy g)"

definition granted_ballot :: "pyval \<Rightarrow> (int \<times> string) option" where
  "granted_ballot v =
     (case parse_json_message v of
        Inr (Some m) \<Rightarrow>
          (if grants_vote m then
             (case (msg_term m, msg_receiver m) of (PyInt t, PyStr c) \<Rightarrow> Some (t, c) | _ \<Rightarrow> None)
           else None)
      | _ \<Rightarrow> None)"

definition ballot_of :: "message \<Rightarrow> (int \<times> string) option" where
  "ballot_of m =
     (if grants_vote m then
        (case (msg_term m, msg_receiver m) of (PyInt t, PyStr c) \<Rightarrow> Some (t, c) | _ \<Rightarrow> None)
      else None)"

lemma granted_ballot_jsonify: "well_classed m \<Longrightarrow> granted_ballot (jsonify m) = ballot_of m"
  by (simp add: granted_ballot_def parse_jsonify_message ballot_of_def del: jsonify.simps)

lemma well_classed_messages [simp]:
  "well_classed (vote_message c g s)"
  "well_classed (request_vote_message r s)"
  "well_classed (heartbeat_message s)"
  "well_classed (append_message i t e r s)"
  "well_classed (committal_message r s)"
  "well_classed (ack_message r g s)"
  "well_classed (forward_message r e s)"
  by (simp_all add: message_defs message_type_defs)

lemma ballot_of_messages [simp]:
  "ballot_of (vote_message (PyStr c) g s) = (if g then Some (current_term s, c) else None)"
  "ballot_of (request_vote_message r s) = None"
  "ballot_of (heartbeat_message s) = None"
  "ballot_of (append_message i t e r s) = None"
  "ballot_of (committal_message r s) = None"
  "ballot_of (ack_message r g s) = None"
  "ballot_of (forward_message r e s) = None"
  by (simp_all add: ballot_of_def grants_vote_def message_defs message_type_defs)

lemma granted_ballot_sent [simp]:
  "granted_ballot (jsonify (vote_message (PyStr c) g s)) = (if g then Some (current_term s, c) else None)"
  "granted_ballot (jsonify (request_vote_message r s)) = None"
  "granted_ballot (jsonify (heartbeat_message s)) = None"
  "granted_ballot (jsonify (append_message i t e r s)) = None"
  "granted_ballot (jsonify (committal_message r s)) = None"
  "granted_ballot (jsonify (ack_message r g s)) = None"
  "granted_ballot (jsonify (forward_message r e s)) = None"
  by (simp_all only: granted_ballot_jsonify well_classed_messages ballot_of_messages)

lemma granted_ballot_vote:
  assumes "granted_ballot (jsonify (vote_message c g s)) = Some (t, d)"
  shows "g \<and> t = current_term s \<and> c = PyStr d"
proof -
  have "ballot_of (vote_message c g s) = Some (t, d)"
    using assms by (simp only: granted_ballot_jsonify well_classed_messages)
  then show ?thesis
    by (cases c) (auto simp: ballot_of_def grants_vote_def message_defs message_type_defs split: if_splits)
qed

definition ballots :: "pyval list \<Rightarrow> (int \<times> string) list" where
  "ballots vs = List.map_filter granted_ballot vs"

lemma ballots_simps [simp]:
  "ballots [] = []"
  "ballots (v # vs) = (case granted_ballot v of None \<Rightarrow> ballots vs | Some b \<Rightarrow> b # ballots vs)"
  "ballots (vs @ ws) = ballots vs @ ballots ws"
  by (simp_all add: ballots_def List.map_filter_def split: option.split)

section \<open>One ballot per term\<close>

text \<open>A node has spent a term when it will not grant a vote in it any more.\<close>

definition spent :: "raft_node \<Rightarrow> int \<Rightarrow> bool" where
  "spent s t \<longleftrightarrow> t < current_term s \<or> (t = current_term s \<and> voted_for s \<noteq> PyNone)"

definition one_ballot :: "raft_node \<Rightarrow> raft_node \<Rightarrow> bool" where
  "one_ballot s t \<longleftrightarrow>
     (\<exists>vs. t_messages (node_talker t) = t_messages (node_talker s) @ vs
        \<and> distinct (map fst (ballots vs))
        \<and> (\<forall>T \<in> fst ` set (ballots vs). \<not> spent s T \<and> spent t T))
     \<and> (\<forall>T. spent s T \<longrightarrow> spent t T) \<and> my_id t = my_id s"

lemma one_ballotI:
  assumes "t_messages (node_talker t) = t_messages (node_talker s) @ vs"
    and "distinct (map fst (ballots vs))"
    and "\<And>T. T \<in> fst ` set (ballots vs) \<Longrightarrow> \<not> spent s T \<and> spent t T"
    and "\<And>T. spent s T \<Longrightarrow> spent t T" and "my_id t = my_id s"
  shows "one_ballot s t"
  unfolding one_ballot_def
proof (intro conjI exI ballI allI impI)
  show "t_messages (node_talker t) = t_messages (node_talker s) @ vs" by (rule assms(1))
qed (use assms in blast)+

lemma one_ballot_trans:
  assumes "one_ballot s t" and "one_ballot t u"
  shows "one_ballot s u"
proof -
  obtain vs ws where
    vs: "t_messages (node_talker t) = t_messages (node_talker s) @ vs" "distinct (map fst (ballots vs))"
      "\<forall>T \<in> fst ` set (ballots vs). \<not> spent s T \<and> spent t T" and
    ws: "t_messages (node_talker u) = t_messages (node_talker t) @ ws" "distinct (map fst (ballots ws))"
      "\<forall>T \<in> fst ` set (ballots ws). \<not> spent t T \<and> spent u T"
    using assms by (auto simp: one_ballot_def)
  have "fst ` set (ballots vs) \<inter> fst ` set (ballots ws) = {}"
    using vs(3) ws(3) by blast
  then have "distinct (map fst (ballots (vs @ ws)))"
    using vs(2) ws(2) by simp
  moreover have "t_messages (node_talker u) = t_messages (node_talker s) @ (vs @ ws)"
    by (simp add: vs(1) ws(1))
  moreover have grow: "spent t T" if "spent s T" for T
    using that assms(1) by (simp add: one_ballot_def)
  moreover have "spent u T" if "spent t T" for T
    using that assms(2) by (simp add: one_ballot_def)
  moreover have "my_id u = my_id s"
    using assms by (simp add: one_ballot_def)
  ultimately show ?thesis
    using vs(3) ws(3) by (intro one_ballotI [of u s "vs @ ws"]) auto
qed

lemma one_ballot_quiet:
  assumes "t_messages (node_talker t) = t_messages (node_talker s)"
    and "current_term t = current_term s" and "voted_for t = voted_for s" and "my_id t = my_id s"
  shows "one_ballot s t"
  using assms by (simp add: one_ballot_def spent_def)

lemma one_ballot_silent:
  assumes "t_messages (node_talker t) = t_messages (node_talker s) @ [v]" and "granted_ballot v = None"
    and "current_term t = current_term s" and "voted_for t = voted_for s" and "my_id t = my_id s"
  shows "one_ballot s t"
proof -
  have "ballots [v] = []"
    using assms(2) by simp
  then have "distinct (map fst (ballots [v])) \<and> (\<forall>T \<in> fst ` set (ballots [v]). \<not> spent s T \<and> spent t T)"
    by simp
  moreover have "spent s = spent t"
    using assms by (simp add: spent_def fun_eq_iff)
  ultimately show ?thesis
    unfolding one_ballot_def using assms(1,5) by (auto intro!: exI [of _ "[v]"] simp del: ballots_simps)
qed

lemma one_ballot_new_term:
  assumes "current_term s < tm"
  shows "one_ballot s (s\<lparr>voted_for := PyNone, current_term := tm\<rparr>)"
  using assms by (auto simp: one_ballot_def spent_def)

lemma one_ballot_sent: "granted_ballot (jsonify m) = None \<Longrightarrow> one_ballot s (sent m s)"
  by (rule one_ballot_silent [of _ _ "jsonify m"]) simp_all

interpretation votes: follower_frame one_ballot
proof unfold_locales
  fix s t u
  assume "one_ballot s t" and "one_ballot t u"
  then show "one_ballot s u" by (rule one_ballot_trans)
qed ((rule one_ballot_new_term; assumption) | (rule one_ballot_sent granted_ballot_sent)+ | (rule one_ballot_quiet; simp))+

text \<open>The handlers that vote or change the term.\<close>

lemma one_ballot_vote:
  assumes "c \<noteq> PyNone" and "g \<Longrightarrow> voted_for s = PyNone"
  shows "one_ballot s ((sent (vote_message c g s) s)\<lparr>voted_for := c\<rparr>)"
proof -
  let ?v = "jsonify (vote_message c g s)"
  let ?t = "(sent (vote_message c g s) s)\<lparr>voted_for := c\<rparr>"
  have "\<forall>T. spent s T \<longrightarrow> spent ?t T"
    using assms(1) by (simp add: spent_def)
  moreover have "T = current_term s \<and> voted_for s = PyNone" if "T \<in> fst ` set (ballots [?v])" for T
    using that assms(2) by (auto dest: granted_ballot_vote split: option.splits)
  moreover have "distinct (map fst (ballots [?v]))"
    by (simp split: option.split)
  ultimately show ?thesis
    using assms(1) by (force simp: one_ballot_def spent_def intro!: exI [of _ "[?v]"])
qed

lemma vote_test_returns:
  "wp (vote_test m) (\<lambda>g t. t = s \<and> (g \<longrightarrow> voted_for s = PyNone)) (\<lambda>_ t. t = s) s"
  by (simp add: vote_test_def wp)

lemma votes_follower_request_votes:
  assumes "msg_sender m \<noteq> PyNone"
  shows "always one_ballot (follower_request_votes m)"
proof -
  have "always one_ballot (bnd (vote_test m) (\<lambda>g. seq (send_vote (msg_sender m) g) time_time))"
  proof (rule alwaysI)
    fix s
    show "wp (bnd (vote_test m) (\<lambda>g. seq (send_vote (msg_sender m) g) time_time))
        (\<lambda>_. one_ballot s) (\<lambda>_. one_ballot s) s"
      unfolding wp_bnd
      by (rule wp_mono [OF vote_test_returns])
         (use assms in \<open>auto simp: wp votes.frame_refl
            intro: votes.frame_trans [OF one_ballot_vote votes.on_ticks]\<close>)
  qed
  then show ?thesis
    unfolding follower_request_votes_def
    by (intro votes.bnd_frame [OF votes.lift_result_frame] votes.guarded_term)
qed

lemma votes_follower_heartbeat: "always one_ballot (follower_heartbeat m)"
  unfolding follower_heartbeat_def
  by (intro votes.bnd_frame [OF votes.lift_result_frame] votes.guarded_term votes.follow_leader)

lemma votes_follower_handle:
  assumes "msg_sender m \<noteq> PyNone"
  shows "always one_ballot (follower_handle mrh m)"
  unfolding follower_handle_def
  by (intro votes.frame_intros votes_follower_request_votes [OF assms] votes_follower_heartbeat
        votes.follower_append_entries votes.follower_committal)

lemma one_ballot_stand_down:
  assumes "current_term s < tm" and "c \<noteq> PyNone"
  shows "one_ballot s ((sent (vote_message c True (s\<lparr>voted_for := PyNone, current_term := tm\<rparr>))
    (s\<lparr>voted_for := PyNone, current_term := tm\<rparr>))\<lparr>voted_for := c, current_role := Follower\<rparr>)"
  using one_ballot_vote [of c True "s\<lparr>voted_for := PyNone, current_term := tm\<rparr>"] assms
  by (auto intro: one_ballot_trans [OF one_ballot_new_term] votes.frame_trans [OF _ votes.on_role])

lemma votes_stand_down:
  assumes "c \<noteq> PyNone"
  shows "always one_ballot (bnd (gets current_term) (\<lambda>ct.
    if t > ct then seq (increment_term (Some t)) (seq (send_vote c True)
       (seq (set_current_role Follower) (ret x))) else ret y))"
  using one_ballot_stand_down [OF _ assms] votes.frame_refl by (simp add: always_def wp)

lemma votes_candidate_request_votes:
  assumes "msg_sender m \<noteq> PyNone"
  shows "always one_ballot (candidate_request_votes el m)"
  unfolding candidate_request_votes_def
  by (intro votes.bnd_frame [OF votes.lift_result_frame] votes_stand_down [OF assms])

lemma votes_leader_handle:
  assumes "msg_sender m \<noteq> PyNone"
  shows "always one_ballot (leader_handle m)"
  unfolding leader_handle_def leader_request_votes_def
  by (intro votes.frame_intros votes.small votes.leader_acknowledge votes.broadcast_append_entries
        votes_stand_down [OF assms])

end
