(* ===== verification/Raft_Behaviour.thy ===== *)
theory Raft_Behaviour
  imports Raft_Replication Raft_Ballots
begin

text \<open>
  What single nodes do: the thread when it is paused, stopped or left alone, the follower's
  votes, the client interface, and the ids the code does not survive.
\<close>

section \<open>Votes\<close>

text \<open>A request for votes of candidate \<open>a\<close> in term \<open>T\<close>.\<close>

definition vote_request :: "int \<Rightarrow> string \<Rightarrow> int \<Rightarrow> int \<Rightarrow> pyval \<Rightarrow> message" where
  "vote_request T a li lt ts = RequestVotesMessage
     \<lparr>m_timestamp = ts, m_type = PyInt MessageType_RequestVotes, m_term = PyInt T,
      m_sender = PyStr a, m_receiver = PyNone, m_direction = PyInt MessageDirection_Request,
      m_results = RequestVotesResults PyNone PyNone, m_candidate_id = PyStr a,
      m_last_log_index = PyInt li, m_last_log_term = PyInt lt\<rparr>"

definition in_term :: "int \<Rightarrow> raft_node \<Rightarrow> raft_node" where
  "in_term T s = (if T > current_term s then s\<lparr>voted_for := PyNone, current_term := T\<rparr> else s)"

definition gives_vote :: "int \<Rightarrow> int \<Rightarrow> raft_node \<Rightarrow> bool" where
  "gives_vote li lt s \<longleftrightarrow> voted_for s = PyNone \<and> last_applied_index s \<le> li \<and> last_applied_term s \<le> lt"

lemma follower_request_votes_run:
  "follower_request_votes (vote_request T a li lt ts) s =
     (let u = in_term T s; g = gives_vote li lt u; v = sent (vote_message (PyStr a) g u) u
      in (Inr (clock s (ticks v)), v\<lparr>voted_for := PyStr a, ticks := Suc (ticks v)\<rparr>))"
proof -
  let ?u = "in_term T s"
  let ?v = "sent (vote_message (PyStr a) (gives_vote li lt ?u) ?u) ?u"
  have c: "clock ?u = clock s"
    by (simp add: in_term_def)
  have "wp (follower_request_votes (vote_request T a li lt ts))
      (\<lambda>x t. x = clock s (ticks ?v) \<and> t = ?v\<lparr>voted_for := PyStr a, ticks := Suc (ticks ?v)\<rparr>)
      (\<lambda>_ _. False) s"
    by (auto simp: follower_request_votes_def vote_request_def vote_test_def wp in_term_def gives_vote_def)
  from wp_total [OF this] show ?thesis
    by (auto simp: Let_def)
qed

lemma empty_inbox_read:
  "l_messages (node_listener s) = [] \<Longrightarrow> get_message s = (Inr None, s)"
  by (simp add: get_message_def Listener_get_message_def queue_get_nowait_def py_run parse_json_message_def)

lemma timed_out_follower:
  assumes "l_messages (node_listener s) = []" and "clock s (ticks s) - mrh > election_timeout s"
  shows "follower_iteration mrh s = (Inr Return, s\<lparr>ticks := Suc (ticks s), current_role := Candidate\<rparr>)"
  using assms by (simp add: follower_iteration_def py_run empty_inbox_read time_time_def set_current_role_def)

section \<open>Properties\<close>

text \<open>
  C21. The vote of a follower: it moves to the term of the request if that is higher,
  grants its vote exactly when it has not voted in the term and the candidate's committed
  index and term are both at least its own, answers in its own term, and records the
  candidate as the one it voted for whether it granted the vote or not.
\<close>

theorem vote_decision:
  "follower_request_votes (vote_request T a li lt ts) s =
     (let u = in_term T s; g = gives_vote li lt u; v = sent (vote_message (PyStr a) g u) u
      in (Inr (clock s (ticks v)), v\<lparr>voted_for := PyStr a, ticks := Suc (ticks v)\<rparr>))"
  by (rule follower_request_votes_run)

text \<open>
  A refusal uses up the vote: after it has answered one request of a term, granted or
  refused, a follower refuses every other request of that term and of earlier ones, from
  whichever candidate and however complete its log is.
\<close>

theorem refusal_uses_up_the_vote:
  assumes "follower_request_votes (vote_request T a li lt ts) s = (r, s')" and "T' \<le> current_term s'"
  shows "\<exists>v. t_messages (node_talker (snd (follower_request_votes (vote_request T' b li' lt' ts') s')))
      = t_messages (node_talker s') @ [v] \<and> granted_ballot v = None"
proof -
  have voted: "voted_for s' \<noteq> PyNone"
    using assms(1) by (auto simp: follower_request_votes_run Let_def)
  have u: "in_term T' s' = s'"
    using assms(2) by (simp add: in_term_def)
  with voted show ?thesis
    by (simp add: follower_request_votes_run u Let_def gives_vote_def)
qed

theorem refusal_uses_up_the_vote_witness:
  "\<exists>s'. snd (follower_request_votes (vote_request 2 ''h:1'' (- 1) 0 PyNone) (trio_node ''node2'')) = s'
     \<and> (\<exists>v. t_messages (node_talker (snd (follower_request_votes (vote_request 2 ''h:3'' 5 9 PyNone) s')))
          = t_messages (node_talker s') @ [v] \<and> granted_ballot v = None)"
proof -
  obtain r s' where s': "follower_request_votes (vote_request 2 ''h:1'' (- 1) 0 PyNone) (trio_node ''node2'') = (r, s')"
    by force
  then have "2 \<le> current_term s'"
    by (auto simp: follower_request_votes_run Let_def in_term_def fresh_node_def)
  from refusal_uses_up_the_vote [OF s' this] s' show ?thesis
    by simp
qed

text \<open>
  A node that hears nothing stands for election: a follower with an empty inbox whose
  clock has passed its timeout is a candidate two steps later, in the next term, with its
  own vote, having queued its request to everybody and then that vote.
\<close>

theorem silence_starts_an_election:
  assumes "\<not> terminate s" and "current_role s = Follower" and "l_messages (node_listener s) = []"
    and "clock s (ticks s) - mrh > election_timeout s"
  shows "\<exists>el t u w. thread_steps 2 (InFollower mrh, s) = (InCandidate el, t)
     \<and> votes_for_me el = 0 \<and> current_role t = Candidate
     \<and> current_term t = current_term s + 1 \<and> voted_for t = PyStr (my_id s)
     \<and> current_term u = current_term t \<and> current_term w = current_term t
     \<and> t_messages (node_talker t) = t_messages (node_talker s)
         @ [jsonify (request_vote_message PyNone u), jsonify (vote_message (PyStr (my_id s)) True w)]"
proof -
  let ?s1 = "s\<lparr>ticks := Suc (ticks s), current_role := Candidate\<rparr>"
  let ?u = "?s1\<lparr>voted_for := PyNone, current_term := current_term s + 1\<rparr>"
  let ?w = "sent (request_vote_message PyNone ?u) ?u"
  have one: "thread_step (InFollower mrh, s) = (Dispatch, ?s1)"
    using assms(1,2) timed_out_follower [OF assms(3,4)]
    by (simp add: thread_step_def in_role_def after_iteration_def py_run)
  have "wp (run_step Dispatch) (\<lambda>c t. \<exists>el. c = InCandidate el \<and> votes_for_me el = 0
      \<and> current_role t = Candidate \<and> current_term t = current_term s + 1 \<and> voted_for t = PyStr (my_id s)
      \<and> t_messages (node_talker t) = t_messages (node_talker s)
         @ [jsonify (request_vote_message PyNone ?u), jsonify (vote_message (PyStr (my_id s)) True ?w)])
      (\<lambda>_ _. False) ?s1"
    using assms by (simp add: run_dispatch_def candidate_start_def wp)
  from wp_total [OF this] obtain el t where two: "thread_step (Dispatch, ?s1) = (InCandidate el, t)"
    "votes_for_me el = 0" "current_role t = Candidate" "current_term t = current_term s + 1"
    "voted_for t = PyStr (my_id s)"
    "t_messages (node_talker t) = t_messages (node_talker s)
         @ [jsonify (request_vote_message PyNone ?u), jsonify (vote_message (PyStr (my_id s)) True ?w)]"
    by (auto simp: thread_step_def)
  have "thread_steps 2 (InFollower mrh, s) = (InCandidate el, t)"
    by (simp add: numeral_2_eq_2 one two(1))
  with two show ?thesis
    by (intro exI [of _ el] exI [of _ t] exI [of _ ?u] exI [of _ ?w]) simp
qed

theorem silence_starts_an_election_witness:
  "\<exists>el t u w. thread_steps 2 (InFollower (- 1), trio_node ''node1'') = (InCandidate el, t)
     \<and> votes_for_me el = 0 \<and> current_role t = Candidate
     \<and> current_term t = current_term (trio_node ''node1'') + 1
     \<and> voted_for t = PyStr (my_id (trio_node ''node1''))
     \<and> current_term u = current_term t \<and> current_term w = current_term t
     \<and> t_messages (node_talker t) = t_messages (node_talker (trio_node ''node1''))
         @ [jsonify (request_vote_message PyNone u),
            jsonify (vote_message (PyStr (my_id (trio_node ''node1''))) True w)]"
  by (rule silence_starts_an_election) (simp_all add: fresh_node_def Listener_init_def)

text \<open>
  C22. Stopping ends the thread: two steps after \<open>stop\<close>, wherever the thread is, it has
  left its loops without touching the node again, unless it had died before.
\<close>

theorem stop_ends_the_thread:
  "thread_steps (n + 2) (c, RaftNode_stop s) =
     ((case c of Crashed e \<Rightarrow> Crashed e | _ \<Rightarrow> Stopped), RaftNode_stop s)"
proof -
  have stop: "terminate (RaftNode_stop s)"
    by (simp add: RaftNode_stop_def)
  have dispatch: "thread_step (Dispatch, RaftNode_stop s) = (Stopped, RaftNode_stop s)"
    using stop by (simp add: thread_step_def run_dispatch_def py_run)
  have leave: "thread_step (d, RaftNode_stop s) = (Dispatch, RaftNode_stop s)"
    if "\<And>e. d \<noteq> Crashed e" "d \<noteq> Stopped" "d \<noteq> Dispatch" for d
    using that stop by (cases d) (auto simp: thread_step_def in_role_def py_run)
  have rest: "thread_steps m (Stopped, s') = (Stopped, s')" "thread_steps m (Crashed e, s') = (Crashed e, s')" for m s' e
    by (induction m) (simp_all add: thread_step_def py_run)
  have "thread_steps (Suc m) (Dispatch, RaftNode_stop s) = (Stopped, RaftNode_stop s)" for m
    by (simp add: dispatch rest)
  then show ?thesis
    using leave [of c] dispatch by (cases c) (simp_all add: rest numeral_2_eq_2)
qed

text \<open>
  A paused node takes no part: it leaves the loop it is in and then stays as it is,
  for any number of steps, until it is unpaused; nothing is read, sent or changed.
\<close>

theorem paused_node_idles:
  assumes "\<not> terminate s" and "c \<noteq> Stopped" and "\<not> (\<exists>e. c = Crashed e)"
  shows "thread_steps (Suc n) (c, snd (pause s)) = (Dispatch, snd (pause s))"
proof -
  let ?s = "snd (pause s)"
  have s: "\<not> terminate ?s" "current_role ?s = Paused"
    using assms(1) by (simp_all add: pause_def set_current_role_def py_run)
  have dispatch: "thread_step (Dispatch, ?s) = (Dispatch, ?s)"
    using s by (simp add: thread_step_def run_dispatch_def check_role_def py_run)
  have "thread_step (c, ?s) = (Dispatch, ?s)"
    using assms(2,3) s dispatch by (cases c) (auto simp: thread_step_def in_role_def py_run)
  moreover have "thread_steps n (Dispatch, ?s) = (Dispatch, ?s)"
    by (induction n) (simp_all add: dispatch)
  ultimately show ?thesis
    by simp
qed

theorem paused_node_idles_witness:
  "thread_steps (Suc 9) (InFollower 0, snd (pause (trio_node ''node1''))) = (Dispatch, snd (pause (trio_node ''node1'')))"
  by (rule paused_node_idles) (simp_all add: fresh_node_def)

end
