(* ===== verification/Raft_Steps.thy ===== *)
theory Raft_Steps
  imports Raft_Ballots
begin

text \<open>
  One step of a thread, seen from the election: which ballots it grants, what it does to
  the role and the term, which heartbeats it sends and what it takes from its inbox.
\<close>

section \<open>Relations for the methods\<close>

definition same_standing :: "raft_node \<Rightarrow> raft_node \<Rightarrow> bool" where
  "same_standing s t \<longleftrightarrow> current_term t = current_term s \<and> current_role t = current_role s"

interpretation standing: replication_frame same_standing
  by unfold_locales (auto simp: same_standing_def)

definition same_inbox :: "raft_node \<Rightarrow> raft_node \<Rightarrow> bool" where
  "same_inbox s t \<longleftrightarrow> node_listener t = node_listener s"

interpretation inbox: replication_frame same_inbox
  by unfold_locales (auto simp: same_inbox_def)

definition no_new_leader :: "raft_node \<Rightarrow> raft_node \<Rightarrow> bool" where
  "no_new_leader s t \<longleftrightarrow> (current_role t = Leader \<longrightarrow> current_role s = Leader)"

interpretation unled: electorate_frame no_new_leader
  by unfold_locales (auto simp: no_new_leader_def)

text \<open>Messages only leave the inbox from its head.\<close>

definition takes_messages :: "raft_node \<Rightarrow> raft_node \<Rightarrow> bool" where
  "takes_messages s t \<longleftrightarrow>
     (\<exists>k. l_messages (node_listener t) = drop k (l_messages (node_listener s)))"

interpretation taking: thread_frame takes_messages
proof unfold_locales
  fix s t u
  assume "takes_messages s t" and "takes_messages t u"
  then show "takes_messages s u"
    by (auto simp: takes_messages_def)
next
  show "takes_messages s s" for s
    by (auto simp: takes_messages_def intro!: exI [of _ 0])
next
  show "takes_messages s (received q s)" if "l_messages (node_listener s) = v # q" for s v q
    using that by (auto simp: takes_messages_def intro!: exI [of _ 1])
qed (auto simp: takes_messages_def intro!: exI [of _ 0])

section \<open>Heartbeats\<close>

definition is_heartbeat :: "message \<Rightarrow> bool" where
  "is_heartbeat m \<longleftrightarrow>
     py_eq_int (msg_direction m) MessageDirection_Request \<and> py_eq_int (msg_type m) MessageType_Heartbeat"

definition beat_of :: "message \<Rightarrow> int option" where
  "beat_of m = (if is_heartbeat m then (case msg_term m of PyInt t \<Rightarrow> Some t | _ \<Rightarrow> None) else None)"

definition heartbeat_term :: "pyval \<Rightarrow> int option" where
  "heartbeat_term v =
     (case parse_json_message v of Inr (Some m) \<Rightarrow> beat_of m | _ \<Rightarrow> None)"

lemma heartbeat_term_jsonify: "well_classed m \<Longrightarrow> heartbeat_term (jsonify m) = beat_of m"
  by (simp add: heartbeat_term_def parse_jsonify_message del: jsonify.simps)

lemma beat_of_messages [simp]:
  "beat_of (heartbeat_message s) = Some (current_term s)"
  "beat_of (vote_message c g s) = None"
  "beat_of (request_vote_message r s) = None"
  "beat_of (append_message i t e r s) = None"
  "beat_of (committal_message r s) = None"
  "beat_of (ack_message r g s) = None"
  "beat_of (forward_message r e s) = None"
  by (simp_all add: beat_of_def is_heartbeat_def message_defs message_type_defs)

lemma heartbeat_term_sent [simp]:
  "heartbeat_term (jsonify (heartbeat_message s)) = Some (current_term s)"
  "heartbeat_term (jsonify (vote_message c g s)) = None"
  "heartbeat_term (jsonify (request_vote_message r s)) = None"
  "heartbeat_term (jsonify (append_message i t e r s)) = None"
  "heartbeat_term (jsonify (committal_message r s)) = None"
  "heartbeat_term (jsonify (ack_message r g s)) = None"
  "heartbeat_term (jsonify (forward_message r e s)) = None"
  by (simp_all only: heartbeat_term_jsonify well_classed_messages beat_of_messages)

definition no_beats :: "raft_node \<Rightarrow> raft_node \<Rightarrow> bool" where
  "no_beats s t \<longleftrightarrow>
     (\<exists>vs. t_messages (node_talker t) = t_messages (node_talker s) @ vs
        \<and> list_all (\<lambda>v. heartbeat_term v = None) vs)"

lemma no_beats_sent: "heartbeat_term (jsonify m) = None \<Longrightarrow> no_beats s (sent m s)"
  by (auto simp: no_beats_def intro!: exI [of _ "[jsonify m]"])

lemma no_beats_quiet:
  "t_messages (node_talker t) = t_messages (node_talker s) \<Longrightarrow> no_beats s t"
  by (auto simp: no_beats_def intro!: exI [of _ "[]"])

lemma no_beats_trans: "no_beats s t \<Longrightarrow> no_beats t u \<Longrightarrow> no_beats s u"
  by (fastforce simp: no_beats_def)

interpretation silent: member_frame no_beats
proof unfold_locales
  fix s t u
  assume "no_beats s t" and "no_beats t u"
  then show "no_beats s u" by (rule no_beats_trans)
next
  show "no_beats s ((sent (vote_message c g s) s)\<lparr>voted_for := c\<rparr>)" for s c g
    by (rule no_beats_trans [OF no_beats_sent no_beats_quiet]) simp_all
qed ((rule no_beats_sent heartbeat_term_sent)+ | (rule no_beats_quiet; simp))+

section \<open>Ballots of one iteration\<close>

abbreviation keeps :: "(raft_node \<Rightarrow> raft_node \<Rightarrow> bool) \<Rightarrow> 'a raft \<Rightarrow> raft_node \<Rightarrow> bool" where
  "keeps R m s \<equiv> wp m (\<lambda>_. R s) (\<lambda>_. R s) s"

text \<open>Every message in the inbox that parses names its sender.\<close>

definition named_inbox :: "raft_node \<Rightarrow> bool" where
  "named_inbox n \<longleftrightarrow>
     list_all (\<lambda>v. \<forall>m. parse_json_message v = Inr (Some m) \<longrightarrow> msg_sender m \<noteq> PyNone)
       (l_messages (node_listener n))"

lemma named_inbox_ok: "node_ok ids n \<Longrightarrow> named_inbox n"
proof -
  have "msg_sender m \<noteq> PyNone" if "wf_json ids v" "parse_json_message v = Inr (Some m)" for v m
    using wf_json_parse [OF that(1)] that(2) by (cases m) auto
  then show "node_ok ids n \<Longrightarrow> named_inbox n"
    by (auto simp: named_inbox_def node_ok_def list_all_iff)
qed

lemma keeps_bnd_ballots:
  assumes "always one_ballot m" and "always same_inbox m" and "named_inbox s"
    and "\<And>a t. named_inbox t \<Longrightarrow> keeps one_ballot (f a) t"
  shows "keeps one_ballot (bnd m f) s"
proof -
  have "wp m (\<lambda>_ t. one_ballot s t \<and> same_inbox s t) (\<lambda>_ t. one_ballot s t \<and> same_inbox s t) s"
    by (intro wp_conj [THEN iffD2] conjI alwaysD assms)
  then show ?thesis
    unfolding wp_bnd
  proof (rule wp_mono)
    fix a t
    assume t: "one_ballot s t \<and> same_inbox s t"
    then have "named_inbox t"
      using assms(3) by (simp add: named_inbox_def same_inbox_def)
    then show "wp (f a) (\<lambda>_. one_ballot s) (\<lambda>_. one_ballot s) t"
      using t by (intro wp_mono [OF assms(4)]) (auto intro: one_ballot_trans)
  qed simp
qed

lemma keeps_receive_ballots:
  assumes "named_inbox s" and none: "always one_ballot (f None)"
    and some: "\<And>m. msg_sender m \<noteq> PyNone \<Longrightarrow> always one_ballot (f (Some m))"
  shows "keeps one_ballot (bnd get_message f) s"
proof (cases "l_messages (node_listener s)")
  case Nil
  then show ?thesis
    using alwaysD [OF none, of s] by (simp add: wp)
next
  case (Cons v q)
  then have recv: "one_ballot s (received q s)"
    by (rule votes.on_receive)
  have "wp (f im) (\<lambda>_. one_ballot s) (\<lambda>_. one_ballot s) (received q s)"
    if "parse_json_message v = Inr im" for im
  proof (rule wp_mono [OF alwaysD])
    show "always one_ballot (f im)"
    proof (cases im)
      case (Some m)
      then show ?thesis
        using assms(1) Cons that by (auto simp: named_inbox_def intro: some)
    qed (simp add: none)
  qed (use recv one_ballot_trans in blast)+
  with Cons recv show ?thesis
    by (simp add: wp)
qed

lemma follower_iteration_ballots:
  "named_inbox s \<Longrightarrow> keeps one_ballot (follower_iteration mrh) s"
  unfolding follower_iteration_def
  by (rule keeps_receive_ballots)
     (auto intro!: votes.bnd_frame votes.ret_frame votes.gets_frame votes.seq_frame votes.small
        votes.set_current_role votes_follower_handle)

lemma leader_round_ballots: "named_inbox s \<Longrightarrow> keeps one_ballot (leader_round mrh) s"
  unfolding leader_round_def seq_def
  by (rule keeps_bnd_ballots [OF votes.gets_frame inbox.gets_frame], assumption,
      rule keeps_bnd_ballots [OF votes.for_each_frame inbox.for_each_frame],
      rule votes.leader_resend_node, rule inbox.leader_resend_node, assumption,
      rule keeps_receive_ballots)
     (auto simp: seq_def intro!: votes.bnd_frame votes.ret_frame votes.option_frame votes.flow_intro
        votes.small votes_leader_handle votes.broadcast_append_entries)

lemma heartbeat_if_due_frames:
  "always one_ballot (leader_send_heartbeat_if_due mrh)"
  "always same_inbox (leader_send_heartbeat_if_due mrh)"
  "always same_standing (leader_send_heartbeat_if_due mrh)"
proof -
  have "one_ballot s ((sent (heartbeat_message s) s)\<lparr>ticks := n\<rparr>)" for s n
    by (rule votes.frame_trans [OF one_ballot_sent votes.on_ticks]) simp
  moreover have "one_ballot s (sent (heartbeat_message s') s)" for s s'
    by (rule one_ballot_sent) simp
  ultimately show "always one_ballot (leader_send_heartbeat_if_due mrh)"
    unfolding leader_send_heartbeat_if_due_def
    by (intro votes.bnd_frame votes.small votes.gets_frame votes.if_frame votes.seq_frame votes.ret_frame)
       (simp add: always_def wp)
  show "always same_inbox (leader_send_heartbeat_if_due mrh)"
    "always same_standing (leader_send_heartbeat_if_due mrh)"
    by (simp_all add: leader_send_heartbeat_if_due_def always_def wp same_inbox_def same_standing_def)
qed

lemma leader_iteration_ballots: "named_inbox s \<Longrightarrow> keeps one_ballot (leader_iteration mrh) s"
  unfolding leader_iteration_def
  by (rule keeps_bnd_ballots [OF heartbeat_if_due_frames(1,2)]) (auto intro: leader_round_ballots)

lemma leader_start_ballots: "always one_ballot leader_start"
proof -
  have "always one_ballot send_heartbeat"
    by (simp add: always_def wp one_ballot_sent)
  then show ?thesis
    unfolding leader_start_def by (intro votes.seq_frame votes.leader_take_over)
qed

section \<open>The role and the term of a leader\<close>

text \<open>An iteration that stays in the loop keeps both; one that leaves it has stood down.\<close>

definition stays_or_stands_down :: "raft_node \<Rightarrow> 'a flow \<Rightarrow> raft_node \<Rightarrow> bool" where
  "stays_or_stands_down s fl t =
     (case fl of Return \<Rightarrow> current_role t = Follower | Continue _ \<Rightarrow> same_standing s t)"

lemma standing_bnd:
  assumes "always same_standing m"
    and "\<And>a t. wp (f a) (stays_or_stands_down t) (\<lambda>_ _. True) t"
  shows "wp (bnd m f) (stays_or_stands_down s) (\<lambda>_ _. True) s"
  unfolding wp_bnd
proof (rule wp_mono [OF alwaysD [OF assms(1)]])
  fix a t
  assume t: "same_standing s t"
  show "wp (f a) (stays_or_stands_down s) (\<lambda>_ _. True) t"
    by (rule wp_mono [OF assms(2)])
       (use t in \<open>auto simp: stays_or_stands_down_def same_standing_def split: flow.splits\<close>)
qed simp

lemma standing_ret: "wp (ret (Continue x)) (stays_or_stands_down s) (\<lambda>_ _. True) s"
  by (simp add: wp stays_or_stands_down_def same_standing_def)

lemma leader_handle_standing: "wp (leader_handle m) (stays_or_stands_down s) (\<lambda>_ _. True) s"
proof -
  have "wp (leader_request_votes m) (stays_or_stands_down u) (\<lambda>_ _. True) u" for u
    by (simp add: leader_request_votes_def wp stays_or_stands_down_def same_standing_def)
  moreover have "wp (seq (leader_acknowledge m) (ret (Continue ()))) (stays_or_stands_down u) (\<lambda>_ _. True) u" for u
    unfolding seq_def by (rule standing_bnd [OF standing.leader_acknowledge standing_ret])
  moreover have "wp (bnd (lift_result r) (\<lambda>e. seq (broadcast_append_entries e) (ret (Continue ()))))
      (stays_or_stands_down u) (\<lambda>_ _. True) u" for r u
    unfolding seq_def
    by (intro standing_bnd standing.lift_result_frame standing.broadcast_append_entries standing_ret)
  ultimately show ?thesis
    unfolding leader_handle_def by (simp add: standing_ret)
qed

lemma leader_iteration_standing: "wp (leader_iteration mrh) (stays_or_stands_down s) (\<lambda>_ _. True) s"
proof -
  have get: "always same_standing get_message"
    by (simp add: always_def wp same_standing_def)
  have cont: "wp (bnd get_client_request (\<lambda>cr. bnd (case cr of None \<Rightarrow> ret () | Some e \<Rightarrow> broadcast_append_entries e)
      (\<lambda>_. ret (Continue x)))) (stays_or_stands_down t) (\<lambda>_ _. True) t" for x :: rat and t
    by (intro standing_bnd standing.small standing.option_frame standing.ret_frame
          standing.broadcast_append_entries standing_ret)
  have handled: "wp (bnd (case im of None \<Rightarrow> ret (Continue ()) | Some m \<Rightarrow> leader_handle m) (\<lambda>fl.
      case fl of Return \<Rightarrow> ret Return
      | Continue _ \<Rightarrow> bnd get_client_request (\<lambda>cr. bnd (case cr of None \<Rightarrow> ret () | Some e \<Rightarrow> broadcast_append_entries e)
          (\<lambda>_. ret (Continue x))))) (stays_or_stands_down t) (\<lambda>_ _. True) t" for im and x :: rat and t
  proof -
    have "wp (case im of None \<Rightarrow> ret (Continue ()) | Some m \<Rightarrow> leader_handle m) (stays_or_stands_down t) (\<lambda>_ _. True) t"
      by (cases im) (simp_all add: standing_ret leader_handle_standing)
    then show ?thesis
      unfolding wp_bnd [of "case im of None \<Rightarrow> _ | Some m \<Rightarrow> _ m"]
    proof (rule wp_mono)
      fix fl u
      assume "stays_or_stands_down t fl u"
      then show "wp (case fl of Return \<Rightarrow> ret Return
          | Continue _ \<Rightarrow> bnd get_client_request (\<lambda>cr. bnd (case cr of None \<Rightarrow> ret () | Some e \<Rightarrow> broadcast_append_entries e)
          (\<lambda>_. ret (Continue x)))) (stays_or_stands_down t) (\<lambda>_ _. True) u"
        using cont [of x u]
        by (cases fl) (auto simp: wp_ret stays_or_stands_down_def same_standing_def elim!: wp_mono split: flow.splits)
    qed simp
  qed
  show ?thesis
    unfolding leader_iteration_def leader_round_def seq_def
    by (intro standing_bnd [OF heartbeat_if_due_frames(3)] standing_bnd [OF standing.gets_frame]
          standing_bnd [OF standing.for_each_frame] standing.leader_resend_node standing_bnd [OF get] handled)
qed

section \<open>Heartbeats of one iteration\<close>

definition beats_own_term :: "raft_node \<Rightarrow> raft_node \<Rightarrow> bool" where
  "beats_own_term s t \<longleftrightarrow>
     (\<exists>vs. t_messages (node_talker t) = t_messages (node_talker s) @ vs
        \<and> list_all (\<lambda>v. heartbeat_term v \<in> {None, Some (current_term s)}) vs)"

lemma beats_then_silent: "beats_own_term s t \<Longrightarrow> no_beats t u \<Longrightarrow> beats_own_term s u"
  by (fastforce simp: beats_own_term_def no_beats_def list_all_iff)

lemma beats_sent: "beats_own_term s ((sent (heartbeat_message s') s))" if "current_term s' = current_term s"
  using that by (auto simp: beats_own_term_def intro!: exI [of _ "[jsonify (heartbeat_message s')]"])

lemma keeps_bnd_beats:
  assumes "keeps beats_own_term m s" and "\<And>a. always no_beats (f a)"
  shows "keeps beats_own_term (bnd m f) s"
  unfolding wp_bnd
  by (rule wp_mono [OF assms(1)], rule wp_mono [OF alwaysD [OF assms(2)]])
     (auto intro: beats_then_silent)

lemma leader_iteration_beats: "keeps beats_own_term (leader_iteration mrh) s"
proof -
  have "keeps beats_own_term (leader_send_heartbeat_if_due mrh) s"
    by (auto simp: leader_send_heartbeat_if_due_def wp beats_own_term_def
        intro!: exI [of _ "[jsonify (heartbeat_message (s\<lparr>ticks := Suc (ticks s)\<rparr>))]"] exI [of _ "[]"])
  then show ?thesis
    unfolding leader_iteration_def by (rule keeps_bnd_beats) (rule silent.leader_round)
qed

lemma leader_start_beats: "keeps beats_own_term leader_start s"
  unfolding leader_start_def seq_def
  by (rule keeps_bnd_beats [OF _ silent.leader_take_over]) (simp add: wp beats_sent)

section \<open>One iteration of a candidate\<close>

definition freed :: "raft_node \<Rightarrow> raft_node \<Rightarrow> bool" where
  "freed s t \<longleftrightarrow>
     t_messages (node_talker t) = t_messages (node_talker s) \<and> current_term t = current_term s
     \<and> my_id t = my_id s
     \<and> (\<exists>v q. l_messages (node_listener s) = v # q \<and> heartbeat_term v = Some (current_term s))"

lemma candidate_handle_outcome:
  assumes "msg_sender m \<noteq> PyNone" and t: "py_as_int (msg_term m) = Inr tm"
  shows "wp (candidate_handle el m) (\<lambda>fl t.
      (\<exists>el'. fl = Continue el' \<and> t = s \<and> votes_for_me el' = votes_for_me el + of_bool (grants_vote m))
      \<or> (fl = Return \<and> t = s\<lparr>current_role := Leader\<rparr> \<and> has_majority s (votes_for_me el + of_bool (grants_vote m)))
      \<or> (fl = Return \<and> current_role t = Follower \<and> one_ballot s t)
      \<or> (fl = Return \<and> current_role t = Follower \<and> is_heartbeat m \<and> tm = current_term s
         \<and> node_talker t = node_talker s \<and> current_term t = current_term s \<and> my_id t = my_id s))
    (\<lambda>_ _. True) s"
proof -
  have vote: "one_ballot s ((sent (vote_message (msg_sender m) True (s\<lparr>voted_for := PyNone, current_term := tm\<rparr>))
      (s\<lparr>voted_for := PyNone, current_term := tm\<rparr>))\<lparr>voted_for := msg_sender m, current_role := Follower\<rparr>)"
    if "current_term s < tm"
    by (rule one_ballot_stand_down [OF that assms(1)])
  have heard: "one_ballot s (s\<lparr>voted_for := PyNone, current_term := tm, leader_id := l, current_role := Follower\<rparr>)"
    if "current_term s < tm" for l
    by (rule one_ballot_trans [OF one_ballot_new_term [OF that]], rule one_ballot_quiet) simp_all
  show ?thesis
    using vote heard t
    by (auto simp: candidate_handle_def candidate_vote_def candidate_request_votes_def
        candidate_heartbeat_def grants_vote_def is_heartbeat_def wp MessageDirection_Request_def
        MessageDirection_Response_def)
qed

text \<open>What the candidate counts: whether the message at the head of its inbox grants a vote.\<close>

definition counted :: "raft_node \<Rightarrow> int" where
  "counted s =
     (case l_messages (node_listener s) of
        [] \<Rightarrow> 0
      | v # q \<Rightarrow> (if granted_ballot v = None then 0 else 1))"

definition quiet_step :: "raft_node \<Rightarrow> raft_node \<Rightarrow> bool" where
  "quiet_step s t \<longleftrightarrow>
     t_messages (node_talker t) = t_messages (node_talker s) \<and> current_term t = current_term s
     \<and> voted_for t = voted_for s \<and> my_id t = my_id s
     \<and> l_messages (node_listener t) = tl (l_messages (node_listener s))"

lemma quiet_one_ballot: "quiet_step s t \<Longrightarrow> one_ballot s t"
  by (rule one_ballot_quiet) (simp_all add: quiet_step_def)

lemma wf_json_vote:
  assumes "wf_json ids v" and "parse_json_message v = Inr (Some m)"
  shows "msg_sender m \<noteq> PyNone" and "\<exists>t. py_as_int (msg_term m) = Inr t \<and> msg_term m = PyInt t"
    and "granted_ballot v = None \<longleftrightarrow> \<not> grants_vote m"
    and "heartbeat_term v = beat_of m"
proof -
  have m: "wf_message ids m"
    using wf_json_parse [OF assms(1)] assms(2) by auto
  then show "msg_sender m \<noteq> PyNone" and t: "\<exists>t. py_as_int (msg_term m) = Inr t \<and> msg_term m = PyInt t"
    by (cases m; auto elim!: is_int_cases)+
  show "heartbeat_term v = beat_of m"
    by (simp add: heartbeat_term_def assms(2))
  have "\<exists>c. msg_receiver m = PyStr c" if "grants_vote m"
    using that m by (cases m) (auto simp: grants_vote_def message_type_defs elim!: is_member_cases is_int_cases)
  with t show "granted_ballot v = None \<longleftrightarrow> \<not> grants_vote m"
    by (auto simp: granted_ballot_def assms(2))
qed

definition candidate_outcome :: "election \<Rightarrow> raft_node \<Rightarrow> election flow \<Rightarrow> raft_node \<Rightarrow> bool" where
  "candidate_outcome el s fl t \<longleftrightarrow>
     (\<exists>el'. fl = Continue el' \<and> votes_for_me el' = votes_for_me el + counted s \<and> quiet_step s t
        \<and> current_role t = current_role s)
     \<or> (fl = Return \<and> quiet_step s t \<and> current_role t = Candidate)
     \<or> (fl = Return \<and> quiet_step s t \<and> current_role t = Leader
        \<and> has_majority s (votes_for_me el + counted s))
     \<or> (fl = Return \<and> current_role t = Follower \<and> (one_ballot s t \<or> freed s t))"

lemma has_majority_received [simp]: "has_majority (received q s) v = has_majority s v"
  by (simp add: has_majority_def)

lemma candidate_timeout_outcome:
  assumes "votes_for_me el' = votes_for_me el + counted s" and "quiet_step s u" and "current_role u = current_role s"
  shows "wp (bnd time_time (\<lambda>now. bnd (gets election_timeout) (\<lambda>et.
         if now - time_election_going el' > et then seq (set_current_role Candidate) (ret Return)
         else ret (Continue el')))) (candidate_outcome el s) (\<lambda>_ _. True) u"
  using assms by (simp add: wp candidate_outcome_def quiet_step_def)

lemma candidate_iteration_outcome:
  assumes ok: "node_ok ids s"
  shows "wp (candidate_iteration el) (candidate_outcome el s) (\<lambda>_ _. True) s"
proof (cases "l_messages (node_listener s)")
  case Nil
  then have "counted s = 0" and "quiet_step s s"
    by (simp_all add: counted_def quiet_step_def)
  with Nil show ?thesis
    unfolding candidate_iteration_def
    by (simp add: wp_bnd [of get_message] wp_get_message wp_bnd [of "ret _"] wp_ret
        candidate_timeout_outcome [unfolded wp_bnd [of time_time]] wp_bnd [of time_time])
next
  case (Cons v q)
  with ok have v: "wf_json ids v"
    by (simp add: node_ok_def)
  from wf_json_parse [OF this] obtain m where m: "parse_json_message v = Inr (Some m)"
    by blast
  note vote = wf_json_vote [OF v m]
  obtain tm where tm: "py_as_int (msg_term m) = Inr tm" "msg_term m = PyInt tm"
    using vote(2) by blast
  let ?u = "received q s"
  have quiet: "quiet_step s ?u" and same: "current_role ?u = current_role s"
    by (simp_all add: quiet_step_def Cons)
  have count: "counted s = of_bool (grants_vote m)"
    using vote(3) Cons by (simp add: counted_def)
  have ballot: "one_ballot s t" if "one_ballot ?u t" for t
    using that quiet_one_ballot [OF quiet] by (rule one_ballot_trans [rotated])
  have free: "freed s t" if "is_heartbeat m" "tm = current_term ?u" "node_talker t = node_talker ?u"
      "current_term t = current_term ?u" "my_id t = my_id ?u" for t
    using that vote(4) tm Cons by (simp add: freed_def beat_of_def)
  have "wp (bnd (candidate_handle el m) (\<lambda>fl. case fl of Return \<Rightarrow> ret Return
      | Continue el' \<Rightarrow> bnd time_time (\<lambda>now. bnd (gets election_timeout) (\<lambda>et.
         if now - time_election_going el' > et then seq (set_current_role Candidate) (ret Return)
         else ret (Continue el'))))) (candidate_outcome el s) (\<lambda>_ _. True) ?u"
    unfolding wp_bnd [of "candidate_handle el m"]
  proof (rule wp_mono [OF candidate_handle_outcome [OF vote(1) tm(1)]], elim disjE exE conjE, goal_cases)
    case (1 fl t el')
    then show ?case
      using candidate_timeout_outcome [of el' el s ?u] quiet same count by simp
  next
    case (2 fl t)
    then show ?case
      using quiet count by (simp add: wp_ret candidate_outcome_def quiet_step_def)
  next
    case (3 fl t)
    then show ?case
      using ballot by (simp add: wp_ret candidate_outcome_def)
  next
    case (4 fl t)
    then show ?case
      using free by (simp add: wp_ret candidate_outcome_def)
  qed simp
  then show ?thesis
    unfolding candidate_iteration_def
    by (simp add: wp_bnd [of get_message] wp_get_message Cons m)
qed

section \<open>One step of the thread\<close>

definition leads :: "control \<Rightarrow> raft_node \<Rightarrow> bool" where
  "leads c n \<longleftrightarrow> current_role n = Leader \<or> (\<exists>mrh. c = InLeader mrh)"

text \<open>What is proved of the runs that return holds of a step of a well-formed thread.\<close>

lemma thread_step_wp:
  assumes "thread_ok ids (c, n)" and "thread_step (c, n) = (c', n')"
    and "wp (run_step c) Q (\<lambda>_ _. True) n"
  shows "Q c' n'"
  using run_step_ok [OF assms(1)] assms(2,3)
  by (auto simp: thread_step_def wp_def split: prod.splits sum.splits)

text \<open>The run of one step, by the control point it starts from.\<close>

lemma run_step_cases:
  assumes dispatch: "c = Dispatch \<Longrightarrow> wp run_dispatch Q E n"
    and follower: "\<And>mrh. c = InFollower mrh \<Longrightarrow> current_role n = Follower \<Longrightarrow>
      wp (follower_iteration mrh) (\<lambda>fl. Q (case fl of Return \<Rightarrow> Dispatch | Continue l \<Rightarrow> InFollower l)) E n"
    and candidate: "\<And>el. c = InCandidate el \<Longrightarrow> current_role n = Candidate \<Longrightarrow>
      wp (candidate_iteration el) (\<lambda>fl. Q (case fl of Return \<Rightarrow> Dispatch | Continue l \<Rightarrow> InCandidate l)) E n"
    and leader: "\<And>mrh. c = InLeader mrh \<Longrightarrow> current_role n = Leader \<Longrightarrow>
      wp (leader_iteration mrh) (\<lambda>fl. Q (case fl of Return \<Rightarrow> Dispatch | Continue l \<Rightarrow> InLeader l)) E n"
    and rest: "Q Dispatch n" "c = Stopped \<Longrightarrow> Q Stopped n" "\<And>e. c = Crashed e \<Longrightarrow> Q (Crashed e) n"
  shows "wp (run_step c) Q E n"
  using assms by (cases c) (simp_all add: in_role_def after_iteration_def wp)

lemma candidate_start_wp:
  "wp candidate_start (\<lambda>el t. votes_for_me el = 0 \<and> current_term t = current_term s + 1
     \<and> voted_for t = PyStr (my_id s) \<and> current_role t = current_role s
     \<and> node_listener t = node_listener s \<and> my_id t = my_id s
     \<and> (\<exists>vs. t_messages (node_talker t) = t_messages (node_talker s) @ vs
          \<and> ballots vs = [(current_term t, my_id s)])) (\<lambda>_ _. True) s"
  by (simp add: candidate_start_def wp)

lemma candidate_start_ballots: "keeps one_ballot candidate_start s"
proof -
  let ?s = "s\<lparr>voted_for := PyNone, current_term := current_term s + 1\<rparr>"
  let ?t = "sent (request_vote_message PyNone ?s) ?s"
  have "one_ballot s ?s"
    by (rule one_ballot_new_term) simp
  moreover have "one_ballot ?s ?t"
    by (rule one_ballot_sent) simp
  moreover have "one_ballot ?t ((sent (vote_message (PyStr (my_id ?t)) True ?t) ?t)\<lparr>voted_for := PyStr (my_id ?t)\<rparr>)"
    by (rule one_ballot_vote) simp_all
  ultimately have "one_ballot s ((sent (vote_message (PyStr (my_id ?t)) True ?t) ?t)\<lparr>voted_for := PyStr (my_id ?t)\<rparr>)"
    by (blast intro: one_ballot_trans)
  then show ?thesis
    by (simp add: candidate_start_def wp) (rule one_ballot_trans [OF _ votes.on_ticks])
qed

lemma thread_step_ballots:
  assumes ok: "thread_ok ids (c, n)" and step: "thread_step (c, n) = (c', n')"
  shows "one_ballot n n' \<or> ((\<exists>el. c = InCandidate el) \<and> c' = Dispatch \<and> freed n n')"
proof -
  have nok: "node_ok ids n" and named: "named_inbox n"
    using ok named_inbox_ok by (auto simp: thread_ok_def)
  let ?Q = "\<lambda>c' n'. one_ballot n n' \<or> ((\<exists>el. c = InCandidate el) \<and> c' = Dispatch \<and> freed n n')"
  have "wp (run_step c) ?Q (\<lambda>_ _. True) n"
  proof (rule run_step_cases, goal_cases)
    case 1
    show ?case
      using votes.frame_refl candidate_start_ballots [of n] alwaysD [OF leader_start_ballots, of n]
      by (auto simp: run_dispatch_def wp votes.on_ticks elim!: wp_mono)
  next
    case (2 mrh)
    show ?case by (rule wp_mono [OF follower_iteration_ballots [OF named]]) auto
  next
    case (3 el)
    then show ?case
      by (intro wp_mono [OF candidate_iteration_outcome [OF nok]])
         (auto simp: candidate_outcome_def dest: quiet_one_ballot)
  next
    case (4 mrh)
    show ?case by (rule wp_mono [OF leader_iteration_ballots [OF named]]) auto
  qed (auto simp: votes.frame_refl)
  from thread_step_wp [OF ok step this] show ?thesis .
qed

text \<open>A thread is a candidate by starting an election, or by going on with it.\<close>

lemma thread_step_candidate:
  assumes ok: "thread_ok ids (c, n)" and step: "thread_step (c, n) = (InCandidate el', n')"
  shows "(c = Dispatch \<and> votes_for_me el' = 0 \<and> current_term n' = current_term n + 1
        \<and> node_listener n' = node_listener n
        \<and> (\<exists>vs. t_messages (node_talker n') = t_messages (node_talker n) @ vs
              \<and> ballots vs = [(current_term n', my_id n)]))
     \<or> (\<exists>el. c = InCandidate el \<and> votes_for_me el' = votes_for_me el + counted n \<and> quiet_step n n')"
proof -
  have nok: "node_ok ids n"
    using ok by (simp add: thread_ok_def)
  let ?Q = "\<lambda>c' n'. \<forall>el'. c' = InCandidate el' \<longrightarrow>
     (c = Dispatch \<and> votes_for_me el' = 0 \<and> current_term n' = current_term n + 1
        \<and> node_listener n' = node_listener n
        \<and> (\<exists>vs. t_messages (node_talker n') = t_messages (node_talker n) @ vs
              \<and> ballots vs = [(current_term n', my_id n)]))
     \<or> (\<exists>el. c = InCandidate el \<and> votes_for_me el' = votes_for_me el + counted n \<and> quiet_step n n')"
  have "wp (run_step c) ?Q (\<lambda>_ _. True) n"
  proof (rule run_step_cases, goal_cases)
    case 1
    then show ?case
      using candidate_start_wp [of n] wp_trivial [of leader_start n]
      by (auto simp: run_dispatch_def wp elim!: wp_mono)
  next
    case (3 el)
    then show ?case
      by (intro wp_mono [OF candidate_iteration_outcome [OF nok]]) (auto simp: candidate_outcome_def)
  qed (auto intro!: wp_mono [OF wp_trivial] split: flow.splits)
  from thread_step_wp [OF ok step this] show ?thesis by blast
qed

text \<open>A thread leads by having led in the same term, or by winning an election in it.\<close>

lemma thread_step_leads:
  assumes ok: "thread_ok ids (c, n)" and step: "thread_step (c, n) = (c', n')" and leads: "leads c' n'"
  shows "(leads c n \<and> current_term n' = current_term n)
     \<or> (\<exists>el. c = InCandidate el \<and> c' = Dispatch \<and> quiet_step n n'
          \<and> has_majority n (votes_for_me el + counted n))"
proof -
  have nok: "node_ok ids n"
    using ok by (simp add: thread_ok_def)
  let ?Q = "\<lambda>c' n'. leads c' n' \<longrightarrow> (leads c n \<and> current_term n' = current_term n)
     \<or> (\<exists>el. c = InCandidate el \<and> c' = Dispatch \<and> quiet_step n n'
          \<and> has_majority n (votes_for_me el + counted n))"
  have start: "always same_standing leader_start"
    unfolding leader_start_def
    by (intro standing.seq_frame standing.leader_take_over) (simp add: always_def wp same_standing_def)
  have "wp (run_step c) ?Q (\<lambda>_ _. True) n"
  proof (rule run_step_cases, goal_cases)
    case 1
    then show ?case
      using wp_mono [OF candidate_start_wp [of n]] wp_mono [OF alwaysD [OF start, of n]]
      by (auto simp: run_dispatch_def wp leads_def same_standing_def)
  next
    case (2 mrh)
    show ?case
      by (rule wp_mono [OF alwaysD [OF unled.follower_iteration]])
         (use 2 in \<open>auto simp: leads_def no_new_leader_def split: flow.splits\<close>)
  next
    case (3 el)
    then show ?case
      by (intro wp_mono [OF candidate_iteration_outcome [OF nok]])
         (auto simp: candidate_outcome_def leads_def)
  next
    case (4 mrh)
    show ?case
      by (rule wp_mono [OF leader_iteration_standing])
         (use 4 in \<open>auto simp: leads_def stays_or_stands_down_def same_standing_def split: flow.splits\<close>)
  qed (auto simp: leads_def)
  from thread_step_wp [OF ok step this] leads show ?thesis by blast
qed

text \<open>Heartbeats are sent by a thread that leads, in its own term.\<close>

lemma thread_step_beats:
  assumes ok: "thread_ok ids (c, n)" and step: "thread_step (c, n) = (c', n')"
  shows "\<exists>vs. t_messages (node_talker n') = t_messages (node_talker n) @ vs
     \<and> (\<forall>v \<in> set vs. \<forall>t. heartbeat_term v = Some t \<longrightarrow> leads c n \<and> t = current_term n)"
proof -
  define Q where "Q n' \<longleftrightarrow> no_beats n n' \<or> (beats_own_term n n' \<and> leads c n)" for n'
  have beats: "wp m (\<lambda>_. Q) (\<lambda>_ _. True) n" if "keeps beats_own_term m n" "leads c n" for m :: "'a raft"
    using that by (auto simp: Q_def elim!: wp_mono)
  have quiet: "wp m (\<lambda>_. Q) (\<lambda>_ _. True) n" if "always no_beats m" for m :: "'a raft"
    using alwaysD [OF that, of n] by (auto simp: Q_def elim!: wp_mono)
  have "wp (run_step c) (\<lambda>_. Q) (\<lambda>_ _. True) n"
  proof (rule run_step_cases, goal_cases)
    case 1
    show ?case
      using quiet [OF silent.candidate_start] beats [OF leader_start_beats]
        silent.frame_refl silent.on_ticks
      by (simp add: run_dispatch_def wp leads_def Q_def)
  next
    case (2 mrh)
    show ?case by (rule quiet [OF silent.follower_iteration])
  next
    case (3 el)
    show ?case by (rule quiet [OF silent.candidate_iteration])
  next
    case (4 mrh)
    then show ?case
      by (intro beats leader_iteration_beats) (simp add: leads_def)
  qed (auto simp: Q_def silent.frame_refl)
  from thread_step_wp [OF ok step this] show ?thesis
    by (force simp: Q_def no_beats_def beats_own_term_def list_all_iff)
qed

end
