(* ===== verification/Raft_Election.thy ===== *)
theory Raft_Election
  imports Raft_Steps
begin

text \<open>
  Election safety. A run of the group is observed with two history variables, the votes
  granted and the elections won. As long as no candidate counts a vote granted in another
  term, at most one node is ever elected in a term.
\<close>

section \<open>Quorums\<close>

locale quorum_system =
  fixes voters :: "'v set" and quorum :: "'v set \<Rightarrow> bool"
  assumes finite_voters: "finite voters"
    and quorum_voters: "quorum Q \<Longrightarrow> Q \<subseteq> voters"
    and quorums_meet: "quorum Q \<Longrightarrow> quorum Q' \<Longrightarrow> Q \<inter> Q' \<noteq> {}"
begin

lemma finite_quorum: "quorum Q \<Longrightarrow> finite Q"
  by (rule finite_subset [OF quorum_voters finite_voters])

text \<open>A voter of both quorums that has chosen one value makes the two choices agree.\<close>

lemma one_choice:
  assumes "quorum Q" and "quorum Q'" and "\<And>v. v \<in> Q \<Longrightarrow> choice v = [a]" and "\<And>v. v \<in> Q' \<Longrightarrow> b \<in> set (choice v)"
  shows "a = b"
proof -
  obtain v where "v \<in> Q" "v \<in> Q'"
    using quorums_meet [OF assms(1,2)] by blast
  with assms(3,4) [of v] show ?thesis
    by simp
qed

end

definition majority :: "string list \<Rightarrow> string set \<Rightarrow> bool" where
  "majority ids Q \<longleftrightarrow> Q \<subseteq> set ids \<and> length ids < 2 * card Q"

interpretation members: quorum_system "set ids" "majority ids" for ids
proof unfold_locales
  fix Q Q'
  assume Q: "majority ids Q" "majority ids Q'"
  then have fin: "finite Q" "finite Q'"
    by (auto simp: majority_def intro: finite_subset)
  show "Q \<inter> Q' \<noteq> {}"
  proof
    assume "Q \<inter> Q' = {}"
    then have "card Q + card Q' = card (Q \<union> Q')"
      using fin by (simp add: card_Un_disjoint)
    also have "\<dots> \<le> card (set ids)"
      using Q by (intro card_mono) (auto simp: majority_def)
    also have "\<dots> \<le> length ids"
      by (rule card_length)
    finally show False
      using Q by (simp add: majority_def)
  qed
qed (auto simp: majority_def)

section \<open>History variables\<close>

type_synonym grants = "(string \<times> int \<times> string) list"

definition new_grants :: "string \<Rightarrow> raft_node \<Rightarrow> raft_node \<Rightarrow> grants" where
  "new_grants i n n' =
     map (\<lambda>(t, c). (i, t, c)) (ballots (drop (length (t_messages (node_talker n))) (t_messages (node_talker n'))))"

definition new_leader :: "string \<Rightarrow> raft_node \<Rightarrow> raft_node \<Rightarrow> (string \<times> int) set" where
  "new_leader i n n' =
     (if current_role n \<noteq> Leader \<and> current_role n' = Leader then {(i, current_term n')} else {})"

text \<open>
  What a candidate takes from its inbox next is not a vote granted in another term.
\<close>

definition counts_fresh :: "control \<Rightarrow> raft_node \<Rightarrow> bool" where
  "counts_fresh c n =
     (case c of
        InCandidate el \<Rightarrow>
          (case l_messages (node_listener n) of
             [] \<Rightarrow> True
           | v # q \<Rightarrow> (case granted_ballot v of None \<Rightarrow> True | Some (t, d) \<Rightarrow> t = current_term n))
      | _ \<Rightarrow> True)"

inductive fresh_run ::
  "(pyval \<Rightarrow> pyval) \<Rightarrow> address_book \<Rightarrow> system \<Rightarrow> grants \<Rightarrow> (string \<times> int) set \<Rightarrow> bool"
  for tr ab where
  start: "started ab s \<Longrightarrow> fresh_run tr ab s [] {}"
| thread: "fresh_run tr ab s G L \<Longrightarrow> i \<in> set (member_addresses ab) \<Longrightarrow>
    counts_fresh (threads s i) (nodes s i) \<Longrightarrow>
    fresh_run tr ab (thread_move i s)
      (G @ new_grants i (nodes s i) (nodes (thread_move i s) i))
      (L \<union> new_leader i (nodes s i) (nodes (thread_move i s) i))"
| env: "fresh_run tr ab s G L \<Longrightarrow> env_step tr (member_addresses ab) s t \<Longrightarrow> fresh_run tr ab t G L"

lemma fresh_run_reachable: "fresh_run tr ab s G L \<Longrightarrow> reachable tr ab s"
  by (induction rule: fresh_run.induct) (blast intro: reachable.intros sys_step.intros)+

definition vote_history :: "grants \<Rightarrow> string \<Rightarrow> int \<Rightarrow> string list" where
  "vote_history G v T = map (\<lambda>(u, t, c). c) (filter (\<lambda>(u, t, c). u = v \<and> t = T) G)"

definition granted_to :: "grants \<Rightarrow> int \<Rightarrow> string \<Rightarrow> nat" where
  "granted_to G T c = length (filter (\<lambda>(u, t, d). t = T \<and> d = c) G)"

lemma vote_history_append [simp]: "vote_history (G @ H) v T = vote_history G v T @ vote_history H v T"
  by (simp add: vote_history_def)

lemma granted_to_append [simp]: "granted_to (G @ H) T c = granted_to G T c + granted_to H T c"
  by (simp add: granted_to_def)

lemma vote_history_new:
  "vote_history (new_grants i n n') v T =
     (if v = i then map snd (filter (\<lambda>b. fst b = T)
        (ballots (drop (length (t_messages (node_talker n))) (t_messages (node_talker n'))))) else [])"
  by (auto simp: vote_history_def new_grants_def filter_map o_def split_def)

lemma granted_to_sum:
  assumes "\<forall>g \<in> set G. fst g \<in> set ids"
  shows "granted_to G T c = (\<Sum>u \<in> set ids. count_list (vote_history G u T) c)"
  using assms
proof (induction G)
  case Nil
  then show ?case by (simp add: granted_to_def vote_history_def)
next
  case (Cons g G)
  obtain u t d where g: "g = (u, t, d)"
    by (cases g)
  have "count_list (vote_history (g # G) w T) c =
      count_list (vote_history G w T) c + (if w = u then (if t = T \<and> d = c then 1 else 0) else 0)" for w
    by (auto simp: vote_history_def g)
  then have "(\<Sum>w \<in> set ids. count_list (vote_history (g # G) w T) c) =
      (\<Sum>w \<in> set ids. count_list (vote_history G w T) c) + (if t = T \<and> d = c then 1 else 0)"
    using Cons.prems g by (simp add: sum.distrib)
  with Cons show ?case
    by (simp add: granted_to_def g)
qed

text \<open>Each voter counts once when none has given a candidate two votes.\<close>

lemma granted_to_card:
  assumes "\<forall>g \<in> set G. fst g \<in> set ids" and "\<And>u. u \<in> set ids \<Longrightarrow> count_list (vote_history G u T) c \<le> 1"
  shows "granted_to G T c \<le> card {u \<in> set ids. c \<in> set (vote_history G u T)}"
proof -
  have "count_list (vote_history G u T) c \<le> (if c \<in> set (vote_history G u T) then 1 else 0)"
    if "u \<in> set ids" for u
    using assms(2) [OF that] by (auto simp: count_notin)
  then have "granted_to G T c \<le> (\<Sum>u \<in> set ids. if c \<in> set (vote_history G u T) then 1 else 0)"
    unfolding granted_to_sum [OF assms(1)] by (rule sum_mono)
  then show ?thesis
    by (simp add: sum.If_cases Int_def)
qed

section \<open>The votes of one node\<close>

definition runs :: "control \<Rightarrow> raft_node \<Rightarrow> int \<Rightarrow> bool" where
  "runs c n T \<longleftrightarrow> (\<exists>el. c = InCandidate el) \<and> current_term n = T"

text \<open>
  \<open>h\<close> is what node \<open>v\<close> has voted in term \<open>T\<close>, and \<open>LT\<close> are the terms that have a leader. A
  node votes once, and then its term is spent, unless it was a candidate that a leader of
  the term has told to stand down: such a node has voted for itself, and may vote again.
\<close>

definition booth :: "int set \<Rightarrow> string \<Rightarrow> control \<Rightarrow> raft_node \<Rightarrow> int \<Rightarrow> string list \<Rightarrow> bool" where
  "booth LT v c n T h \<longleftrightarrow>
     (h \<noteq> [] \<longrightarrow> T \<le> current_term n \<and> (spent n T \<or> (h = [v] \<and> T \<in> LT \<and> \<not> runs c n T)))
     \<and> (runs c n T \<longrightarrow> h = [v] \<and> spent n T)
     \<and> (length h \<le> 1 \<or> (\<exists>x. h = [v, x] \<and> T \<in> LT))"

text \<open>A node whose only vote in the term is \<open>a\<close> and that will not vote in it again.\<close>

definition locked :: "string \<Rightarrow> control \<Rightarrow> raft_node \<Rightarrow> int \<Rightarrow> string list \<Rightarrow> bool" where
  "locked a c n T h \<longleftrightarrow> h = [a] \<and> spent n T \<and> \<not> runs c n T"

lemma spent_term: "spent n T \<Longrightarrow> T \<le> current_term n"
  by (auto simp: spent_def)

lemma booth_mono: "booth LT v c n T h \<Longrightarrow> LT \<subseteq> LT' \<Longrightarrow> booth LT' v c n T h"
  by (auto simp: booth_def)

lemma vote_history_none:
  "t_messages (node_talker n') = t_messages (node_talker n) \<Longrightarrow> vote_history (new_grants i n n') v T = []"
  by (simp add: vote_history_new)

lemma distinct_fst_filter:
  "distinct (map fst bs) \<Longrightarrow>
     filter (\<lambda>b. fst b = T) bs = [] \<or> (\<exists>x. filter (\<lambda>b. fst b = T) bs = [(T, x)])"
  by (induction bs) (auto simp: filter_empty_conv image_iff)

lemma vote_history_one_ballot:
  assumes "one_ballot n n'"
  shows "vote_history (new_grants i n n') i T = [] \<or>
     (\<exists>x. vote_history (new_grants i n n') i T = [x] \<and> \<not> spent n T \<and> spent n' T)"
proof -
  obtain vs where vs: "t_messages (node_talker n') = t_messages (node_talker n) @ vs"
    "distinct (map fst (ballots vs))" "\<forall>T \<in> fst ` set (ballots vs). \<not> spent n T \<and> spent n' T"
    using assms by (auto simp: one_ballot_def)
  have h: "vote_history (new_grants i n n') i T = map snd (filter (\<lambda>b. fst b = T) (ballots vs))"
    by (simp add: vote_history_new vs(1))
  consider "filter (\<lambda>b. fst b = T) (ballots vs) = []" | x where "filter (\<lambda>b. fst b = T) (ballots vs) = [(T, x)]"
    using distinct_fst_filter [OF vs(2)] by blast
  then show ?thesis
  proof cases
    case 2
    then have "(T, x) \<in> set (filter (\<lambda>b. fst b = T) (ballots vs))"
      by simp
    then have "(T, x) \<in> set (ballots vs)"
      by simp
    with vs(3) have "\<not> spent n T \<and> spent n' T"
      by force
    with h 2 show ?thesis by simp
  qed (simp add: h)
qed

lemma one_ballot_spent: "one_ballot n n' \<Longrightarrow> spent n T \<Longrightarrow> spent n' T"
  by (simp add: one_ballot_def)

lemma freed_spent: "freed n n' \<Longrightarrow> T < current_term n \<Longrightarrow> spent n' T"
  by (simp add: freed_def spent_def)

text \<open>The election a thread runs after a step, in terms of the one it ran before.\<close>

lemma thread_step_runs:
  assumes ok: "thread_ok ids (c, n)" and step: "thread_step (c, n) = (c', n')" and runs: "runs c' n' T"
  shows "(T = current_term n + 1 \<and> c = Dispatch \<and> vote_history (new_grants i n n') i T = [my_id n])
     \<or> (runs c n T \<and> quiet_step n n')"
proof -
  obtain el' where el': "c' = InCandidate el'" and T: "current_term n' = T"
    using runs by (auto simp: runs_def)
  from thread_step_candidate [OF ok step [unfolded el']] show ?thesis
  proof (elim disjE exE conjE, goal_cases)
    case (1 vs)
    then show ?thesis
      using T by (simp add: vote_history_new)
  next
    case (2 el)
    then show ?thesis
      using T by (auto simp: runs_def quiet_step_def)
  qed
qed

lemma booth_step:
  assumes ok: "thread_ok ids (c, n)" and step: "thread_step (c, n) = (c', n')"
    and me: "my_id n = i" and booth: "booth LT i c n T h"
    and beats: "\<And>v q t. l_messages (node_listener n) = v # q \<Longrightarrow> heartbeat_term v = Some t \<Longrightarrow> t \<in> LT"
  shows "booth LT i c' n' T (h @ vote_history (new_grants i n n') i T)"
proof -
  let ?h = "vote_history (new_grants i n n') i T"
  note new_run = thread_step_runs [OF ok step, of T i]
  from thread_step_ballots [OF ok step] consider (ballot) "one_ballot n n'"
    | (free) el where "c = InCandidate el" "c' = Dispatch" "freed n n'"
    by blast
  then show ?thesis
  proof cases
    case ballot
    note mono = one_ballot_spent [OF ballot]
    have same: "?h = []" if "runs c n T"
      using vote_history_one_ballot [OF ballot, of i T] booth that by (auto simp: booth_def)
    from vote_history_one_ballot [OF ballot, of i T]
    consider "?h = []" | x where "?h = [x]" "\<not> spent n T" "spent n' T"
      by blast
    then show ?thesis
    proof cases
      case 1
      have "\<not> runs c' n' T \<or> (runs c n T \<and> quiet_step n n')"
        using new_run 1 by auto
      moreover have "T \<le> current_term n'" if "h \<noteq> []"
      proof (cases "spent n T")
        case True
        then show ?thesis using mono spent_term by blast
      next
        case False
        then have "T = current_term n \<and> T \<le> current_term n"
          using that booth by (auto simp: booth_def spent_def)
        moreover have "spent n' (current_term n - 1)"
          by (rule mono) (simp add: spent_def)
        ultimately show ?thesis
          using terms.thread_step [OF step] by (simp add: term_grows_def)
      qed
      ultimately show ?thesis
        using booth mono 1 unfolding booth_def by auto
    next
      case (2 x)
      have "h = [] \<or> (h = [i] \<and> T \<in> LT \<and> T \<le> current_term n)"
        using booth 2 by (auto simp: booth_def)
      moreover have "runs c' n' T \<Longrightarrow> h = [] \<and> x = i"
        using new_run same 2 booth me by (auto simp: booth_def)
      ultimately show ?thesis
        using 2 spent_term by (auto simp: booth_def)
    qed
  next
    case (free el)
    have none: "?h = []"
      using free(3) by (simp add: vote_history_none freed_def)
    have not_runs: "\<not> runs c' n' T"
      by (simp add: runs_def free)
    have "spent n' T \<or> (h = [i] \<and> T \<in> LT)" if "h \<noteq> []"
    proof (cases "T < current_term n")
      case True
      then show ?thesis using freed_spent [OF free(3)] by blast
    next
      case False
      with booth that have T: "T = current_term n"
        by (auto simp: booth_def)
      then have "h = [i]"
        using booth free(1) by (auto simp: booth_def runs_def)
      moreover have "T \<in> LT"
        using free(3) beats T by (auto simp: freed_def)
      ultimately show ?thesis by blast
    qed
    with none not_runs booth free(3) show ?thesis
      by (auto simp: booth_def freed_def)
  qed
qed

lemma locked_step:
  assumes ok: "thread_ok ids (c, n)" and step: "thread_step (c, n) = (c', n')"
    and locked: "locked a c n T h"
  shows "locked a c' n' T (h @ vote_history (new_grants i n n') i T)"
proof -
  have spent: "spent n T" and not_runs: "\<not> runs c n T"
    using locked by (simp_all add: locked_def)
  have "\<not> runs c' n' T"
    using thread_step_runs [OF ok step, of T i] not_runs spent_term [OF spent] by auto
  moreover have "spent n' T \<and> vote_history (new_grants i n n') i T = []"
    using thread_step_ballots [OF ok step]
  proof (elim disjE exE conjE)
    assume "one_ballot n n'"
    then show ?thesis
      using vote_history_one_ballot [of n n' i T] spent one_ballot_spent by blast
  next
    fix el
    assume el: "c = InCandidate el" and free: "freed n n'"
    then have "T < current_term n"
      using not_runs spent_term [OF spent] by (auto simp: runs_def)
    then have "spent n' T"
      by (rule freed_spent [OF free])
    with free show ?thesis
      by (simp add: vote_history_none freed_def)
  qed
  ultimately show ?thesis
    using locked by (simp add: locked_def)
qed

section \<open>Votes on their way\<close>

definition ballots_for :: "int \<Rightarrow> string \<Rightarrow> pyval list \<Rightarrow> nat" where
  "ballots_for T v ms = length (filter (\<lambda>b. b = (T, v)) (ballots ms))"

lemma ballots_for_simps [simp]:
  "ballots_for T v [] = 0"
  "ballots_for T v (m # ms) = (if granted_ballot m = Some (T, v) then 1 else 0) + ballots_for T v ms"
  "ballots_for T v (ms @ ns) = ballots_for T v ms + ballots_for T v ns"
  by (simp_all add: ballots_for_def split: option.split)

abbreviation outbox :: "raft_node \<Rightarrow> pyval list" where
  "outbox n \<equiv> t_messages (node_talker n)"

abbreviation inbox :: "raft_node \<Rightarrow> pyval list" where
  "inbox n \<equiv> l_messages (node_listener n)"

text \<open>Queued at the talker of \<open>j\<close>, or on the connection from \<open>j\<close> to \<open>v\<close>.\<close>

definition sent_by :: "system \<Rightarrow> int \<Rightarrow> string \<Rightarrow> string \<Rightarrow> nat" where
  "sent_by s T v j = ballots_for T v (outbox (nodes s j)) + ballots_for T v (wires s j v)"

definition pending :: "string list \<Rightarrow> system \<Rightarrow> int \<Rightarrow> string \<Rightarrow> nat" where
  "pending ids s T v = (\<Sum>j \<in> set ids. sent_by s T v j) + ballots_for T v (inbox (nodes s v))"

definition tally :: "control \<Rightarrow> raft_node \<Rightarrow> int \<Rightarrow> int" where
  "tally c n T =
     (case c of InCandidate el \<Rightarrow> if current_term n = T then votes_for_me el else 0 | _ \<Rightarrow> 0)"

text \<open>Every message queued or on its way.\<close>

definition flight :: "string list \<Rightarrow> system \<Rightarrow> pyval set" where
  "flight ids s =
     (\<Union>i \<in> set ids. set (outbox (nodes s i)) \<union> set (inbox (nodes s i)) \<union> (\<Union>j \<in> set ids. set (wires s i j)))"

lemma flightI:
  "i \<in> set ids \<Longrightarrow> x \<in> set (outbox (nodes s i)) \<Longrightarrow> x \<in> flight ids s"
  "i \<in> set ids \<Longrightarrow> x \<in> set (inbox (nodes s i)) \<Longrightarrow> x \<in> flight ids s"
  "i \<in> set ids \<Longrightarrow> j \<in> set ids \<Longrightarrow> x \<in> set (wires s i j) \<Longrightarrow> x \<in> flight ids s"
  by (auto simp: flight_def)

lemma flightE:
  assumes "x \<in> flight ids s"
  obtains (out) i where "i \<in> set ids" "x \<in> set (outbox (nodes s i))"
    | (inb) i where "i \<in> set ids" "x \<in> set (inbox (nodes s i))"
    | (wire) i j where "i \<in> set ids" "j \<in> set ids" "x \<in> set (wires s i j)"
  using assms by (auto simp: flight_def)

lemma sum_change:
  fixes f g :: "'a \<Rightarrow> nat"
  assumes "finite A" and "j \<in> A" and "\<And>x. x \<in> A \<Longrightarrow> x \<noteq> j \<Longrightarrow> g x = f x"
  shows "sum g A + f j = sum f A + g j"
proof -
  have "sum g (A - {j}) = sum f (A - {j})"
    by (rule sum.cong) (use assms(3) in auto)
  then show ?thesis
    using assms(1,2) by (simp add: sum.remove [of A j])
qed

text \<open>
  The steps of the environment: threads, terms and votes stay, no vote and no heartbeat is
  made, and what enters an inbox is addressed to the node or to everybody.
\<close>

definition env_effect :: "string list \<Rightarrow> system \<Rightarrow> system \<Rightarrow> bool" where
  "env_effect ids s t \<longleftrightarrow>
     threads t = threads s
     \<and> (\<forall>v. current_term (nodes t v) = current_term (nodes s v)
          \<and> voted_for (nodes t v) = voted_for (nodes s v)
          \<and> (current_role (nodes t v) = Leader \<longrightarrow> current_role (nodes s v) = Leader))
     \<and> (\<forall>v T. pending ids t T v \<le> pending ids s T v)
     \<and> flight ids t \<subseteq> flight ids s
     \<and> (\<forall>v \<in> set ids. \<forall>m \<in> set (inbox (nodes t v)). m \<in> set (inbox (nodes s v)) \<or> addressed_to v m = Inr True)"

lemma env_effect_node:
  assumes "inbox n = inbox (nodes s i)" and "outbox n = outbox (nodes s i)"
    and "current_term n = current_term (nodes s i)" and "voted_for n = voted_for (nodes s i)"
    and "current_role n = Leader \<Longrightarrow> current_role (nodes s i) = Leader"
  shows "env_effect ids s (set_node i n s)"
proof -
  let ?t = "set_node i n s"
  have boxes: "outbox (nodes ?t j) = outbox (nodes s j)" "inbox (nodes ?t j) = inbox (nodes s j)" for j
    using assms(1,2) by (simp_all add: set_node_def)
  have "wires ?t = wires s"
    by (simp add: set_node_def)
  then have "pending ids ?t T v = pending ids s T v" "flight ids ?t = flight ids s" for T v
    by (simp_all add: pending_def sent_by_def flight_def boxes)
  moreover have "threads ?t = threads s"
    by (simp add: set_node_def)
  moreover have "current_term (nodes ?t v) = current_term (nodes s v)
      \<and> voted_for (nodes ?t v) = voted_for (nodes s v)
      \<and> (current_role (nodes ?t v) = Leader \<longrightarrow> current_role (nodes s v) = Leader)" for v
    using assms(3-5) by (simp add: set_node_def)
  ultimately show ?thesis
    by (simp add: env_effect_def boxes)
qed

lemma env_effect_talk:
  assumes i: "i \<in> set ids" and ok: "sys_ok ids s" and tr: "json_wire tr"
    and step: "Talker_run_step b (node_talker (nodes s i)) = (tk, out)" and D: "D \<subseteq> set ids"
  shows "env_effect ids s
    ((set_node i ((nodes s i)\<lparr>node_talker := tk\<rparr>) s)\<lparr>wires := publish_to tr i D out (wires s)\<rparr>)"
proof (cases out)
  case None
  have "t_messages tk = outbox (nodes s i)"
    using step None by (auto simp: Talker_run_step_def queue_get_nowait_def split: talker_pc.splits if_splits list.splits)
  then show ?thesis
    using env_effect_node [of "(nodes s i)\<lparr>node_talker := tk\<rparr>" s i ids]
    by (simp add: None publish_to_def set_node_def)
next
  case (Some m)
  have out: "outbox (nodes s i) = m # t_messages tk"
    using step Some by (auto simp: Talker_run_step_def queue_get_nowait_def split: talker_pc.splits if_splits list.splits)
  have "wf_json ids m"
    using node_sound_talker(2) [OF sys_ok_node [OF ok i] step] Some by blast
  then have tm: "tr m = m"
    using tr by (auto simp: json_wire_def wf_json_def)
  let ?t = "(set_node i ((nodes s i)\<lparr>node_talker := tk\<rparr>) s)\<lparr>wires := publish_to tr i D out (wires s)\<rparr>"
  have "sent_by ?t T v j \<le> sent_by s T v j" for T v j
    by (auto simp: sent_by_def set_node_def publish_to_def Some tm out)
  then have "pending ids ?t T v \<le> pending ids s T v" for T v
    by (auto simp: pending_def set_node_def intro!: add_mono sum_mono)
  moreover have "flight ids ?t \<subseteq> flight ids s"
  proof
    fix x
    assume "x \<in> flight ids ?t"
    then show "x \<in> flight ids s"
    proof (cases rule: flightE)
      case (out j)
      then have "x \<in> set (outbox (nodes s j))"
        by (auto simp: set_node_def \<open>outbox (nodes s i) = m # t_messages tk\<close> split: if_splits)
      with out(1) show ?thesis by (rule flightI)
    next
      case (inb j)
      then have "x \<in> set (inbox (nodes s j))"
        by (simp add: set_node_def split: if_splits)
      with inb(1) show ?thesis by (rule flightI)
    next
      case (wire j k)
      then have "x \<in> set (wires s j k) \<or> x = m"
        by (auto simp: publish_to_def Some tm split: if_splits)
      moreover have "m \<in> flight ids s"
        by (rule flightI(1) [OF i]) (simp add: out)
      ultimately show ?thesis
        using flightI(3) [OF wire(1,2)] by blast
    qed
  qed
  ultimately show ?thesis
    by (simp add: env_effect_def set_node_def)
qed

lemma listener_step_inbox:
  "l_messages (Listener_run_step v l) = l_messages l
     \<or> (\<exists>m. v = Some m \<and> addressed_to (l_my_id l) m = Inr True \<and> l_messages (Listener_run_step v l) = l_messages l @ [m])"
  by (auto simp: Listener_run_step_def queue_put_def split: listener_pc.split option.split sum.split bool.split)

lemma env_effect_listen:
  assumes ij: "i \<in> set ids" "j \<in> set ids" and ok: "sys_ok ids s" and wire: "wires s j i = m # q"
  shows "env_effect ids s
    ((set_node i ((nodes s i)\<lparr>node_listener := Listener_run_step (Some m) (node_listener (nodes s i))\<rparr>) s)
       \<lparr>wires := (wires s)(j := (wires s j)(i := q))\<rparr>)"
proof -
  let ?l = "Listener_run_step (Some m) (node_listener (nodes s i))"
  let ?t = "(set_node i ((nodes s i)\<lparr>node_listener := ?l\<rparr>) s)\<lparr>wires := (wires s)(j := (wires s j)(i := q))\<rparr>"
  have me: "l_my_id (node_listener (nodes s i)) = i"
    using sys_ok_node [OF ok ij(1)] by (simp add: node_sound_def)
  have inb: "l_messages ?l = inbox (nodes s i) \<or> (addressed_to i m = Inr True \<and> l_messages ?l = inbox (nodes s i) @ [m])"
    using listener_step_inbox [of "Some m" "node_listener (nodes s i)"] me by auto
  have "pending ids ?t T v \<le> pending ids s T v" for T v
  proof (cases "v = i")
    case False
    then have "sent_by ?t T v x = sent_by s T v x" for x
      by (simp add: sent_by_def set_node_def)
    with False show ?thesis
      by (simp add: pending_def set_node_def)
  next
    case True
    have j: "sent_by s T v j = (if granted_ballot m = Some (T, v) then 1 else 0) + sent_by ?t T v j"
      using True wire by (simp add: sent_by_def set_node_def)
    have rest: "sent_by ?t T v x = sent_by s T v x" if "x \<noteq> j" for x
      using that by (simp add: sent_by_def set_node_def)
    have "sum (sent_by ?t T v) (set ids) + sent_by s T v j = sum (sent_by s T v) (set ids) + sent_by ?t T v j"
      by (rule sum_change [OF _ ij(2)]) (simp_all add: rest)
    moreover have "ballots_for T v (inbox (nodes ?t v)) \<le>
        ballots_for T v (inbox (nodes s v)) + (if granted_ballot m = Some (T, v) then 1 else 0)"
      using inb True by (auto simp: set_node_def)
    ultimately show ?thesis
      using j by (auto simp: pending_def)
  qed
  moreover have "flight ids ?t \<subseteq> flight ids s"
  proof
    fix x
    assume "x \<in> flight ids ?t"
    moreover have old: "x \<in> flight ids s" if "x \<in> set (wires s j i)" for x
      using that by (rule flightI(3) [OF ij(2,1)])
    ultimately show "x \<in> flight ids s"
    proof (cases rule: flightE)
      case (out k)
      then have "x \<in> set (outbox (nodes s k))"
        by (simp add: set_node_def split: if_splits)
      with out(1) show ?thesis by (rule flightI)
    next
      case (inb k)
      then have "x \<in> set (inbox (nodes s k)) \<or> x = m"
        using \<open>l_messages ?l = _ \<or> _\<close> by (auto simp: set_node_def split: if_splits)
      then show ?thesis
        using flightI(2) [OF inb(1)] old wire by auto
    next
      case (wire a b)
      then have "x \<in> set (wires s a b) \<or> x \<in> set q"
        by (auto split: if_splits)
      then show ?thesis
        using flightI(3) [OF wire(1,2)] old \<open>wires s j i = m # q\<close> by auto
    qed
  qed
  moreover have "x \<in> set (inbox (nodes s v)) \<or> addressed_to v x = Inr True"
    if "x \<in> set (inbox (nodes ?t v))" for v x
    using that inb by (auto simp: set_node_def split: if_splits)
  ultimately show ?thesis
    by (simp add: env_effect_def set_node_def)
qed

lemma env_step_effect:
  assumes "env_step tr ids s t" and ok: "sys_ok ids s" and tr: "json_wire tr"
  shows "env_effect ids s t"
  using assms(1)
proof cases
  case (talk i D b tk out)
  show ?thesis
    unfolding talk(1) by (rule env_effect_talk [OF talk(2) ok tr talk(4,3)])
next
  case (listen i j m q)
  show ?thesis
    unfolding listen(1) by (rule env_effect_listen [OF listen(2,3) ok listen(4)])
next
  case (listen_nothing i)
  show ?thesis
    unfolding listen_nothing(1)
    using listener_step_inbox [of None "node_listener (nodes s i)"] by (intro env_effect_node) auto
next
  case (request i x k)
  show ?thesis
    unfolding request(1) by (rule env_effect_node) (simp_all add: client_request_def py_run)
next
  case (pausing i)
  show ?thesis
    unfolding pausing(1) by (rule env_effect_node) (simp_all add: pause_def set_current_role_def py_run)
next
  case (unpausing i)
  show ?thesis
    unfolding unpausing(1)
    by (rule env_effect_node) (simp_all add: un_pause_def set_current_role_def check_role_def py_run split: if_splits)
next
  case (stopping i)
  show ?thesis
    unfolding stopping(1)
    by (rule env_effect_node) (simp_all add: RaftNode_stop_def Talker_stop_def Listener_stop_def)
qed

section \<open>The invariant of a run\<close>

definition booths_ok :: "string list \<Rightarrow> system \<Rightarrow> grants \<Rightarrow> (string \<times> int) set \<Rightarrow> bool" where
  "booths_ok ids s G L \<longleftrightarrow>
     (\<forall>g \<in> set G. fst g \<in> set ids)
     \<and> (\<forall>v \<in> set ids. \<forall>T. booth (snd ` L) v (threads s v) (nodes s v) T (vote_history G v T))"

definition counts_ok :: "string list \<Rightarrow> system \<Rightarrow> grants \<Rightarrow> bool" where
  "counts_ok ids s G \<longleftrightarrow>
     (\<forall>v \<in> set ids. \<forall>T. 0 \<le> tally (threads s v) (nodes s v) T
        \<and> tally (threads s v) (nodes s v) T + int (pending ids s T v) \<le> int (granted_to G T v))"

definition elected_ok :: "string list \<Rightarrow> system \<Rightarrow> grants \<Rightarrow> (string \<times> int) set \<Rightarrow> bool" where
  "elected_ok ids s G L \<longleftrightarrow>
     (\<forall>(a, T) \<in> L. a \<in> set ids \<and> (length ids = 1 \<or>
        (\<exists>Q. majority ids Q \<and> (\<forall>v \<in> Q. locked a (threads s v) (nodes s v) T (vote_history G v T)))))"

definition leads_ok :: "string list \<Rightarrow> system \<Rightarrow> (string \<times> int) set \<Rightarrow> bool" where
  "leads_ok ids s L \<longleftrightarrow>
     (\<forall>v \<in> set ids. leads (threads s v) (nodes s v) \<longrightarrow> (v, current_term (nodes s v)) \<in> L)"

definition beats_ok :: "string list \<Rightarrow> system \<Rightarrow> (string \<times> int) set \<Rightarrow> bool" where
  "beats_ok ids s L \<longleftrightarrow> (\<forall>m \<in> flight ids s. \<forall>T. heartbeat_term m = Some T \<longrightarrow> T \<in> snd ` L)"

definition inboxes_ok :: "string list \<Rightarrow> system \<Rightarrow> bool" where
  "inboxes_ok ids s \<longleftrightarrow>
     (\<forall>v \<in> set ids. \<forall>m \<in> set (inbox (nodes s v)). \<forall>T d. granted_ballot m = Some (T, d) \<longrightarrow> d = v)"

definition election_ok :: "string list \<Rightarrow> system \<Rightarrow> grants \<Rightarrow> (string \<times> int) set \<Rightarrow> bool" where
  "election_ok ids s G L \<longleftrightarrow>
     sys_ok ids s \<and> booths_ok ids s G L \<and> counts_ok ids s G \<and> elected_ok ids s G L
     \<and> leads_ok ids s L \<and> beats_ok ids s L \<and> inboxes_ok ids s
     \<and> (\<forall>v \<in> set ids. lib_old_div (nodes s v) (int (length ids)) 2 = int (length ids) div 2)"

lemma elected_unique:
  assumes "elected_ok ids s G L" and "(a, T) \<in> L" and "(b, T) \<in> L"
  shows "a = b"
proof (cases "length ids = 1")
  case True
  then obtain x where "ids = [x]"
    by (cases ids) auto
  moreover have "a \<in> set ids" "b \<in> set ids"
    using assms by (auto simp: elected_ok_def)
  ultimately show ?thesis
    by simp
next
  case False
  obtain Q Q' where Q: "majority ids Q" "\<forall>v \<in> Q. locked a (threads s v) (nodes s v) T (vote_history G v T)"
    and Q': "majority ids Q'" "\<forall>v \<in> Q'. locked b (threads s v) (nodes s v) T (vote_history G v T)"
    using assms(1) bspec [OF assms(1) [unfolded elected_ok_def] assms(2)]
      bspec [OF assms(1) [unfolded elected_ok_def] assms(3)] False by auto
  show ?thesis
    by (rule members.one_choice [OF Q(1) Q'(1), of "\<lambda>v. vote_history G v T"])
       (use Q(2) Q'(2) in \<open>auto simp: locked_def\<close>)
qed

subsection \<open>The environment\<close>

lemma addressed_ballot:
  assumes "wf_json ids m" and "addressed_to v m = Inr True" and "granted_ballot m = Some (T, d)"
  shows "d = v"
proof -
  obtain r where m: "m = jsonify r" and r: "wf_message ids r"
    using assms(1) by (auto simp: wf_json_def)
  have "ballot_of r = Some (T, d)"
    using assms(3) granted_ballot_jsonify [OF wf_message_classed [OF r]] by (simp add: m)
  then have "msg_receiver r = PyStr d"
    by (auto simp: ballot_of_def split: if_splits pyval.splits)
  moreover have "addressed_to v m = Inr (msg_receiver r = PyStr v \<or> msg_receiver r = PyNone)"
    by (cases r) (simp_all add: m addressed_to_def jsonify_defs py_subscript_def)
  ultimately show ?thesis
    using assms(2) by simp
qed

lemma election_env:
  assumes ok: "election_ok ids s G L" and step: "env_step tr ids s t" and tr: "json_wire tr"
  shows "election_ok ids t G L"
proof -
  have sys: "sys_ok ids s"
    using ok by (simp add: election_ok_def)
  have sys': "sys_ok ids t"
    by (rule env_step_ok [OF step sys tr])
  from env_step_effect [OF step sys tr]
  have threads: "threads t = threads s" and cterm: "\<And>v. current_term (nodes t v) = current_term (nodes s v)"
    and voted: "\<And>v. voted_for (nodes t v) = voted_for (nodes s v)"
    and role: "\<And>v. current_role (nodes t v) = Leader \<Longrightarrow> current_role (nodes s v) = Leader"
    and pend: "\<And>v T. pending ids t T v \<le> pending ids s T v" and flight: "flight ids t \<subseteq> flight ids s"
    and inb: "\<And>v m. v \<in> set ids \<Longrightarrow> m \<in> set (inbox (nodes t v)) \<Longrightarrow>
      m \<in> set (inbox (nodes s v)) \<or> addressed_to v m = Inr True"
    by (auto simp: env_effect_def)
  have spent: "spent (nodes t v) T = spent (nodes s v) T" and runs: "runs c (nodes t v) T = runs c (nodes s v) T"
    for c v T
    by (simp_all add: spent_def runs_def cterm voted)
  have "booths_ok ids t G L"
    using ok by (simp add: election_ok_def booths_ok_def booth_def spent runs threads cterm)
  moreover have "elected_ok ids t G L"
    using ok by (simp add: election_ok_def elected_ok_def locked_def spent runs threads)
  moreover have "counts_ok ids t G"
    unfolding counts_ok_def
  proof (intro ballI allI)
    fix v T
    assume "v \<in> set ids"
    then have "0 \<le> tally (threads s v) (nodes s v) T"
      "tally (threads s v) (nodes s v) T + int (pending ids s T v) \<le> int (granted_to G T v)"
      using ok by (auto simp: election_ok_def counts_ok_def)
    moreover have "tally (threads t v) (nodes t v) T = tally (threads s v) (nodes s v) T"
      by (cases "threads s v") (simp_all add: tally_def threads cterm)
    ultimately show "0 \<le> tally (threads t v) (nodes t v) T \<and>
        tally (threads t v) (nodes t v) T + int (pending ids t T v) \<le> int (granted_to G T v)"
      using pend [of T v] by simp
  qed
  moreover have "leads_ok ids t L"
    using ok role by (auto simp: election_ok_def leads_ok_def leads_def threads cterm)
  moreover have "beats_ok ids t L"
    using ok flight by (auto simp: election_ok_def beats_ok_def)
  moreover have "inboxes_ok ids t"
    unfolding inboxes_ok_def
  proof (intro ballI allI impI)
    fix v m T d
    assume v: "v \<in> set ids" and m: "m \<in> set (inbox (nodes t v))" and b: "granted_ballot m = Some (T, d)"
    have "wf_json ids m"
      using sys_ok_node [OF sys' v] m by (auto simp: node_sound_def thread_ok_def node_ok_def list_all_iff)
    from addressed_ballot [OF this _ b] inb [OF v m] show "d = v"
      using ok v b by (auto simp: election_ok_def inboxes_ok_def)
  qed
  moreover have "lib_old_div (nodes t v) = lib_old_div (nodes s v)" for v
    using step
    by cases (auto simp: set_node_def client_request_def pause_def un_pause_def set_current_role_def
        check_role_def py_run RaftNode_stop_def)
  ultimately show ?thesis
    using ok sys' by (simp add: election_ok_def)
qed

subsection \<open>A step of a thread\<close>

lemma thread_move_simps:
  assumes "thread_step (threads s i, nodes s i) = (c', n')"
  shows "threads (thread_move i s) = (threads s)(i := c')" "nodes (thread_move i s) = (nodes s)(i := n')"
    "wires (thread_move i s) = wires s"
  using assms by (simp_all add: thread_move_def set_node_def)

lemma booths_step:
  assumes ok: "election_ok ids s G L" and i: "i \<in> set ids"
    and step: "thread_step (threads s i, nodes s i) = (c', n')"
  shows "booths_ok ids (thread_move i s) (G @ new_grants i (nodes s i) n') L"
proof -
  have sound: "node_sound ids i (threads s i) (nodes s i)"
    using ok i by (auto simp: election_ok_def intro: sys_ok_node)
  then have tok: "thread_ok ids (threads s i, nodes s i)" and me: "my_id (nodes s i) = i"
    by (simp_all add: node_sound_def)
  have old: "booth (snd ` L) v (threads s v) (nodes s v) T (vote_history G v T)" if "v \<in> set ids" for v T
    using ok that by (simp add: election_ok_def booths_ok_def)
  have beats: "t \<in> snd ` L" if "inbox (nodes s i) = v # q" "heartbeat_term v = Some t" for v q t
  proof -
    have "v \<in> flight ids s"
      by (rule flightI(2) [OF i]) (simp add: that)
    then show ?thesis
      using ok that(2) by (simp add: election_ok_def beats_ok_def)
  qed
  have "booth (snd ` L) v (threads (thread_move i s) v) (nodes (thread_move i s) v) T
      (vote_history (G @ new_grants i (nodes s i) n') v T)" if "v \<in> set ids" for v T
  proof (cases "v = i")
    case True
    then show ?thesis
      using booth_step [OF tok step me old [OF i] beats] by (simp add: thread_move_simps [OF step])
  next
    case False
    then show ?thesis
      using old [OF that] by (simp add: thread_move_simps [OF step] vote_history_new)
  qed
  moreover have "\<forall>g \<in> set (G @ new_grants i (nodes s i) n'). fst g \<in> set ids"
    using ok i by (auto simp: election_ok_def booths_ok_def new_grants_def)
  ultimately show ?thesis
    by (simp add: booths_ok_def)
qed

lemma elected_step:
  assumes ok: "election_ok ids s G L" and i: "i \<in> set ids"
    and step: "thread_step (threads s i, nodes s i) = (c', n')"
  shows "elected_ok ids (thread_move i s) (G @ new_grants i (nodes s i) n') L"
proof -
  have tok: "thread_ok ids (threads s i, nodes s i)"
    using ok i by (auto simp: election_ok_def node_sound_def dest: sys_ok_node)
  have "locked a (threads (thread_move i s) v) (nodes (thread_move i s) v) T
      (vote_history (G @ new_grants i (nodes s i) n') v T)"
    if "locked a (threads s v) (nodes s v) T (vote_history G v T)" for a v T
    using that locked_step [OF tok step, of a T "vote_history G i T" i]
    by (cases "v = i") (simp_all add: thread_move_simps [OF step] vote_history_new)
  then show ?thesis
    using ok unfolding election_ok_def elected_ok_def by blast
qed

text \<open>Votes granted, on their way and counted: a step grants what it queues, and counts what it takes.\<close>

lemma ballots_for_drop: "ballots_for T v (drop k ms) \<le> ballots_for T v ms"
proof -
  have "ballots_for T v (take k ms @ drop k ms) = ballots_for T v (take k ms) + ballots_for T v (drop k ms)"
    by (rule ballots_for_simps)
  then show ?thesis by simp
qed

lemma granted_to_new:
  assumes "outbox n' = outbox n @ vs"
  shows "granted_to (new_grants i n n') T v = ballots_for T v vs"
  using assms by (simp add: granted_to_def new_grants_def ballots_for_def filter_map o_def split_def prod_eq_iff)

lemma thread_step_outbox:
  assumes "thread_step (c, n) = (c', n')"
  shows "\<exists>vs. outbox n' = outbox n @ vs"
  using authentic.thread_step [OF assms] by (auto simp: sends_as_itself_def)

lemma counts_step:
  assumes ok: "election_ok ids s G L" and i: "i \<in> set ids" and fresh: "counts_fresh (threads s i) (nodes s i)"
    and step: "thread_step (threads s i, nodes s i) = (c', n')"
  shows "counts_ok ids (thread_move i s) (G @ new_grants i (nodes s i) n')"
  unfolding counts_ok_def
proof (intro ballI allI)
  fix v T
  assume v: "v \<in> set ids"
  let ?s = "thread_move i s" and ?n = "nodes s i"
  note moved = thread_move_simps [OF step]
  have tok: "thread_ok ids (threads s i, ?n)"
    using ok i by (auto simp: election_ok_def node_sound_def dest: sys_ok_node)
  have old: "0 \<le> tally (threads s v) (nodes s v) T"
    "tally (threads s v) (nodes s v) T + int (pending ids s T v) \<le> int (granted_to G T v)"
    using ok v by (auto simp: election_ok_def counts_ok_def)
  obtain vs where vs: "outbox n' = outbox ?n @ vs"
    using thread_step_outbox [OF step] by blast
  have "sum (sent_by ?s T v) (set ids) + sent_by s T v i = sum (sent_by s T v) (set ids) + sent_by ?s T v i"
    by (rule sum_change [OF _ i]) (simp_all add: sent_by_def moved)
  then have sum: "sum (sent_by ?s T v) (set ids) = sum (sent_by s T v) (set ids) + ballots_for T v vs"
    by (simp add: sent_by_def moved vs)
  have granted: "granted_to (G @ new_grants i ?n n') T v = granted_to G T v + ballots_for T v vs"
    by (simp add: granted_to_new [OF vs])
  show "0 \<le> tally (threads ?s v) (nodes ?s v) T \<and>
      tally (threads ?s v) (nodes ?s v) T + int (pending ids ?s T v)
        \<le> int (granted_to (G @ new_grants i ?n n') T v)"
  proof (cases "v = i")
    case False
    then show ?thesis
      using old sum granted by (simp add: pending_def moved)
  next
    case v: True
    obtain k where k: "inbox n' = drop k (inbox ?n)"
      using taking.thread_step [OF step] by (auto simp: takes_messages_def)
    have less: "int (pending ids ?s T i) \<le> int (pending ids s T i) + int (ballots_for T i vs)"
      using sum ballots_for_drop [of T i k "inbox ?n"] v by (simp add: pending_def moved k)
    have keep: ?thesis if "tally c' n' T = 0"
      using that old granted less v by (simp add: moved)
    show ?thesis
    proof (cases "\<exists>el'. c' = InCandidate el' \<and> current_term n' = T")
      case False
      then show ?thesis
        by (intro keep) (auto simp: tally_def split: control.split)
    next
      case True
      then obtain el' where c': "c' = InCandidate el'" and T: "current_term n' = T"
        by blast
      from thread_step_candidate [OF tok step [unfolded c']]
      show ?thesis
      proof (elim disjE exE conjE)
        assume "votes_for_me el' = 0"
        then show ?thesis
          by (intro keep) (simp add: tally_def c')
      next
        fix el
        assume c: "threads s i = InCandidate el" and el': "votes_for_me el' = votes_for_me el + counted ?n"
          and quiet: "quiet_step ?n n'"
        have T': "current_term ?n = T"
          using quiet T by (simp add: quiet_step_def)
        have "int (ballots_for T i (tl (inbox ?n))) + counted ?n \<le> int (ballots_for T i (inbox ?n))"
        proof (cases "inbox ?n")
          case Nil
          then show ?thesis by (simp add: counted_def)
        next
          case (Cons m q)
          have "granted_ballot m = None \<or> granted_ballot m = Some (T, i)"
            using fresh ok i c Cons T'
            by (auto simp: counts_fresh_def election_ok_def inboxes_ok_def split: option.splits)
          with Cons show ?thesis
            by (auto simp: counted_def)
        qed
        moreover have "0 \<le> counted ?n"
          by (simp add: counted_def split: list.split)
        moreover have "vs = []"
          using quiet vs by (simp add: quiet_step_def)
        ultimately show ?thesis
          using old granted sum v c c' T T' el' quiet
          by (simp add: pending_def moved tally_def quiet_step_def)
      qed
    qed
  qed
qed

text \<open>A candidate that wins holds a majority of the votes of its term.\<close>

lemma single_vote:
  assumes "booth LT v c n T h" and "a = v \<Longrightarrow> runs c n T"
  shows "count_list h a \<le> 1"
proof (cases "length h \<le> 1")
  case True
  then show ?thesis
    by (cases h) auto
next
  case False
  with assms(1) obtain x where "h = [v, x]"
    by (auto simp: booth_def)
  moreover from this have "a \<noteq> v"
    using assms by (auto simp: booth_def)
  ultimately show ?thesis
    by simp
qed

lemma winner_has_majority:
  assumes ok: "election_ok ids s G L" and i: "i \<in> set ids" and c: "threads s i = InCandidate el"
    and won: "has_majority (nodes s i) (votes_for_me el + counted (nodes s i))"
    and fresh: "counts_fresh (threads s i) (nodes s i)" and many: "length ids \<noteq> 1"
  shows "majority ids {u \<in> set ids. i \<in> set (vote_history G u (current_term (nodes s i)))}"
proof -
  let ?n = "nodes s i" and ?T = "current_term (nodes s i)"
  have num: "current_num_nodes ?n = int (length ids)"
    using ok i by (auto simp: election_ok_def node_sound_def thread_ok_def node_ok_def dest: sys_ok_node)
  have "votes_for_me el + counted ?n > int (length ids) div 2"
    using won many ok i by (simp add: has_majority_def num election_ok_def)
  moreover have "counted ?n \<le> int (ballots_for ?T i (inbox ?n))"
  proof (cases "inbox ?n")
    case Nil
    then show ?thesis by (simp add: counted_def)
  next
    case (Cons m q)
    have "granted_ballot m = None \<or> granted_ballot m = Some (?T, i)"
      using fresh ok i c Cons
      by (auto simp: counts_fresh_def election_ok_def inboxes_ok_def split: option.splits)
    with Cons show ?thesis
      by (auto simp: counted_def)
  qed
  moreover have "tally (threads s i) ?n ?T + int (pending ids s ?T i) \<le> int (granted_to G ?T i)"
    using ok i by (simp add: election_ok_def counts_ok_def)
  then have "votes_for_me el + int (ballots_for ?T i (inbox ?n)) \<le> int (granted_to G ?T i)"
    by (simp add: tally_def c pending_def del: of_nat_sum)
  moreover have "granted_to G ?T i \<le> card {u \<in> set ids. i \<in> set (vote_history G u ?T)}"
  proof (rule granted_to_card)
    show "\<forall>g \<in> set G. fst g \<in> set ids"
      using ok by (simp add: election_ok_def booths_ok_def)
    fix u
    assume u: "u \<in> set ids"
    have booth: "booth (snd ` L) u (threads s u) (nodes s u) ?T (vote_history G u ?T)"
      using ok u by (simp add: election_ok_def booths_ok_def)
    show "count_list (vote_history G u ?T) i \<le> 1"
      by (rule single_vote [OF booth]) (use c in \<open>auto simp: runs_def\<close>)
  qed
  ultimately show ?thesis
    by (simp add: majority_def)
qed

lemma new_leader_step:
  assumes ok: "election_ok ids s G L" and i: "i \<in> set ids" and fresh: "counts_fresh (threads s i) (nodes s i)"
    and step: "thread_step (threads s i, nodes s i) = (c', n')"
    and new: "current_role (nodes s i) \<noteq> Leader" "current_role n' = Leader"
  shows "elected_ok ids (thread_move i s) (G @ new_grants i (nodes s i) n') (L \<union> {(i, current_term n')})"
proof (cases "(i, current_term n') \<in> L")
  case True
  then show ?thesis
    using elected_step [OF ok i step] by (simp add: insert_absorb)
next
  case new_term: False
  let ?n = "nodes s i" and ?T = "current_term n'"
  note moved = thread_move_simps [OF step]
  have tok: "thread_ok ids (threads s i, ?n)"
    using ok i by (auto simp: election_ok_def node_sound_def dest: sys_ok_node)
  have "\<not> (leads (threads s i) ?n \<and> ?T = current_term ?n)"
    using new_term ok i by (auto simp: election_ok_def leads_ok_def)
  moreover have "leads c' n'"
    using new by (simp add: leads_def)
  ultimately obtain el where c: "threads s i = InCandidate el" and c': "c' = Dispatch"
    and quiet: "quiet_step ?n n'" and won: "has_majority ?n (votes_for_me el + counted ?n)"
    using thread_step_leads [OF tok step] by blast
  have T: "current_term ?n = ?T"
    using quiet by (simp add: quiet_step_def)
  have none: "vote_history (new_grants i ?n n') v ?T = []" for v
    using quiet by (simp add: vote_history_none quiet_step_def)
  have "length ids = 1 \<or> (\<exists>Q. majority ids Q \<and> (\<forall>v \<in> Q. locked i (threads (thread_move i s) v)
      (nodes (thread_move i s) v) ?T (vote_history (G @ new_grants i ?n n') v ?T)))"
  proof (cases "length ids = 1")
    case many: False
    let ?Q = "{u \<in> set ids. i \<in> set (vote_history G u ?T)}"
    have Q: "majority ids ?Q"
      using winner_has_majority [OF ok i c won fresh many] by (simp add: T)
    have no_leader: "?T \<notin> snd ` L"
    proof
      assume "?T \<in> snd ` L"
      then obtain b where b: "(b, ?T) \<in> L"
        by auto
      then obtain Q' where "majority ids Q'" "\<And>v. v \<in> Q' \<Longrightarrow> vote_history G v ?T = [b]"
        using ok many by (fastforce simp: election_ok_def elected_ok_def locked_def)
      from members.one_choice [OF this(1) Q, of "\<lambda>v. vote_history G v ?T" b i] this(2) have "b = i"
        by auto
      with b new_term show False by simp
    qed
    have "locked i (threads (thread_move i s) v) (nodes (thread_move i s) v) ?T
        (vote_history (G @ new_grants i ?n n') v ?T)" if "v \<in> ?Q" for v
    proof -
      have booth: "booth (snd ` L) v (threads s v) (nodes s v) ?T (vote_history G v ?T)"
        and voted: "i \<in> set (vote_history G v ?T)"
        using ok that by (auto simp: election_ok_def booths_ok_def)
      have h: "vote_history G v ?T = [i]"
        using booth voted no_leader by (cases "vote_history G v ?T") (auto simp: booth_def)
      have spent: "spent (nodes s v) ?T"
        using booth h no_leader by (simp add: booth_def)
      show ?thesis
      proof (cases "v = i")
        case True
        then show ?thesis
          using h none spent quiet by (simp add: locked_def moved runs_def c' spent_def quiet_step_def)
      next
        case False
        then have "\<not> runs (threads s v) (nodes s v) ?T"
          using booth h by (auto simp: booth_def)
        with False h none spent show ?thesis
          by (simp add: locked_def moved)
      qed
    qed
    with Q show ?thesis
      by blast
  qed simp
  then show ?thesis
    using elected_step [OF ok i step] i by (auto simp: elected_ok_def)
qed

lemma flight_step:
  assumes i: "i \<in> set ids" and step: "thread_step (threads s i, nodes s i) = (c', n')"
    and vs: "outbox n' = outbox (nodes s i) @ vs"
  shows "flight ids (thread_move i s) \<subseteq> flight ids s \<union> set vs"
proof
  note moved = thread_move_simps [OF step]
  fix x
  assume "x \<in> flight ids (thread_move i s)"
  then show "x \<in> flight ids s \<union> set vs"
  proof (cases rule: flightE)
    case (out j)
    then show ?thesis
      using flightI(1) [OF out(1)] by (auto simp: moved vs split: if_splits)
  next
    case (inb j)
    obtain k where "inbox n' = drop k (inbox (nodes s i))"
      using taking.thread_step [OF step] by (auto simp: takes_messages_def)
    then have "x \<in> set (inbox (nodes s j))"
      using inb by (auto simp: moved dest: in_set_dropD split: if_splits)
    with inb(1) show ?thesis
      by (auto intro: flightI)
  next
    case (wire j k)
    then show ?thesis
      by (auto simp: moved intro: flightI)
  qed
qed

lemma election_thread:
  assumes ok: "election_ok ids s G L" and i: "i \<in> set ids" and fresh: "counts_fresh (threads s i) (nodes s i)"
  shows "election_ok ids (thread_move i s)
    (G @ new_grants i (nodes s i) (nodes (thread_move i s) i))
    (L \<union> new_leader i (nodes s i) (nodes (thread_move i s) i))"
proof -
  obtain c' n' where step: "thread_step (threads s i, nodes s i) = (c', n')"
    by force
  note moved = thread_move_simps [OF step]
  let ?s = "thread_move i s" and ?n = "nodes s i"
  let ?L = "L \<union> new_leader i ?n n'" and ?G = "G @ new_grants i ?n n'"
  have tok: "thread_ok ids (threads s i, ?n)"
    using ok i by (auto simp: election_ok_def node_sound_def dest: sys_ok_node)
  have n': "nodes ?s i = n'"
    by (simp add: moved)
  have "booths_ok ids ?s ?G ?L"
    using booths_step [OF ok i step] by (auto simp: booths_ok_def intro: booth_mono)
  moreover have "elected_ok ids ?s ?G ?L"
    using elected_step [OF ok i step] new_leader_step [OF ok i fresh step] by (simp add: new_leader_def)
  moreover have "leads_ok ids ?s ?L"
    unfolding leads_ok_def
  proof (intro ballI impI)
    fix v
    assume v: "v \<in> set ids" and leads: "leads (threads ?s v) (nodes ?s v)"
    show "(v, current_term (nodes ?s v)) \<in> ?L"
    proof (cases "v = i")
      case False
      with v leads ok show ?thesis
        by (simp add: moved election_ok_def leads_ok_def)
    next
      case True
      then have lead': "leads c' n'"
        using leads by (simp add: moved)
      from thread_step_leads [OF tok step this] show ?thesis
      proof (elim disjE exE conjE)
        assume "leads (threads s i) ?n" and "current_term n' = current_term ?n"
        then show ?thesis
          using ok i True by (simp add: moved election_ok_def leads_ok_def)
      next
        fix el
        assume "c' = Dispatch" and quiet: "quiet_step ?n n'"
        then have "current_role n' = Leader"
          using lead' by (simp add: leads_def)
        moreover have "(i, current_term n') \<in> L" if "current_role ?n = Leader"
          using ok i that quiet by (auto simp: election_ok_def leads_ok_def leads_def quiet_step_def)
        ultimately show ?thesis
          using True by (auto simp: new_leader_def moved)
      qed
    qed
  qed
  moreover have "beats_ok ids ?s ?L"
  proof -
    obtain vs where vs: "outbox n' = outbox ?n @ vs"
      "\<forall>v \<in> set vs. \<forall>t. heartbeat_term v = Some t \<longrightarrow> leads (threads s i) ?n \<and> t = current_term ?n"
      using thread_step_beats [OF tok step] by blast
    have "T \<in> snd ` L" if "x \<in> set vs" "heartbeat_term x = Some T" for x T
    proof -
      have "(i, T) \<in> L"
        using vs(2) that ok i by (auto simp: election_ok_def leads_ok_def)
      then show ?thesis by force
    qed
    then have "T \<in> snd ` L" if "x \<in> flight ids ?s" "heartbeat_term x = Some T" for x T
      using that flight_step [OF i step vs(1)] ok by (auto simp: election_ok_def beats_ok_def)
    then show ?thesis
      by (auto simp: beats_ok_def)
  qed
  moreover have "inboxes_ok ids ?s"
  proof -
    obtain k where "inbox n' = drop k (inbox ?n)"
      using taking.thread_step [OF step] by (auto simp: takes_messages_def)
    then have "set (inbox (nodes ?s v)) \<subseteq> set (inbox (nodes s v))" for v
      by (simp add: moved set_drop_subset)
    then show ?thesis
      using ok unfolding election_ok_def inboxes_ok_def by blast
  qed
  moreover have "lib_old_div (nodes ?s v) = lib_old_div (nodes s v)" for v
    using cfg.thread_step [OF step] by (simp add: moved same_config_def)
  moreover have "counts_ok ids ?s ?G"
    by (rule counts_step [OF ok i fresh step])
  moreover have "sys_ok ids ?s"
    using ok i by (simp add: election_ok_def thread_move_ok)
  ultimately show ?thesis
    using ok by (simp add: election_ok_def n')
qed

subsection \<open>Runs\<close>

lemma constructed_fresh:
  assumes "RaftNode_init files (ConfigDict ab) name Follower draw clk od = Inr n"
  shows "outbox n = []" "inbox n = []" "current_role n = Follower" "voted_for n = PyNone"
  using assms by (auto simp: RaftNode_init_def Let_def Talker_init_def Listener_init_def split: option.splits)

lemma election_start:
  assumes "started ab s" and od: "\<And>i. i \<in> set (member_addresses ab) \<Longrightarrow> floor_division (lib_old_div (nodes s i))"
  shows "election_ok (member_addresses ab) s [] {}"
proof -
  let ?ids = "member_addresses ab"
  have node: "threads s i = Dispatch" "outbox (nodes s i) = []" "inbox (nodes s i) = []"
    "current_role (nodes s i) = Follower" if "i \<in> set ?ids" for i
    using assms(1) that constructed_fresh by (fastforce simp: started_def)+
  have wires: "wires s i j = []" for i j
    using assms(1) by (simp add: started_def)
  have "sys_ok ?ids s"
    using started_node_sound [OF assms(1)] by (auto simp: sys_ok_def wires)
  moreover have "booths_ok ?ids s [] {}"
    using node by (simp add: booths_ok_def booth_def vote_history_def runs_def)
  moreover have "counts_ok ?ids s []"
    using node by (simp add: counts_ok_def tally_def pending_def sent_by_def wires)
  moreover have "elected_ok ?ids s [] {}"
    by (simp add: elected_ok_def)
  moreover have "leads_ok ?ids s {}"
    using node by (simp add: leads_ok_def leads_def)
  moreover have "beats_ok ?ids s {}"
    using node by (simp add: beats_ok_def flight_def wires)
  moreover have "inboxes_ok ?ids s"
    using node by (simp add: inboxes_ok_def)
  ultimately show ?thesis
    using od by (simp add: election_ok_def floor_division_def)
qed

lemma fresh_run_ok:
  assumes "fresh_run tr ab s G L" and "json_wire tr"
    and "\<And>i. i \<in> set (member_addresses ab) \<Longrightarrow> floor_division (lib_old_div (nodes s i))"
  shows "election_ok (member_addresses ab) s G L"
  using assms(1,3)
proof induction
  case (start s)
  then show ?case by (rule election_start)
next
  case (thread s G L i)
  have "lib_old_div (nodes (thread_move i s) v) = lib_old_div (nodes s v)" for v
  proof -
    obtain c' n' where step: "thread_step (threads s i, nodes s i) = (c', n')"
      by force
    then show ?thesis
      using cfg.thread_step [OF step] by (simp add: thread_move_simps [OF step] same_config_def)
  qed
  with thread show ?case
    by (intro election_thread) simp_all
next
  case (env s G L t)
  have "lib_old_div (nodes t v) = lib_old_div (nodes s v)" for v
    using env.hyps(2)
    by cases (auto simp: set_node_def client_request_def pause_def un_pause_def set_current_role_def
        check_role_def py_run RaftNode_stop_def)
  with env show ?case
    by (intro election_env [OF _ env.hyps(2) assms(2)]) simp_all
qed

section \<open>Properties\<close>

text \<open>
  C1. Election safety, over the whole history of a run: at most one node is ever elected in
  a term, whatever the interleaving and whatever messages are lost, as long as no candidate
  counts a vote that was granted in another term than its own.
\<close>

theorem one_leader_elected_per_term:
  assumes "fresh_run tr ab s G L" and "json_wire tr"
    and "list_all (\<lambda>i. floor_division (lib_old_div (nodes s i))) (member_addresses ab)"
    and "(a, T) \<in> L" and "(b, T) \<in> L"
  shows "a = b"
proof -
  have "election_ok (member_addresses ab) s G L"
    using assms(3) by (intro fresh_run_ok [OF assms(1,2)]) (auto simp: list_all_iff)
  then show ?thesis
    using assms(4,5) elected_unique by (auto simp: election_ok_def)
qed

text \<open>
  C2. Election safety, in every state of such a run: two nodes whose threads are in the
  leader's loop in the same term are the same node.
\<close>

theorem no_two_leaders:
  assumes "fresh_run tr ab s G L" and "json_wire tr"
    and "list_all (\<lambda>i. floor_division (lib_old_div (nodes s i))) (member_addresses ab)"
    and "i \<in> set (member_addresses ab)" and "j \<in> set (member_addresses ab)"
    and "threads s i = InLeader m" and "threads s j = InLeader m'"
    and "current_term (nodes s i) = current_term (nodes s j)"
  shows "i = j"
proof -
  have ok: "election_ok (member_addresses ab) s G L"
    using assms(3) by (intro fresh_run_ok [OF assms(1,2)]) (auto simp: list_all_iff)
  then have "(i, current_term (nodes s i)) \<in> L" "(j, current_term (nodes s i)) \<in> L"
    using assms(4-8) by (auto simp: election_ok_def leads_ok_def leads_def)
  with ok show ?thesis
    using elected_unique by (auto simp: election_ok_def)
qed

text \<open>
  C12. One vote per term, but for one case: in a run in which no candidate counts a vote that
  was cast in another term than its own, a node votes at most once in a term, except that,
  having voted first for itself, it may vote once more in a term in which some node was
  elected.
\<close>

theorem votes_per_term:
  assumes "fresh_run tr ab s G L" and "json_wire tr"
    and "list_all (\<lambda>i. floor_division (lib_old_div (nodes s i))) (member_addresses ab)"
    and "v \<in> set (member_addresses ab)"
  shows "length (vote_history G v T) \<le> 1
    \<or> (\<exists>c. vote_history G v T = [v, c] \<and> (\<exists>leader. (leader, T) \<in> L))"
proof -
  have "election_ok (member_addresses ab) s G L"
    using assms(3) by (intro fresh_run_ok [OF assms(1,2)]) (auto simp: list_all_iff)
  then have "booth (snd ` L) v (threads s v) (nodes s v) T (vote_history G v T)"
    using assms(4) by (simp add: election_ok_def booths_ok_def)
  then show ?thesis
    by (auto simp: booth_def)
qed


end
