(* ===== verification/Raft_Scenarios.thy ===== *)
theory Raft_Scenarios
  imports Raft_Election
begin

text \<open>
  Concrete runs of the three-member group, executed step by step by rewriting.
\<close>

section \<open>Schedules\<close>

text \<open>
  A schedule says who moves: a thread; a talker, with the subscribers its message reaches;
  a listener, with the peer it hears or without finding anything; a client with a request.
\<close>

datatype move =
    Thread string
  | Talk string "string list"
  | Listen string string
  | Idle string
  | Ask string pyval pyval

fun play :: "move \<Rightarrow> system \<Rightarrow> system" where
  "play (Thread i) s = thread_move i s"
| "play (Talk i D) s =
     (case Talker_run_step True (node_talker (nodes s i)) of
        (t, out) \<Rightarrow> (set_node i ((nodes s i)\<lparr>node_talker := t\<rparr>) s)
                     \<lparr>wires := publish_to json_norm i (set D) out (wires s)\<rparr>)"
| "play (Listen i j) s =
     (case wires s j i of
        [] \<Rightarrow> s
      | v # q \<Rightarrow> (set_node i ((nodes s i)\<lparr>node_listener := Listener_run_step (Some v) (node_listener (nodes s i))\<rparr>) s)
                  \<lparr>wires := (wires s)(j := (wires s j)(i := q))\<rparr>)"
| "play (Idle i) s =
     set_node i ((nodes s i)\<lparr>node_listener := Listener_run_step None (node_listener (nodes s i))\<rparr>) s"
| "play (Ask i x k) s = set_node i (snd (client_request x k (nodes s i))) s"

fun move_ok :: "string list \<Rightarrow> move \<Rightarrow> bool" where
  "move_ok ids (Thread i) = (i \<in> set ids)"
| "move_ok ids (Talk i D) = (i \<in> set ids \<and> set D \<subseteq> set ids)"
| "move_ok ids (Listen i j) = (i \<in> set ids \<and> j \<in> set ids)"
| "move_ok ids (Idle i) = (i \<in> set ids)"
| "move_ok ids (Ask i x k) = (i \<in> set ids \<and> plain_request x k)"

fun is_thread :: "move \<Rightarrow> bool" where
  "is_thread (Thread i) = True"
| "is_thread _ = False"

lemma play_env:
  assumes "move_ok ids m" and "\<not> is_thread m"
  shows "play m s = s \<or> env_step json_norm ids s (play m s)"
proof (cases m)
  case (Talk i D)
  obtain t out where "Talker_run_step True (node_talker (nodes s i)) = (t, out)"
    by force
  with Talk assms(1) show ?thesis
    by (auto intro: env_step.talk)
next
  case (Listen i j)
  then show ?thesis
    using assms(1) by (cases "wires s j i") (auto intro: env_step.listen)
next
  case (Idle i)
  then show ?thesis
    using assms(1) by (auto intro: env_step.listen_nothing)
next
  case (Ask i x k)
  then show ?thesis
    using assms(1) by (auto intro: env_step.request)
qed (use assms(2) in simp)

lemma play_step:
  assumes "move_ok ids m"
  shows "play m s = s \<or> sys_step json_norm ids s (play m s)"
proof (cases "is_thread m")
  case True
  then obtain i where "m = Thread i"
    by (cases m) auto
  with assms show ?thesis
    by (auto intro: sys_step.thread)
next
  case False
  with assms play_env [of ids m s] show ?thesis
    by (auto intro: sys_step.env)
qed

lemma play_steps:
  assumes "list_all (move_ok ids) ms"
  shows "(sys_step json_norm ids)\<^sup>*\<^sup>* s (fold play ms s)"
  using assms
proof (induction ms arbitrary: s)
  case (Cons m ms)
  then have "(sys_step json_norm ids)\<^sup>*\<^sup>* s (play m s)"
    using play_step [of ids m s] by auto
  with Cons show ?case
    by (auto intro: rtranclp_trans)
qed simp

lemma play_reachable:
  assumes "reachable json_norm ab s" and "list_all (move_ok (member_addresses ab)) ms"
  shows "reachable json_norm ab (fold play ms s)"
  using play_steps [OF assms(2), of s]
  by (induction rule: rtranclp_induct) (use assms(1) in \<open>auto intro: reachable.step\<close>)

section \<open>Tables\<close>

text \<open>What the system maps every member to, with the value for other names last.\<close>

definition per_member :: "'a \<Rightarrow> 'a \<Rightarrow> 'a \<Rightarrow> 'a \<Rightarrow> string \<Rightarrow> 'a" where
  "per_member a b c d = (\<lambda>_. d)(''h:1'' := a, ''h:2'' := b, ''h:3'' := c)"

lemma per_member_simps [simp]:
  "per_member a b c d ''h:1'' = a"
  "per_member a b c d ''h:2'' = b"
  "per_member a b c d ''h:3'' = c"
  "(per_member a b c d)(''h:1'' := x) = per_member x b c d"
  "(per_member a b c d)(''h:2'' := x) = per_member a x c d"
  "(per_member a b c d)(''h:3'' := x) = per_member a b x d"
  by (auto simp: per_member_def fun_eq_iff)

lemma publish_table:
  assumes "i \<in> {''h:1'', ''h:2'', ''h:3''}" and "w i = per_member a b c d" and "D \<subseteq> {''h:1'', ''h:2'', ''h:3''}"
  shows "publish_to tr i D (Some m) w =
     w(i := per_member (if ''h:1'' \<in> D then a @ [tr m] else a) (if ''h:2'' \<in> D then b @ [tr m] else b)
         (if ''h:3'' \<in> D then c @ [tr m] else c) d)"
  using assms by (auto simp: publish_to_def per_member_def fun_eq_iff)

lemma publish_nothing [simp]: "publish_to tr i D None w = w"
  by (simp add: publish_to_def)

section \<open>The group and its clocks\<close>

definition scene :: "(nat \<Rightarrow> rat) \<Rightarrow> (nat \<Rightarrow> rat) \<Rightarrow> (nat \<Rightarrow> rat) \<Rightarrow> system" where
  "scene c1 c2 c3 =
     \<lparr>threads = per_member Dispatch Dispatch Dispatch Dispatch,
      nodes = per_member ((fresh_node ''node1'' ''h:1'')\<lparr>clock := c1\<rparr>) ((fresh_node ''node2'' ''h:2'')\<lparr>clock := c2\<rparr>)
                ((fresh_node ''node3'' ''h:3'')\<lparr>clock := c3\<rparr>) ((fresh_node ''node3'' ''h:3'')\<lparr>clock := c3\<rparr>),
      wires = per_member (per_member [] [] [] []) (per_member [] [] [] []) (per_member [] [] [] []) (per_member [] [] [] [])\<rparr>"

lemma trio_init_clock:
  "RaftNode_init Map.empty (ConfigDict trio) ''node1'' Follower 0 clk (div) = Inr ((fresh_node ''node1'' ''h:1'')\<lparr>clock := clk\<rparr>)"
  "RaftNode_init Map.empty (ConfigDict trio) ''node2'' Follower 0 clk (div) = Inr ((fresh_node ''node2'' ''h:2'')\<lparr>clock := clk\<rparr>)"
  "RaftNode_init Map.empty (ConfigDict trio) ''node3'' Follower 0 clk (div) = Inr ((fresh_node ''node3'' ''h:3'')\<lparr>clock := clk\<rparr>)"
  by (simp_all add: RaftNode_init_def fresh_node_def member_addresses_def trio_def address_of_def
      random_uniform_def numeral_3_eq_3 Let_def)

lemma started_scene: "started trio (scene c1 c2 c3)"
  unfolding started_def
proof (intro conjI ballI allI)
  fix i
  assume i: "i \<in> set (member_addresses trio)"
  have "\<exists>name clk. name \<noteq> ''leader'' \<and>
      RaftNode_init Map.empty (ConfigDict trio) name Follower 0 clk (div) = Inr (nodes (scene c1 c2 c3) i)"
  proof -
    consider "i = ''h:1''" | "i = ''h:2''" | "i = ''h:3''"
      using i by auto
    then show ?thesis
    proof cases
      case 1
      then show ?thesis
        by (intro exI [of _ "''node1''"] exI [of _ c1]) (simp add: scene_def trio_init_clock)
    next
      case 2
      then show ?thesis
        by (intro exI [of _ "''node2''"] exI [of _ c2]) (simp add: scene_def trio_init_clock)
    next
      case 3
      then show ?thesis
        by (intro exI [of _ "''node3''"] exI [of _ c3]) (simp add: scene_def trio_init_clock)
    qed
  qed
  then show "\<exists>name draw clk od. name \<noteq> ''leader'' \<and>
      RaftNode_init Map.empty (ConfigDict trio) name Follower draw clk od = Inr (nodes (scene c1 c2 c3) i)"
    by blast
  show "my_id (nodes (scene c1 c2 c3) i) = i" "threads (scene c1 c2 c3) i = Dispatch"
    using i by (auto simp: scene_def fresh_node_def)
qed (simp add: scene_def per_member_def)

text \<open>A clock that makes its node time out twice, as a follower and as a candidate.\<close>

definition hasty :: "nat \<Rightarrow> rat" where
  "hasty k = (if k < 1 then 0 else if k < 5 then 1 else 2)"

text \<open>A clock that makes its node time out once, and one that never does.\<close>

definition prompt :: "nat \<Rightarrow> rat" where
  "prompt k = (if k < 1 then 0 else 1)"

definition patient :: "nat \<Rightarrow> rat" where
  "patient k = 0"

section \<open>Execution by rewriting\<close>

text \<open>Every definition applied to its state, so that only what is reached is unfolded.\<close>

lemma monad_apply:
  "ret a s = (Inr a, s)"
  "raise e s = (Inl e, s)"
  "bnd m f s = (case m s of (Inl e, s') \<Rightarrow> (Inl e, s') | (Inr a, s') \<Rightarrow> f a s')"
  "gets g s = (Inr (g s), s)"
  "modify h s = (Inr (), h s)"
  "lift_result r s = (r, s)"
  "when_py b k s = (if b then k s else (Inr (), s))"
  by (simp_all add: py_run)

lemmas thread_apply =
  fun_cong [OF run_dispatch_def] fun_cong [OF in_role_def] fun_cong [OF after_iteration_def]
  fun_cong [OF check_role_def] fun_cong [OF time_time_def] fun_cong [OF set_current_role_def]
  fun_cong [OF get_message_def] fun_cong [OF increment_term_def] fun_cong [OF send_request_vote_def]
  fun_cong [OF send_vote_def] fun_cong [OF send_message_def] fun_cong [OF message_timestamp_def]

lemmas follower_apply =
  fun_cong [OF follower_iteration_def] fun_cong [OF follower_handle_def]
  fun_cong [OF follower_request_votes_def] fun_cong [OF vote_test_def]

lemmas candidate_apply =
  fun_cong [OF candidate_start_def] fun_cong [OF candidate_iteration_def]
  fun_cong [OF candidate_handle_def] fun_cong [OF candidate_vote_def]

lemmas leader_apply =
  fun_cong [OF leader_start_def] fun_cong [OF leader_take_over_def]
  fun_cong [OF broadcast_append_entries_def] fun_cong [OF broadcast_append_node_def]
  fun_cong [OF append_entry_def] fun_cong [OF send_heartbeat_def] fun_cong [OF send_append_entries_def]
  fun_cong [OF update_own_indices_def] fun_cong [OF get_node_index_def]

lemma parse_None: "parse_json_message PyNone = Inr None"
  by (simp add: parse_json_message_def)

lemma three: "[0..<3] = [0, 1, 2::nat]" "replicate 3 x = [x, x, x]"
  by (simp_all add: upt_rec numeral_3_eq_3)

lemmas execute =
  thread_move_def thread_step_def set_node_def monad_apply seq_def thread_apply follower_apply
  candidate_apply leader_apply Listener_get_message_def Listener_init_def Talker_init_def
  queue_put_def Talker_run_step_def Talker_send_message_def Listener_run_step_def publish_table
  addressed_to_jsonify json_plain_jsonify parse_jsonify_message parse_None message_type_defs
  new_append_entries_def has_majority_def py_getitem_def py_norm_index_def py_setitem_def
  log_max_index_def init_entry_def entry_to_py_def py_int_of_rat_def three
  scene_def fresh_node_def hasty_def prompt_def patient_def

section \<open>Schedules with history\<close>

text \<open>The history variables along a schedule, as long as only fresh votes are counted.\<close>

fun observe :: "move list \<Rightarrow> system \<times> grants \<times> (string \<times> int) set \<Rightarrow>
    (system \<times> grants \<times> (string \<times> int) set) option" where
  "observe [] r = Some r"
| "observe (Thread i # ms) (s, G, L) =
     (if counts_fresh (threads s i) (nodes s i)
      then observe ms (thread_move i s, G @ new_grants i (nodes s i) (nodes (thread_move i s) i),
                       L \<union> new_leader i (nodes s i) (nodes (thread_move i s) i))
      else None)"
| "observe (m # ms) (s, G, L) = observe ms (play m s, G, L)"

lemma observe_other: "\<not> is_thread m \<Longrightarrow> observe (m # ms) (s, G, L) = observe ms (play m s, G, L)"
  by (cases m) simp_all

lemma observe_run:
  assumes "observe ms (s, G, L) = Some (s', G', L')" and "fresh_run json_norm ab s G L"
    and "list_all (move_ok (member_addresses ab)) ms"
  shows "fresh_run json_norm ab s' G' L'"
  using assms
proof (induction ms arbitrary: s G L)
  case Nil
  then show ?case by simp
next
  case (Cons m ms)
  show ?case
  proof (cases "is_thread m")
    case True
    then obtain i where "m = Thread i"
      by (cases m) auto
    with Cons show ?thesis
      by (auto intro: fresh_run.thread split: if_splits)
  next
    case False
    then have "fresh_run json_norm ab (play m s) G L"
      using play_env [of "member_addresses ab" m s] Cons.prems by (auto intro: fresh_run.env)
    with Cons False show ?thesis
      by (auto simp: observe_other)
  qed
qed

text \<open>Node 3 times out, asks node 2 for its vote and is elected with it and its own.\<close>

definition campaign :: "move list" where
  "campaign =
     [Thread ''h:3'', Thread ''h:3'', Thread ''h:3'', Talk ''h:3'' [], Talk ''h:3'' [],
      Talk ''h:3'' [''h:2''], Talk ''h:3'' [''h:3''], Idle ''h:2'', Listen ''h:2'' ''h:3'',
      Thread ''h:2'', Thread ''h:2'', Talk ''h:2'' [], Talk ''h:2'' [], Talk ''h:2'' [''h:3''],
      Idle ''h:3'', Listen ''h:3'' ''h:3'', Listen ''h:3'' ''h:2'',
      Thread ''h:3'', Thread ''h:3'', Thread ''h:3'']"

definition elected_scene :: "(system \<times> grants \<times> (string \<times> int) set) option \<Rightarrow> bool" where
  "elected_scene r =
     (case r of
        None \<Rightarrow> False
      | Some (s, G, L) \<Rightarrow>
          L = {(''h:3'', 2)} \<and> (\<exists>m. threads s ''h:3'' = InLeader m) \<and> current_term (nodes s ''h:3'') = 2
          \<and> lib_old_div (nodes s ''h:1'') = (div) \<and> lib_old_div (nodes s ''h:2'') = (div)
          \<and> lib_old_div (nodes s ''h:3'') = (div))"

lemma campaign_elects: "elected_scene (observe campaign (scene patient patient prompt, [], {}))"
  unfolding campaign_def
  by (simp add: execute new_grants_def new_leader_def counts_fresh_def granted_ballot_jsonify
      ballot_of_def grants_vote_def del: jsonify.simps replicate.simps cong: if_weak_cong)
     (simp add: elected_scene_def)

lemma campaign_run:
  obtains s G where "fresh_run json_norm trio s G {(''h:3'', 2)}" "\<exists>m. threads s ''h:3'' = InLeader m"
    "current_term (nodes s ''h:3'') = 2"
    "list_all (\<lambda>i. floor_division (lib_old_div (nodes s i))) (member_addresses trio)"
proof -
  obtain s G L where r: "observe campaign (scene patient patient prompt, [], {}) = Some (s, G, L)"
    and s: "L = {(''h:3'', 2)}" "\<exists>m. threads s ''h:3'' = InLeader m" "current_term (nodes s ''h:3'') = 2"
      "lib_old_div (nodes s ''h:1'') = (div)" "lib_old_div (nodes s ''h:2'') = (div)"
      "lib_old_div (nodes s ''h:3'') = (div)"
    using campaign_elects by (auto simp: elected_scene_def split: option.splits)
  have "fresh_run json_norm trio s G L"
    by (rule observe_run [OF r fresh_run.start [OF started_scene]]) (simp add: campaign_def)
  with s show ?thesis
    by (intro that [of s G]) (simp_all add: floor_division_def)
qed

text \<open>The election theorems at this run.\<close>

theorem one_leader_elected_per_term_witness:
  "\<exists>s G L. fresh_run json_norm trio s G L \<and> {a. (a, 2) \<in> L} = {''h:3''}"
proof -
  obtain s G where run: "fresh_run json_norm trio s G {(''h:3'', 2)}"
    and od: "list_all (\<lambda>i. floor_division (lib_old_div (nodes s i))) (member_addresses trio)"
    by (rule campaign_run)
  have "a = ''h:3''" if "(a, 2) \<in> {(''h:3'', 2 :: int)}" for a
    by (rule one_leader_elected_per_term [OF run json_wire_norm od that]) simp
  then have "{a. (a, 2) \<in> {(''h:3'', 2 :: int)}} = {''h:3''}"
    by auto
  with run show ?thesis
    by (intro exI conjI)
qed

theorem no_two_leaders_witness:
  "\<exists>s G L. fresh_run json_norm trio s G L
     \<and> {i \<in> set (member_addresses trio). (\<exists>m. threads s i = InLeader m) \<and> current_term (nodes s i) = 2} = {''h:3''}"
proof -
  obtain s G where run: "fresh_run json_norm trio s G {(''h:3'', 2)}"
    and lead: "\<exists>m. threads s ''h:3'' = InLeader m" "current_term (nodes s ''h:3'') = 2"
    and od: "list_all (\<lambda>i. floor_division (lib_old_div (nodes s i))) (member_addresses trio)"
    by (rule campaign_run)
  obtain m where m: "threads s ''h:3'' = InLeader m"
    using lead(1) by blast
  have "i = ''h:3''" if "i \<in> set (member_addresses trio)" "threads s i = InLeader m'" "current_term (nodes s i) = 2" for i m'
    by (rule no_two_leaders [OF run json_wire_norm od that(1) _ that(2) m]) (simp_all add: that(3) lead(2))
  then have "{i \<in> set (member_addresses trio). (\<exists>m. threads s i = InLeader m) \<and> current_term (nodes s i) = 2} \<subseteq> {''h:3''}"
    by blast
  moreover have "''h:3'' \<in> {i \<in> set (member_addresses trio). (\<exists>m. threads s i = InLeader m) \<and> current_term (nodes s i) = 2}"
    using lead by simp
  ultimately show ?thesis
    using run by (intro exI conjI) auto
qed

theorem votes_per_term_witness:
  "\<exists>s G L. fresh_run json_norm trio s G L \<and> (''h:3'', 2) \<in> L
     \<and> (length (vote_history G ''h:2'' 2) \<le> 1
        \<or> (\<exists>c. vote_history G ''h:2'' 2 = [''h:2'', c] \<and> (\<exists>leader. (leader, 2) \<in> L)))"
proof -
  obtain s G where run: "fresh_run json_norm trio s G {(''h:3'', 2)}"
    and od: "list_all (\<lambda>i. floor_division (lib_old_div (nodes s i))) (member_addresses trio)"
    by (rule campaign_run)
  have "length (vote_history G ''h:2'' 2) \<le> 1
      \<or> (\<exists>c. vote_history G ''h:2'' 2 = [''h:2'', c] \<and> (\<exists>leader. (leader, 2) \<in> {(''h:3'', 2 :: int)}))"
    by (rule votes_per_term [OF run json_wire_norm od]) simp
  with run show ?thesis
    by (intro exI conjI) auto
qed




section \<open>Votes of an earlier term\<close>

text \<open>
  Node 1 asks for votes in term 2, times out before the answer of node 2 arrives, and starts
  an election in term 3, in which it counts that answer. Node 3 has timed out twice as well,
  and gets the vote of node 2 in term 3.
\<close>

definition rivals :: "move list" where
  "rivals =
     [Thread ''h:1'', Thread ''h:1'', Thread ''h:1'', Talk ''h:1'' [], Talk ''h:1'' [],
      Talk ''h:1'' [''h:2''], Talk ''h:1'' [], Idle ''h:2'', Listen ''h:2'' ''h:1'',
      Thread ''h:2'', Thread ''h:2'', Talk ''h:2'' [], Talk ''h:2'' [], Talk ''h:2'' [''h:1''],
      Thread ''h:1'', Thread ''h:1'', Idle ''h:1'', Listen ''h:1'' ''h:2'',
      Talk ''h:1'' [], Talk ''h:1'' [''h:1''], Listen ''h:1'' ''h:1'',
      Thread ''h:1'', Thread ''h:1'', Thread ''h:1'',
      Thread ''h:3'', Thread ''h:3'', Thread ''h:3'', Thread ''h:3'', Thread ''h:3'',
      Talk ''h:3'' [], Talk ''h:3'' [], Talk ''h:3'' [], Talk ''h:3'' [], Talk ''h:3'' [''h:2''],
      Talk ''h:3'' [''h:3''], Idle ''h:3'', Listen ''h:3'' ''h:3'', Listen ''h:2'' ''h:3'',
      Thread ''h:2'', Talk ''h:2'' [''h:3''], Listen ''h:3'' ''h:2'',
      Thread ''h:3'', Thread ''h:3'', Thread ''h:3'']"

definition both_lead :: "string \<Rightarrow> string \<Rightarrow> int \<Rightarrow> system \<Rightarrow> bool" where
  "both_lead i j T s \<longleftrightarrow>
     (\<exists>m m'. threads s i = InLeader m \<and> threads s j = InLeader m')
     \<and> current_term (nodes s i) = T \<and> current_term (nodes s j) = T"

lemma rivals_lead: "both_lead ''h:1'' ''h:3'' 3 (fold play rivals (scene hasty patient hasty))"
  unfolding rivals_def
  by (simp add: execute both_lead_def del: jsonify.simps replicate.simps cong: if_weak_cong)

text \<open>
  C3. A candidate does not look at the term of the votes it counts, and so the condition
  of the election theorems cannot be dropped: the group reaches a state in which two nodes
  are in the leader's loop in the same term, without losing more than a few messages.
\<close>

theorem stale_votes_elect_two_leaders:
  "\<exists>s. reachable json_norm trio s \<and> both_lead ''h:1'' ''h:3'' 3 s"
proof (intro exI conjI)
  show "reachable json_norm trio (fold play rivals (scene hasty patient hasty))"
    by (rule play_reachable [OF reachable.start [OF started_scene]]) (simp add: rivals_def)
qed (rule rivals_lead)

end
