(* ===== verification/Raft_Campaign.thy ===== *)
theory Raft_Campaign
  imports Raft_Exchange Raft_Behaviour Raft_Scenarios
begin

text \<open>
  How an election is won: the count of a candidate as a function of the answers it reads,
  and a schedule that makes any member of a group its leader.
\<close>

section \<open>A node with another inbox\<close>

definition with_inbox :: "pyval list \<Rightarrow> raft_node \<Rightarrow> raft_node" where
  "with_inbox q n = n\<lparr>node_listener := (node_listener n)\<lparr>l_messages := q\<rparr>\<rparr>"

lemma get_message_run:
  "inbox s = x # q \<Longrightarrow> parse_json_message x = Inr (Some m) \<Longrightarrow> get_message s = (Inr (Some m), with_inbox q s)"
  by (simp add: get_message_def Listener_get_message_def py_run with_inbox_def)

lemma with_inbox_simps [simp]:
  "terminate (with_inbox q n) = terminate n" "current_role (with_inbox q n) = current_role n"
  "current_term (with_inbox q n) = current_term n" "my_id (with_inbox q n) = my_id n"
  "current_num_nodes (with_inbox q n) = current_num_nodes n" "lib_old_div (with_inbox q n) = lib_old_div n"
  "clock (with_inbox q n) = clock n" "ticks (with_inbox q n) = ticks n"
  "election_timeout (with_inbox q n) = election_timeout n" "node_talker (with_inbox q n) = node_talker n"
  "inbox (with_inbox q n) = q" "voted_for (with_inbox q n) = voted_for n"
  "last_applied_index (with_inbox q n) = last_applied_index n"
  "last_applied_term (with_inbox q n) = last_applied_term n"
  "with_inbox p (with_inbox q n) = with_inbox p n"
  "with_inbox q (n\<lparr>ticks := k\<rparr>) = (with_inbox q n)\<lparr>ticks := k\<rparr>"
  by (simp_all add: with_inbox_def)

section \<open>The count of a candidate\<close>

text \<open>A vote, granted or refused, that node \<open>u\<close> has sent to \<open>me\<close>.\<close>

definition ballot_paper :: "string \<Rightarrow> raft_node \<times> bool \<Rightarrow> pyval" where
  "ballot_paper me = (\<lambda>(u, g). jsonify (vote_message (PyStr me) g u))"

definition granted :: "(raft_node \<times> bool) list \<Rightarrow> int" where
  "granted vs = int (length (filter snd vs))"

definition half :: "raft_node \<Rightarrow> int" where
  "half s = lib_old_div s (current_num_nodes s) 2"

text \<open>A candidate in its loop, for whom no time-out is due for its next \<open>k\<close> readings of the clock.\<close>

definition campaigning :: "election \<Rightarrow> nat \<Rightarrow> raft_node \<Rightarrow> bool" where
  "campaigning el k s \<longleftrightarrow>
     \<not> terminate s \<and> current_role s = Candidate \<and> current_num_nodes s \<noteq> 1
     \<and> (\<forall>j < k. clock s (ticks s + j) - time_election_going el \<le> election_timeout s)"

lemma candidate_reads_vote:
  assumes "campaigning el 1 s" and "inbox s = ballot_paper (my_id s) (u, g) # q"
  shows "thread_step (InCandidate el, s) =
    (if half s < votes_for_me el + (if g then 1 else 0)
     then (Dispatch, (with_inbox q s)\<lparr>current_role := Leader\<rparr>)
     else (InCandidate (el\<lparr>votes_for_me := votes_for_me el + (if g then 1 else 0), total_votes := total_votes el + 1\<rparr>),
           (with_inbox q s)\<lparr>ticks := Suc (ticks s)\<rparr>))"
proof -
  let ?m = "vote_message (PyStr (my_id s)) g u"
  let ?v = "votes_for_me el + (if g then 1 else 0)"
  have get: "get_message s = (Inr (Some ?m), with_inbox q s)"
    using assms(2) by (intro get_message_run) (auto simp: ballot_paper_def parse_sent simp del: jsonify.simps)
  have "candidate_handle el ?m (with_inbox q s) =
      (if half s < ?v then (Inr Return, (with_inbox q s)\<lparr>current_role := Leader\<rparr>)
       else (Inr (Continue (el\<lparr>votes_for_me := ?v, total_votes := total_votes el + 1\<rparr>)), with_inbox q s))"
    using assms(1)
    by (auto simp: candidate_handle_def candidate_vote_def message_defs message_type_defs has_majority_def half_def
        campaigning_def set_current_role_def py_run)
  then show ?thesis
    using assms(1)
    by (auto simp: thread_step_def in_role_def after_iteration_def candidate_iteration_def campaigning_def get py_run time_time_def)
qed

lemma campaigning_step:
  "campaigning el (Suc k) s \<Longrightarrow> campaigning (el\<lparr>votes_for_me := v, total_votes := t\<rparr>) k ((with_inbox q s)\<lparr>ticks := Suc (ticks s)\<rparr>)"
  by (auto simp: campaigning_def dest: spec [of _ "Suc _"])

lemma candidate_counts:
  assumes "campaigning el (length vs) s" and "inbox s = map (ballot_paper (my_id s)) vs @ q"
    and "votes_for_me el + granted vs \<le> half s"
  shows "thread_steps (length vs) (InCandidate el, s) =
    (InCandidate (el\<lparr>votes_for_me := votes_for_me el + granted vs, total_votes := total_votes el + int (length vs)\<rparr>),
     (with_inbox q s)\<lparr>ticks := ticks s + length vs\<rparr>)"
  using assms
proof (induction vs arbitrary: el s)
  case Nil
  then show ?case
    by (simp add: granted_def with_inbox_def)
next
  case (Cons v vs)
  obtain u g where v: "v = (u, g)"
    by force
  let ?el = "el\<lparr>votes_for_me := votes_for_me el + (if g then 1 else 0), total_votes := total_votes el + 1\<rparr>"
  let ?s = "(with_inbox (map (ballot_paper (my_id s)) vs @ q) s)\<lparr>ticks := Suc (ticks s)\<rparr>"
  have "campaigning el 1 s"
    using Cons.prems(1) by (auto simp: campaigning_def dest: spec [of _ 0])
  from candidate_reads_vote [OF this, of u g] Cons.prems(2,3)
  have step: "thread_step (InCandidate el, s) = (InCandidate ?el, ?s)"
    by (auto simp: v granted_def)
  have "thread_steps (length vs) (InCandidate ?el, ?s) =
      (InCandidate (?el\<lparr>votes_for_me := votes_for_me ?el + granted vs, total_votes := total_votes ?el + int (length vs)\<rparr>),
       (with_inbox q ?s)\<lparr>ticks := ticks ?s + length vs\<rparr>)"
    using Cons.prems by (intro Cons.IH campaigning_step) (auto simp: v granted_def half_def)
  then show ?case
    by (simp add: step v granted_def)
qed

section \<open>Moves of nodes whose processes run\<close>

definition online :: "string \<Rightarrow> raft_node \<Rightarrow> bool" where
  "online i n \<longleftrightarrow>
     my_id n = i \<and> \<not> terminate n \<and> l_my_id (node_listener n) = i \<and> l_pc (node_listener n) = L_Running
     \<and> \<not> l_stop (node_listener n) \<and> t_pc (node_talker n) = T_Running \<and> \<not> t_stop (node_talker n)"

definition with_outbox :: "pyval list \<Rightarrow> raft_node \<Rightarrow> raft_node" where
  "with_outbox q n = n\<lparr>node_talker := (node_talker n)\<lparr>t_messages := q\<rparr>\<rparr>"

lemma with_outbox_simps [simp]:
  "terminate (with_outbox q n) = terminate n" "current_role (with_outbox q n) = current_role n"
  "current_term (with_outbox q n) = current_term n" "my_id (with_outbox q n) = my_id n"
  "current_num_nodes (with_outbox q n) = current_num_nodes n" "lib_old_div (with_outbox q n) = lib_old_div n"
  "clock (with_outbox q n) = clock n" "ticks (with_outbox q n) = ticks n"
  "election_timeout (with_outbox q n) = election_timeout n" "node_listener (with_outbox q n) = node_listener n"
  "outbox (with_outbox q n) = q" "with_outbox p (with_outbox q n) = with_outbox p n"
  by (simp_all add: with_outbox_def)

lemma online_boxes [simp]:
  "online i (with_inbox q n) = online i n" "online i (with_outbox q n) = online i n"
  by (simp_all add: online_def with_inbox_def with_outbox_def)

lemma play_thread:
  "thread_step (threads s i, nodes s i) = (c, n) \<Longrightarrow>
     play (Thread i) s = s\<lparr>threads := (threads s)(i := c), nodes := (nodes s)(i := n)\<rparr>"
  by (simp add: thread_move_def set_node_def)

lemma play_talk:
  assumes "online i (nodes s i)" and "outbox (nodes s i) = m # q" and "json_plain m"
  shows "play (Talk i D) s =
    s\<lparr>nodes := (nodes s)(i := with_outbox q (nodes s i)),
      wires := (\<lambda>a b. if a = i \<and> b \<in> set D then wires s a b @ [m] else wires s a b)\<rparr>"
proof -
  have "json_norm m = m"
    using assms(3) json_wire_norm by (simp add: json_wire_def)
  with assms(1,2) show ?thesis
    by (simp add: Talker_run_step_def online_def set_node_def with_outbox_def publish_to_def cong: if_cong)
qed

lemma play_listen:
  assumes "online i (nodes s i)" and "wires s j i = m # q" and "addressed_to i m = Inr True"
  shows "play (Listen i j) s =
    s\<lparr>nodes := (nodes s)(i := with_inbox (inbox (nodes s i) @ [m]) (nodes s i)),
      wires := (wires s)(j := (wires s j)(i := q))\<rparr>"
  using assms by (simp add: Listener_run_step_def online_def set_node_def with_inbox_def queue_put_def)

text \<open>A message that is sent to one peer only and is read at once.\<close>

lemma pass_message:
  assumes "online a (nodes s a)" and "outbox (nodes s a) = m # q" and "json_plain m" and "addressed_to b m = Inr True"
    and "online b (nodes s b)" and "inbox (nodes s b) = []" and "wires s a b = []" and "a \<noteq> b"
  shows "fold play [Talk a [b], Listen b a] s =
    s\<lparr>nodes := (nodes s)(a := with_outbox q (nodes s a), b := with_inbox [m] (nodes s b))\<rparr>"
proof -
  let ?w = "\<lambda>x y. if x = a \<and> y \<in> set [b] then wires s x y @ [m] else wires s x y"
  let ?s = "s\<lparr>nodes := (nodes s)(a := with_outbox q (nodes s a)), wires := ?w\<rparr>"
  have "?w(a := (?w a)(b := [])) = wires s"
    using assms(7) by (auto simp: fun_eq_iff)
  then have "play (Listen b a) ?s = s\<lparr>nodes := (nodes s)(a := with_outbox q (nodes s a), b := with_inbox [m] (nodes s b))\<rparr>"
    using play_listen [of b ?s a m "[]"] assms(4-8) by simp
  then show ?thesis
    by (simp only: fold_simps play_talk [OF assms(1-3)])
qed

lemma plain_election_messages:
  "json_plain (jsonify (vote_message (PyStr c) g u))" "json_plain (jsonify (request_vote_message PyNone u))"
  by (simp_all add: message_defs json_plain_jsonify del: jsonify.simps)

lemma election_addresses:
  "addressed_to v (jsonify (vote_message (PyStr c) g u)) = Inr (v = c)"
  "addressed_to v (jsonify (request_vote_message PyNone u)) = Inr True"
  by (auto simp: addressed_to_jsonify message_defs simp del: jsonify.simps)

section \<open>A voter\<close>

text \<open>A follower that has the log \<open>L\<close>, nothing to read or to send, and does not time out.\<close>

definition follows :: "string \<Rightarrow> int \<Rightarrow> entry list \<Rightarrow> raft_node \<Rightarrow> bool" where
  "follows v T L n \<longleftrightarrow>
     online v n \<and> current_role n = Follower \<and> current_term n \<le> T \<and> rlog n = L \<and> inbox n = [] \<and> outbox n = []
     \<and> json_plain (leader_id n) \<and> (\<forall>j k. clock n j - clock n k \<le> election_timeout n)"

definition waiting :: "string \<Rightarrow> raft_node \<Rightarrow> bool" where
  "waiting i n \<longleftrightarrow>
     follows i 2 [init_entry] n \<and> current_term n = 1 \<and> voted_for n = PyNone
     \<and> last_applied_index n = 0 \<and> last_applied_term n = 1"

lemma waitingD:
  "waiting i n \<Longrightarrow> online i n \<and> current_role n = Follower \<and> current_term n = 1 \<and> voted_for n = PyNone
     \<and> last_applied_index n = 0 \<and> last_applied_term n = 1 \<and> inbox n = [] \<and> outbox n = []
     \<and> (\<forall>j k. clock n j - clock n k \<le> election_timeout n)"
  by (simp add: waiting_def follows_def)

lemma request_is_request:
  "request_vote_message PyNone u = vote_request (current_term u) (my_id u) (last_applied_index u) (last_applied_term u) (stamp u)"
  by (simp add: vote_request_def message_defs)

lemma voter_grants:
  assumes "waiting i n" and "current_term u = 2" and "last_applied_index u = 0" and "last_applied_term u = 1"
  shows "\<exists>k w n'. thread_step (InFollower (clock n k0), with_inbox [jsonify (request_vote_message PyNone u)] n) = (InFollower (clock n k), n')
    \<and> online i n' \<and> outbox n' = [ballot_paper (my_id u) (w, True)] \<and> clock n' = clock n
    \<and> follows i 2 [init_entry] (with_outbox [] n')"
proof -
  note wait = waitingD [OF assms(1)]
  let ?n = "with_inbox [] n"
  let ?u = "in_term 2 ?n"
  let ?v = "sent (vote_message (PyStr (my_id u)) True ?u) ?u"
  let ?m = "request_vote_message PyNone u"
  have get: "get_message (with_inbox [jsonify ?m] n) = (Inr (Some ?m), ?n)"
    by (rule trans [OF get_message_run [OF _ parse_sent(3)]]) simp_all
  have request: "follower_handle (clock n k0) ?m ?n = follower_request_votes ?m ?n"
    by (simp add: follower_handle_def message_defs message_type_defs)
  have gives: "gives_vote 0 1 ?u"
    using wait by (simp add: gives_vote_def in_term_def)
  have same: "clock ?v = clock n" "election_timeout ?v = election_timeout n" "terminate n = False" "current_role n = Follower"
    using wait by (simp_all add: in_term_def online_def)
  have handle: "follower_handle (clock n k0) ?m ?n =
      (Inr (clock n (ticks ?v)), ?v\<lparr>voted_for := PyStr (my_id u), ticks := Suc (ticks ?v)\<rparr>)"
    unfolding request unfolding request_is_request follower_request_votes_run assms(2-4) using gives by (simp add: Let_def)
  have "\<not> clock n (Suc (ticks ?v)) - clock n (ticks ?v) > election_timeout n"
    using wait by (simp add: not_less)
  with same have "thread_step (InFollower (clock n k0), with_inbox [jsonify ?m] n) =
      (InFollower (clock n (ticks ?v)), ?v\<lparr>voted_for := PyStr (my_id u), ticks := Suc (Suc (ticks ?v))\<rparr>)"
    by (simp add: thread_step_def in_role_def after_iteration_def follower_iteration_def get handle py_run time_time_def)
  moreover have "online i (?v\<lparr>voted_for := PyStr (my_id u), ticks := Suc (Suc (ticks ?v))\<rparr>)"
    using wait by (simp add: online_def in_term_def Talker_send_message_def with_inbox_def)
  moreover have "outbox (?v\<lparr>voted_for := PyStr (my_id u), ticks := Suc (Suc (ticks ?v))\<rparr>) = [ballot_paper (my_id u) (?u, True)]"
    using wait by (simp add: in_term_def Talker_send_message_def queue_put_def ballot_paper_def del: jsonify.simps)
  moreover have "follows i 2 [init_entry] (with_outbox [] (?v\<lparr>voted_for := PyStr (my_id u), ticks := Suc (Suc (ticks ?v))\<rparr>))"
    using assms(1)
    by (simp add: waiting_def follows_def online_def in_term_def Talker_send_message_def with_inbox_def with_outbox_def)
  ultimately show ?thesis
    using same(1) by (intro exI conjI) (assumption | simp)+
qed

section \<open>A vote of the group\<close>

definition voter :: "string \<Rightarrow> string \<Rightarrow> system \<Rightarrow> bool" where
  "voter i j s \<longleftrightarrow>
     waiting j (nodes s j) \<and> (\<exists>k. threads s j = InFollower (clock (nodes s j) k)) \<and> wires s j i = []
     \<and> (\<exists>u. wires s i j = [jsonify (request_vote_message PyNone u)]
          \<and> my_id u = i \<and> current_term u = 2 \<and> last_applied_index u = 0 \<and> last_applied_term u = 1)"

text \<open>A member in its loop that has the log \<open>L\<close>, with nothing between it and \<open>i\<close>.\<close>

definition ready :: "string \<Rightarrow> int \<Rightarrow> entry list \<Rightarrow> string \<Rightarrow> system \<Rightarrow> bool" where
  "ready i T L v s \<longleftrightarrow>
     follows v T L (nodes s v) \<and> (\<exists>k. threads s v = InFollower (clock (nodes s v) k)) \<and> wires s i v = [] \<and> wires s v i = []"

text \<open>
  Node \<open>i\<close>, who is \<open>c\<close> but for its readings of the clock, is a candidate with \<open>v\<close> votes,
  who needs more than \<open>h\<close> and does not time out.
\<close>

definition bidding :: "string \<Rightarrow> raft_node \<Rightarrow> int \<Rightarrow> int \<Rightarrow> system \<Rightarrow> bool" where
  "bidding i c h v s \<longleftrightarrow>
     (\<exists>el. threads s i = InCandidate el \<and> votes_for_me el = v
        \<and> (\<forall>k. clock (nodes s i) (ticks (nodes s i) + k) - time_election_going el \<le> election_timeout (nodes s i)))
     \<and> online i (nodes s i) \<and> current_role (nodes s i) = Candidate \<and> current_term (nodes s i) = 2
     \<and> current_num_nodes (nodes s i) \<noteq> 1 \<and> half (nodes s i) = h \<and> inbox (nodes s i) = []
     \<and> (\<exists>t \<ge> ticks c. nodes s i = c\<lparr>ticks := t\<rparr>)"

definition elected :: "string \<Rightarrow> raft_node \<Rightarrow> system \<Rightarrow> bool" where
  "elected i c s \<longleftrightarrow>
     threads s i = Dispatch \<and> \<not> terminate (nodes s i) \<and> current_role (nodes s i) = Leader \<and> current_term (nodes s i) = 2
     \<and> (\<exists>t \<ge> ticks c. nodes s i = c\<lparr>ticks := t, current_role := Leader\<rparr>)"

definition cast :: "string \<Rightarrow> string \<Rightarrow> move list" where
  "cast i j = [Listen j i, Thread j, Talk j [i], Listen i j, Thread i]"

text \<open>What a schedule leaves as it is: everybody but \<open>i\<close> and the members of \<open>J\<close>, and their wires with \<open>i\<close>.\<close>

definition apart :: "string \<Rightarrow> string set \<Rightarrow> system \<Rightarrow> system \<Rightarrow> bool" where
  "apart i J s t \<longleftrightarrow>
     (\<forall>k. k \<notin> J \<longrightarrow> wires t i k = wires s i k \<and> wires t k i = wires s k i
        \<and> (k \<noteq> i \<longrightarrow> threads t k = threads s k \<and> nodes t k = nodes s k))"

lemma apart_trans: "apart i J s t \<Longrightarrow> apart i K t u \<Longrightarrow> apart i (J \<union> K) s u"
  by (simp add: apart_def)

lemma apart_keeps:
  "apart i J s t \<Longrightarrow> k \<noteq> i \<Longrightarrow> k \<notin> J \<Longrightarrow> voter i k t = voter i k s \<and> ready i T L k t = ready i T L k s"
  by (simp add: apart_def voter_def ready_def)

lemma one_voter:
  assumes bid: "bidding i c h v s" and voter: "voter i j s" and "j \<noteq> i"
  shows "(if h < v + 1 then elected i c (fold play (cast i j) s) else bidding i c h (v + 1) (fold play (cast i j) s))
    \<and> ready i 2 [init_entry] j (fold play (cast i j) s) \<and> apart i {j} s (fold play (cast i j) s)"
proof -
  obtain u k0 where u: "wires s i j = [jsonify (request_vote_message PyNone u)]" "my_id u = i" "current_term u = 2"
      "last_applied_index u = 0" "last_applied_term u = 1" "threads s j = InFollower (clock (nodes s j) k0)"
      "waiting j (nodes s j)" "wires s j i = []"
    using voter by (auto simp: voter_def)
  obtain el where el: "threads s i = InCandidate el" "votes_for_me el = v"
      "\<forall>k. clock (nodes s i) (ticks (nodes s i) + k) - time_election_going el \<le> election_timeout (nodes s i)"
    using bid by (auto simp: bidding_def)
  let ?req = "jsonify (request_vote_message PyNone u)"
  obtain k w n where n: "thread_step (InFollower (clock (nodes s j) k0), with_inbox [?req] (nodes s j)) = (InFollower (clock (nodes s j) k), n)"
      "online j n" "outbox n = [ballot_paper i (w, True)]" "clock n = clock (nodes s j)" "follows j 2 [init_entry] (with_outbox [] n)"
    using voter_grants [OF u(7,3,4,5), of k0] u(2) by blast
  let ?vote = "ballot_paper i (w, True)"
  let ?s1 = "s\<lparr>nodes := (nodes s)(j := with_inbox [?req] (nodes s j)), wires := (wires s)(i := (wires s i)(j := []))\<rparr>"
  have s1: "play (Listen j i) s = ?s1"
    using u(1) waitingD [OF u(7)] play_listen [of j s i ?req "[]"] by (simp add: election_addresses del: jsonify.simps)
  let ?s2 = "?s1\<lparr>threads := (threads s)(j := InFollower (clock (nodes s j) k)), nodes := (nodes s)(j := n)\<rparr>"
  have s2: "play (Thread j) ?s1 = ?s2"
    using play_thread [of ?s1 j] n(1) u(6) by simp
  let ?s4 = "?s2\<lparr>nodes := (nodes s)(j := with_outbox [] n, i := with_inbox [?vote] (nodes s i))\<rparr>"
  have s4: "fold play [Talk j [i], Listen i j] ?s2 = ?s4"
    using pass_message [of j ?s2 ?vote "[]" i] n(2,3) bid u(8) assms(3)
    by (simp add: ballot_paper_def bidding_def plain_election_messages election_addresses del: jsonify.simps fold_simps)
  let ?n = "with_inbox [?vote] (nodes s i)"
  have "campaigning el 1 ?n"
    using bid el(3) by (auto simp: campaigning_def bidding_def online_def dest: spec [of _ 0])
  from candidate_reads_vote [OF this, of w True "[]"]
  have step: "thread_step (InCandidate el, ?n) =
    (if h < v + 1 then (Dispatch, (with_inbox [] ?n)\<lparr>current_role := Leader\<rparr>)
     else (InCandidate (el\<lparr>votes_for_me := v + 1, total_votes := total_votes el + 1\<rparr>), (with_inbox [] ?n)\<lparr>ticks := Suc (ticks ?n)\<rparr>))"
    using bid el(2) by (simp add: bidding_def online_def half_def)
  obtain d m where cm: "thread_step (InCandidate el, ?n) = (d, m)"
    by force
  have "thread_step (threads ?s4 i, nodes ?s4 i) = (d, m)"
    using cm el(1) assms(3) by simp
  from play_thread [OF this] have t: "fold play (cast i j) s = ?s4\<lparr>threads := (threads ?s4)(i := d), nodes := (nodes ?s4)(i := m)\<rparr>"
    by (simp only: cast_def fold_simps s1 s2 s4 [unfolded fold_simps])
  obtain x where x: "ticks c \<le> x" "nodes s i = c\<lparr>ticks := x\<rparr>" and none: "inbox (nodes s i) = []"
    using bid unfolding bidding_def by blast
  then have plain: "with_inbox [] c = c"
    by (simp add: with_inbox_def)
  show ?thesis
  proof (intro conjI)
    show "if h < v + 1 then elected i c (fold play (cast i j) s) else bidding i c h (v + 1) (fold play (cast i j) s)"
    proof (cases "h < v + 1")
      case True
      with step cm bid x plain show ?thesis
        by (auto simp: t elected_def bidding_def online_def)
    next
      case False
      with step cm have cm': "d = InCandidate (el\<lparr>votes_for_me := v + 1, total_votes := total_votes el + 1\<rparr>)"
          "m = (nodes s i)\<lparr>ticks := Suc x\<rparr>"
        using x plain by auto
      have "clock (nodes s i) (Suc (ticks (nodes s i) + k)) - time_election_going el \<le> election_timeout (nodes s i)" for k
        using el(3) [rule_format, of "Suc k"] by simp
      moreover have "\<exists>y \<ge> ticks c. c\<lparr>ticks := Suc x\<rparr> = c\<lparr>ticks := y\<rparr>"
        using x(1) by (intro exI [of _ "Suc x"]) simp
      ultimately show ?thesis
        using False bid by (simp add: t cm' x(2) bidding_def online_def half_def)
    qed
    show "ready i 2 [init_entry] j (fold play (cast i j) s)"
      using n(4,5) u(8) assms(3) by (auto simp: t ready_def)
    show "apart i {j} s (fold play (cast i j) s)"
      using assms(3) by (simp add: t apart_def)
  qed
qed

lemma voters_decide:
  assumes "bidding i c h v s" and "\<forall>j \<in> set js. voter i j s" and "i \<notin> set js" and "distinct js" and "v \<le> h"
    and "int (length js) = h - v + 1"
  shows "elected i c (fold play (concat (map (cast i) js)) s)
    \<and> (\<forall>j \<in> set js. ready i 2 [init_entry] j (fold play (concat (map (cast i) js)) s))
    \<and> apart i (set js) s (fold play (concat (map (cast i) js)) s)"
  using assms
proof (induction js arbitrary: v s)
  case (Cons j js)
  let ?t = "fold play (cast i j) s" and ?u = "fold play (concat (map (cast i) js)) (fold play (cast i j) s)"
  have "voter i j s" "j \<noteq> i"
    using Cons.prems(2,3) by auto
  from one_voter [OF Cons.prems(1) this]
  have step: "if h < v + 1 then elected i c ?t else bidding i c h (v + 1) ?t"
      and j: "ready i 2 [init_entry] j ?t" "apart i {j} s ?t"
    by auto
  have "voter i k ?t" if "k \<in> set js" for k
    using apart_keeps [OF j(2), of k] Cons.prems(2-4) that by auto
  then have voters: "\<forall>k \<in> set js. voter i k ?t"
    by blast
  have "elected i c ?u \<and> (\<forall>k \<in> set js. ready i 2 [init_entry] k ?u) \<and> apart i (set js) ?t ?u"
  proof (cases "h < v + 1")
    case True
    with Cons.prems(5,6) have "js = []"
      by simp
    with True step show ?thesis
      by (simp add: apart_def)
  next
    case False
    with step voters Cons.prems Cons.IH [of "v + 1" ?t] show ?thesis
      by auto
  qed
  moreover from this have "ready i 2 [init_entry] j ?u"
    using apart_keeps [of i "set js" ?t ?u j] j(1) \<open>j \<noteq> i\<close> Cons.prems(4) by auto
  ultimately show ?case
    using apart_trans [OF j(2), of "set js" ?u] by auto
qed simp

section \<open>From the start of the group\<close>

text \<open>A node after its processes have come up and its thread has entered the follower's loop.\<close>

definition up :: "raft_node \<Rightarrow> raft_node" where
  "up n = n\<lparr>ticks := Suc (ticks n), node_talker := (node_talker n)\<lparr>t_pc := T_Running, t_ready := True\<rparr>,
            node_listener := (node_listener n)\<lparr>l_pc := L_Running\<rparr>\<rparr>"

definition fresh :: "string list \<Rightarrow> string \<Rightarrow> raft_node \<Rightarrow> bool" where
  "fresh ids i n \<longleftrightarrow>
     my_id n = i \<and> \<not> terminate n \<and> current_role n = Follower \<and> current_term n = 1 \<and> voted_for n = PyNone
     \<and> last_applied_index n = 0 \<and> last_applied_term n = 1 \<and> all_ids n = ids \<and> current_num_nodes n = int (length ids)
     \<and> ticks n = 0 \<and> rlog n = [init_entry] \<and> commit_index n = 0 \<and> leader_id n = PyNone \<and> client_queue n = []
     \<and> heartbeat_frequency n = 1 / 100 \<and> resend_time n = 2
     \<and> l_my_id (node_listener n) = i \<and> inbox n = [] \<and> \<not> l_stop (node_listener n) \<and> l_pc (node_listener n) = L_Connecting
     \<and> outbox n = [] \<and> \<not> t_stop (node_talker n) \<and> t_pc (node_talker n) = T_Binding"

lemma init_fresh:
  "RaftNode_init Map.empty (ConfigDict ab) name Follower draw clk od = Inr n \<Longrightarrow> fresh (member_addresses ab) (my_id n) n"
  by (auto simp: RaftNode_init_def fresh_def Let_def Listener_init_def Talker_init_def split: option.splits)

lemma started_fresh:
  assumes "started ab s" and "i \<in> set (member_addresses ab)"
  shows "fresh (member_addresses ab) i (nodes s i)" and "threads s i = Dispatch"
  using assms init_fresh by (fastforce simp: started_def)+

definition set_up :: "string \<Rightarrow> move list" where
  "set_up i = [Talk i [], Talk i [], Idle i, Thread i]"

lemma set_up_run:
  assumes "fresh ids i (nodes s i)" and "threads s i = Dispatch"
  shows "fold play (set_up i) s =
    s\<lparr>threads := (threads s)(i := InFollower (clock (nodes s i) 0)), nodes := (nodes s)(i := up (nodes s i))\<rparr>"
proof -
  let ?n = "nodes s i"
  let ?m = "?n\<lparr>node_talker := (node_talker ?n)\<lparr>t_pc := T_Running, t_ready := True\<rparr>,
      node_listener := (node_listener ?n)\<lparr>l_pc := L_Running\<rparr>\<rparr>"
  have "fold play [Talk i [], Talk i [], Idle i] s = s\<lparr>nodes := (nodes s)(i := ?m)\<rparr>"
    using assms(1) by (simp add: fresh_def Talker_run_step_def set_node_def Listener_run_step_def)
  moreover have "thread_step (Dispatch, ?m) = (InFollower (clock ?n 0), up ?n)"
    using assms(1)
    by (simp add: fresh_def thread_step_def run_dispatch_def check_role_def time_time_def up_def py_run)
  ultimately show ?thesis
    using assms(2) play_thread [of "s\<lparr>nodes := (nodes s)(i := ?m)\<rparr>" i] by (simp add: set_up_def)
qed

lemma set_up_all:
  assumes "\<forall>j \<in> set js. fresh ids j (nodes s j) \<and> threads s j = Dispatch" and "distinct js"
  shows "fold play (concat (map set_up js)) s =
    s\<lparr>threads := (\<lambda>k. if k \<in> set js then InFollower (clock (nodes s k) 0) else threads s k),
      nodes := (\<lambda>k. if k \<in> set js then up (nodes s k) else nodes s k)\<rparr>"
  using assms
proof (induction js arbitrary: s)
  case (Cons j js)
  have run: "fold play (set_up j) s =
      s\<lparr>threads := (threads s)(j := InFollower (clock (nodes s j) 0)), nodes := (nodes s)(j := up (nodes s j))\<rparr>"
    using Cons.prems(1) by (intro set_up_run) auto
  from Cons.prems have "\<forall>k \<in> set js. fresh ids k (nodes (fold play (set_up j) s) k) \<and> threads (fold play (set_up j) s) k = Dispatch"
    by (auto simp: run)
  from Cons.IH [OF this] Cons.prems show ?case
    by (auto simp: run fun_eq_iff)
qed simp

section \<open>Standing for election\<close>

definition stand :: "string \<Rightarrow> string list \<Rightarrow> move list" where
  "stand i ids = [Thread i, Thread i, Talk i ids, Talk i [i], Listen i i, Listen i i, Thread i, Thread i]"

text \<open>What a candidate has done before its loop: it has asked everybody and voted for itself.\<close>

definition asking :: "raft_node \<Rightarrow> raft_node" where
  "asking n = n\<lparr>voted_for := PyNone, current_term := current_term n + 1\<rparr>"

lemma candidate_start_run:
  "candidate_start n =
     (Inr \<lparr>votes_for_me = 0, total_votes = 0, time_election_going = clock n (ticks n + 2)\<rparr>,
      (sent (vote_message (PyStr (my_id n)) True (sent (request_vote_message PyNone (asking n)) (asking n)))
         (sent (request_vote_message PyNone (asking n)) (asking n)))\<lparr>voted_for := PyStr (my_id n), ticks := ticks n + 3\<rparr>)"
proof -
  let ?t = "(sent (vote_message (PyStr (my_id n)) True (sent (request_vote_message PyNone (asking n)) (asking n)))
         (sent (request_vote_message PyNone (asking n)) (asking n)))\<lparr>voted_for := PyStr (my_id n), ticks := ticks n + 3\<rparr>"
  have "wp candidate_start
      (\<lambda>el t. el = \<lparr>votes_for_me = 0, total_votes = 0, time_election_going = clock n (ticks n + 2)\<rparr> \<and> t = ?t) (\<lambda>_ _. False) n"
    by (simp add: candidate_start_def wp asking_def sent_def numeral_eq_Suc)
  from wp_total [OF this] show ?thesis
    by auto
qed

lemma candidate_ignores_request:
  assumes "campaigning el 1 s" and "inbox s = jsonify (request_vote_message PyNone u) # q" and "current_term u \<le> current_term s"
  shows "thread_step (InCandidate el, s) = (InCandidate el, (with_inbox q s)\<lparr>ticks := Suc (ticks s)\<rparr>)"
proof -
  let ?m = "request_vote_message PyNone u"
  have get: "get_message s = (Inr (Some ?m), with_inbox q s)"
    by (rule get_message_run [OF assms(2) parse_sent(3)])
  have "candidate_handle el ?m (with_inbox q s) = (Inr (Continue el), with_inbox q s)"
    using assms(3) by (simp add: candidate_handle_def candidate_request_votes_def message_defs message_type_defs py_run)
  then show ?thesis
    using assms(1)
    by (auto simp: thread_step_def in_role_def after_iteration_def candidate_iteration_def campaigning_def get py_run time_time_def)
qed

text \<open>The candidate of the schedule, with everything it has sent taken from its queue and nothing read.\<close>

definition candidate_of :: "raft_node \<Rightarrow> raft_node" where
  "candidate_of n = (asking n)\<lparr>current_role := Candidate, voted_for := PyStr (my_id n), ticks := ticks n + 4\<rparr>"

lemma stands_up:
  assumes "fresh ids i n0" and n: "nodes s i = up n0" "threads s i = InFollower (clock n0 0)" and "clock n0 1 - clock n0 0 > election_timeout n0"
  shows "\<exists>u w. my_id u = i \<and> current_term u = 2 \<and> last_applied_index u = 0 \<and> last_applied_term u = 1
    \<and> fold play [Thread i, Thread i] s =
        s\<lparr>threads := (threads s)(i := InCandidate \<lparr>votes_for_me = 0, total_votes = 0, time_election_going = clock n0 4\<rparr>),
          nodes := (nodes s)(i := with_outbox [jsonify (request_vote_message PyNone u), ballot_paper i (w, True)] (candidate_of (up n0)))\<rparr>"
proof -
  let ?n1 = "(up n0)\<lparr>ticks := 2, current_role := Candidate\<rparr>"
  let ?u = "asking ?n1"
  let ?w = "sent (request_vote_message PyNone ?u) ?u"
  let ?n2 = "with_outbox [jsonify (request_vote_message PyNone ?u), ballot_paper i (?w, True)] (candidate_of (up n0))"
  let ?el = "\<lparr>votes_for_me = 0, total_votes = 0, time_election_going = clock n0 4\<rparr>"
  have "thread_step (InFollower (clock n0 0), up n0) = (Dispatch, ?n1)"
    using assms(1,4) timed_out_follower [of "up n0" "clock n0 0"]
    by (simp add: thread_step_def in_role_def after_iteration_def py_run fresh_def up_def numeral_2_eq_2)
  from play_thread [of s i, unfolded n, OF this]
  have one: "play (Thread i) s = s\<lparr>threads := (threads s)(i := Dispatch), nodes := (nodes s)(i := ?n1)\<rparr>" .
  have "thread_step (Dispatch, ?n1) = (InCandidate ?el, ?n2)"
    using assms(1)
    by (simp add: thread_step_def run_dispatch_def check_role_def candidate_start_run py_run fresh_def up_def asking_def
        candidate_of_def with_outbox_def sent_def Talker_send_message_def queue_put_def ballot_paper_def numeral_eq_Suc
        del: jsonify.simps)
  then have "play (Thread i) (s\<lparr>threads := (threads s)(i := Dispatch), nodes := (nodes s)(i := ?n1)\<rparr>) =
      s\<lparr>threads := (threads s)(i := InCandidate ?el), nodes := (nodes s)(i := ?n2)\<rparr>"
    by (subst play_thread [where c = "InCandidate ?el" and n = ?n2]) simp_all
  with one have "fold play [Thread i, Thread i] s =
      s\<lparr>threads := (threads s)(i := InCandidate ?el), nodes := (nodes s)(i := ?n2)\<rparr>"
    by (simp only: fold_simps)
  moreover have "my_id ?u = i" "current_term ?u = 2" "last_applied_index ?u = 0" "last_applied_term ?u = 1"
    using assms(1) by (simp_all add: fresh_def up_def asking_def)
  ultimately show ?thesis
    by blast
qed

lemma votes_for_itself:
  assumes fresh: "fresh all i n0" and ids: "i \<in> set ids" "2 \<le> length all" and od: "floor_division (lib_old_div n0)"
    and late: "\<forall>k \<ge> 5. clock n0 k - clock n0 4 \<le> election_timeout n0" and u: "current_term u = 2"
    and s: "threads s i = InCandidate \<lparr>votes_for_me = 0, total_votes = 0, time_election_going = clock n0 4\<rparr>"
      "nodes s i = with_outbox [jsonify (request_vote_message PyNone u), ballot_paper i (w, True)] (candidate_of (up n0))"
    and quiet: "\<forall>b. wires s i b = []"
  shows "bidding i (with_outbox [] (candidate_of (up n0))) (int (length all) div 2) 1 (fold play (drop 2 (stand i ids)) s)
    \<and> (\<forall>j. j \<noteq> i \<longrightarrow> threads (fold play (drop 2 (stand i ids)) s) j = threads s j
         \<and> nodes (fold play (drop 2 (stand i ids)) s) j = nodes s j)
    \<and> (\<forall>a b. wires (fold play (drop 2 (stand i ids)) s) a b =
         (if a = i \<and> b \<in> set ids \<and> b \<noteq> i then [jsonify (request_vote_message PyNone u)] else wires s a b))"
proof -
  let ?el = "\<lparr>votes_for_me = 0, total_votes = 0, time_election_going = clock n0 4\<rparr>"
  let ?req = "jsonify (request_vote_message PyNone u)" and ?vote = "ballot_paper i (w, True)"
  let ?c = "candidate_of (up n0)"
  have on: "online i ?c" "inbox ?c = []" "current_role ?c = Candidate" "current_term ?c = 2" "current_num_nodes ?c = int (length all)"
      "clock ?c = clock n0" "ticks ?c = 5" "election_timeout ?c = election_timeout n0" "lib_old_div ?c = lib_old_div n0"
    using fresh by (simp_all add: fresh_def candidate_of_def asking_def up_def online_def)
  let ?W = "\<lambda>q a b. if a = i \<and> b \<in> set ids then q else wires s a b"
  let ?s1 = "s\<lparr>nodes := (nodes s)(i := with_outbox [?vote] ?c), wires := ?W [?req]\<rparr>"
  have "(\<lambda>a b. if a = i \<and> b \<in> set ids then wires s a b @ [?req] else wires s a b) = ?W [?req]"
    using quiet by (auto simp: fun_eq_iff)
  then have s1: "play (Talk i ids) s = ?s1"
    using play_talk [of i s ?req "[?vote]" ids] on(1) by (simp add: s plain_election_messages del: jsonify.simps)
  let ?X = "\<lambda>q. (?W [?req])(i := (?W [?req] i)(i := q))"
  let ?s2 = "s\<lparr>nodes := (nodes s)(i := with_outbox [] ?c), wires := ?X [?req, ?vote]\<rparr>"
  have "(\<lambda>a b. if a = i \<and> b \<in> set [i] then wires ?s1 a b @ [?vote] else wires ?s1 a b) = ?X [?req, ?vote]"
    using ids(1) by (auto simp: fun_eq_iff)
  then have s2: "play (Talk i [i]) ?s1 = ?s2"
    using play_talk [of i ?s1 ?vote "[]" "[i]"] on(1) by (simp add: ballot_paper_def plain_election_messages del: jsonify.simps)
  let ?n3 = "with_inbox [?req] (with_outbox [] ?c)"
  let ?s3 = "s\<lparr>nodes := (nodes s)(i := ?n3), wires := ?X [?vote]\<rparr>"
  have s3: "play (Listen i i) ?s2 = ?s3"
    using play_listen [of i ?s2 i ?req "[?vote]"] on(1,2) ids(1) by (simp add: election_addresses del: jsonify.simps)
  let ?n4 = "with_inbox [?req, ?vote] (with_outbox [] ?c)"
  let ?s4 = "s\<lparr>nodes := (nodes s)(i := ?n4), wires := ?X []\<rparr>"
  have s4: "play (Listen i i) ?s3 = ?s4"
    using play_listen [of i ?s3 i ?vote "[]"] on(1) ids(1) by (simp add: ballot_paper_def election_addresses del: jsonify.simps)
  let ?n5 = "(with_inbox [?vote] ?n4)\<lparr>ticks := 6\<rparr>"
  have "campaigning ?el 1 ?n4" "campaigning ?el 1 ?n5"
    using on late ids(2) by (auto simp: campaigning_def online_def)
  moreover have "half ?n5 = int (length all) div 2"
    using od on by (simp add: half_def floor_division_def)
  moreover have "\<not> int (length all) div 2 < 1"
    using ids(2) by linarith
  ultimately have t5: "thread_step (InCandidate ?el, ?n4) = (InCandidate ?el, ?n5)"
      and t6: "thread_step (InCandidate ?el, ?n5) = (InCandidate (?el\<lparr>votes_for_me := 1, total_votes := 1\<rparr>), (with_inbox [] ?n5)\<lparr>ticks := 7\<rparr>)"
    using candidate_ignores_request [of ?el ?n4 u "[?vote]"] candidate_reads_vote [of ?el ?n5 w True "[]"] u on
    by (simp_all add: online_def)
  let ?s5 = "s\<lparr>nodes := (nodes s)(i := ?n5), wires := ?X []\<rparr>"
  have s5: "play (Thread i) ?s4 = ?s5"
    by (subst play_thread [where c = "InCandidate ?el" and n = ?n5]) (use s(1) t5 in \<open>simp_all add: fun_upd_idem\<close>)
  let ?s6 = "s\<lparr>threads := (threads s)(i := InCandidate (?el\<lparr>votes_for_me := 1, total_votes := 1\<rparr>)),
      nodes := (nodes s)(i := (with_inbox [] ?n5)\<lparr>ticks := 7\<rparr>), wires := ?X []\<rparr>"
  have s6: "play (Thread i) ?s5 = ?s6"
    by (subst play_thread [where c = "InCandidate (?el\<lparr>votes_for_me := 1, total_votes := 1\<rparr>)" and n = "(with_inbox [] ?n5)\<lparr>ticks := 7\<rparr>"])
       (use s(1) t6 in simp_all)
  have t: "fold play (drop 2 (stand i ids)) s = ?s6"
    unfolding stand_def by (simp only: drop_Suc_Cons drop0 numeral_2_eq_2 fold_simps s1 s2 s3 s4 s5 s6)
  have plain: "with_inbox [] (with_outbox [] ?c) = with_outbox [] ?c"
    using on(2) by (simp add: with_inbox_def with_outbox_def)
  have "\<exists>x \<ge> 5. (with_outbox [] ?c)\<lparr>ticks := 7\<rparr> = (with_outbox [] ?c)\<lparr>ticks := x\<rparr>"
    by (intro exI [of _ 7]) simp
  then have "bidding i (with_outbox [] ?c) (int (length all) div 2) 1 ?s6"
    using on late ids(2) od
    by (simp add: plain bidding_def half_def floor_division_def online_def)
      (simp add: with_outbox_def)
  then show ?thesis
    unfolding t using quiet by auto
qed

lemma group_elects:
  assumes st: "started ab s" and dist: "distinct (member_addresses ab)" and i: "i \<in> set (member_addresses ab)"
    and size: "2 \<le> length (member_addresses ab)" and od: "floor_division (lib_old_div (nodes s i))"
    and due: "clock (nodes s i) 1 - clock (nodes s i) 0 > election_timeout (nodes s i)"
    and late: "\<forall>k \<ge> 5. clock (nodes s i) k - clock (nodes s i) 4 \<le> election_timeout (nodes s i)"
    and patient: "\<forall>j \<in> set (member_addresses ab). j \<noteq> i \<longrightarrow>
        (\<forall>k l. clock (nodes s j) k - clock (nodes s j) l \<le> election_timeout (nodes s j))"
  shows "\<exists>ms. list_all (move_ok (member_addresses ab)) ms
     \<and> elected i (with_outbox [] (candidate_of (up (nodes s i)))) (fold play ms s)
     \<and> (\<forall>v \<in> set (member_addresses ab). v \<noteq> i \<longrightarrow> ready i 2 [init_entry] v (fold play ms s)) \<and> wires (fold play ms s) i i = []"
proof -
  let ?ids = "member_addresses ab"
  let ?N = "length ?ids"
  note fresh = started_fresh [OF st]
  obtain s1 where run1: "fold play (concat (map set_up ?ids)) s = s1"
    by blast
  have s1: "s1 = s\<lparr>threads := (\<lambda>k. if k \<in> set ?ids then InFollower (clock (nodes s k) 0) else threads s k),
      nodes := (\<lambda>k. if k \<in> set ?ids then up (nodes s k) else nodes s k)\<rparr>"
    unfolding run1 [symmetric] using fresh dist by (intro set_up_all) auto
  have quiet: "wires s1 a b = []" for a b
    using st by (simp add: s1 started_def)
  have "nodes s1 i = up (nodes s i)" "threads s1 i = InFollower (clock (nodes s i) 0)"
    using i by (simp_all add: s1)
  from stands_up [OF fresh(1) [OF i] this due] obtain u w where
    u: "my_id u = i" "current_term u = 2" "last_applied_index u = 0" "last_applied_term u = 1"
    and two: "fold play [Thread i, Thread i] s1 =
        s1\<lparr>threads := (threads s1)(i := InCandidate \<lparr>votes_for_me = 0, total_votes = 0, time_election_going = clock (nodes s i) 4\<rparr>),
          nodes := (nodes s1)(i := with_outbox [jsonify (request_vote_message PyNone u), ballot_paper i (w, True)] (candidate_of (up (nodes s i))))\<rparr>"
    by blast
  obtain s2 where run2: "fold play [Thread i, Thread i] s1 = s2"
    by blast
  let ?c = "with_outbox [] (candidate_of (up (nodes s i)))"
  let ?js = "filter (\<lambda>j. j \<noteq> i) ?ids"
  let ?J = "take (?N div 2) ?js"
  have "set ?js = set ?ids - {i}"
    by auto
  then have "length ?js = ?N - 1"
    using dist i distinct_card [of ?js] distinct_card [of ?ids] by simp
  then have J: "length ?J = ?N div 2" "distinct ?J" "i \<notin> set ?J" "set ?J \<subseteq> set ?ids"
    using size dist by (auto dest: in_set_takeD)
  obtain s3 where run3: "fold play (drop 2 (stand i (i # ?J))) s2 = s3"
    by blast
  note s2 = two [unfolded run2]
  have bid: "bidding i ?c (int ?N div 2) 1 s3"
    and same: "\<And>j. j \<noteq> i \<Longrightarrow> threads s3 j = threads s1 j \<and> nodes s3 j = nodes s1 j"
    and wires: "\<And>a b. wires s3 a b = (if a = i \<and> b \<in> set ?J then [jsonify (request_vote_message PyNone u)] else [])"
    using votes_for_itself [OF fresh(1) [OF i] _ size od late u(2), of "i # ?J" s2 w] quiet J(3)
    by (auto simp: s2 run3 [unfolded s2] simp del: jsonify.simps)
  have member: "waiting j (nodes s3 j) \<and> threads s3 j = InFollower (clock (nodes s3 j) 0)" if "j \<in> set ?ids" "j \<noteq> i" for j
    using same [OF that(2)] fresh(1) [OF that(1)] patient that
    by (auto simp: s1 waiting_def follows_def fresh_def up_def online_def)
  have voters: "\<forall>j \<in> set ?J. voter i j s3"
  proof
    fix j
    assume j: "j \<in> set ?J"
    then have "j \<in> set ?ids" "j \<noteq> i"
      using J(3,4) by auto
    with member [of j] j wires u show "voter i j s3"
      unfolding voter_def by (intro conjI exI [of _ 0] exI [of _ u]) simp_all
  qed
  let ?cast = "concat (map (cast i) ?J)"
  have votes: "elected i ?c (fold play ?cast s3) \<and> (\<forall>j \<in> set ?J. ready i 2 [init_entry] j (fold play ?cast s3))
      \<and> apart i (set ?J) s3 (fold play ?cast s3)"
    by (rule voters_decide [OF bid voters J(3,2)]) (use size J(1) in auto)
  have others: "ready i 2 [init_entry] v (fold play ?cast s3)" if "v \<in> set ?ids" "v \<noteq> i" for v
  proof (cases "v \<in> set ?J")
    case False
    then have "ready i 2 [init_entry] v s3"
      using member [OF that] that(2) J(3) wires by (auto simp: ready_def waiting_def)
    with False that(2) votes apart_keeps show ?thesis
      by blast
  qed (use votes in blast)
  let ?ms = "concat (map set_up ?ids) @ stand i (i # ?J) @ ?cast"
  have "stand i (i # ?J) = [Thread i, Thread i] @ drop 2 (stand i (i # ?J))"
    by (simp add: stand_def numeral_2_eq_2)
  then have run: "fold play ?ms s = fold play ?cast s3"
    by (metis fold_append comp_apply run1 run2 run3)
  have "list_all (move_ok ?ids) ?ms"
    using i J(4) by (auto simp: list_all_iff set_up_def stand_def cast_def)
  moreover have "wires (fold play ?cast s3) i i = []"
    using votes wires J(3) by (auto simp: apart_def)
  ultimately show ?thesis
    using votes others run by (intro exI [of _ ?ms]) (simp del: play.simps)
qed

section \<open>Properties\<close>

text \<open>
  C11. A candidate counts exactly: reading answers that it has been sent, it stays a candidate
  with as many votes as were granted, and with the first answer that gives it more than
  half of the group, and not before, it takes the role of the leader in its term.
\<close>

theorem majority_makes_the_leader:
  assumes "campaigning el (length vs + 1) s" and "inbox s = map (ballot_paper (my_id s)) (vs @ [(u, True)]) @ q"
    and "votes_for_me el + granted vs = half s"
  shows "(\<forall>k \<le> length vs. thread_steps k (InCandidate el, s) =
        (InCandidate (el\<lparr>votes_for_me := votes_for_me el + granted (take k vs), total_votes := total_votes el + int k\<rparr>),
         (with_inbox (map (ballot_paper (my_id s)) (drop k vs @ [(u, True)]) @ q) s)\<lparr>ticks := ticks s + k\<rparr>))
     \<and> thread_steps (length vs + 1) (InCandidate el, s) =
        (Dispatch, (with_inbox q s)\<lparr>ticks := ticks s + length vs, current_role := Leader\<rparr>)"
proof -
  have count: "thread_steps k (InCandidate el, s) =
      (InCandidate (el\<lparr>votes_for_me := votes_for_me el + granted (take k vs), total_votes := total_votes el + int k\<rparr>),
       (with_inbox (map (ballot_paper (my_id s)) (drop k vs @ [(u, True)]) @ q) s)\<lparr>ticks := ticks s + k\<rparr>)"
    if "k \<le> length vs" for k
  proof -
    have "granted (take k vs) + granted (drop k vs) = granted vs"
      unfolding granted_def by (metis append_take_drop_id filter_append length_append of_nat_add)
    then have "votes_for_me el + granted (take k vs) \<le> half s"
      using assms(3) by (simp add: granted_def)
    moreover have "campaigning el (length (take k vs)) s"
      using assms(1) by (simp add: campaigning_def)
    moreover have "inbox s = map (ballot_paper (my_id s)) (take k vs) @ map (ballot_paper (my_id s)) (drop k vs @ [(u, True)]) @ q"
      using assms(2) by (metis append.assoc append_take_drop_id map_append)
    ultimately show ?thesis
      using candidate_counts [of el "take k vs" s] that by simp
  qed
  let ?el = "el\<lparr>votes_for_me := votes_for_me el + granted vs, total_votes := total_votes el + int (length vs)\<rparr>"
  let ?s = "(with_inbox (ballot_paper (my_id s) (u, True) # q) s)\<lparr>ticks := ticks s + length vs\<rparr>"
  have "campaigning ?el 1 ?s"
    using assms(1) by (auto simp: campaigning_def)
  from candidate_reads_vote [OF this, of u True q] assms(3)
  have "thread_step (InCandidate ?el, ?s) = (Dispatch, (with_inbox q s)\<lparr>ticks := ticks s + length vs, current_role := Leader\<rparr>)"
    by (simp add: half_def)
  moreover have "thread_steps (k + 1) cs = thread_step (thread_steps k cs)" for k cs
    by (induction k arbitrary: cs) simp_all
  ultimately show ?thesis
    using count count [of "length vs"] by simp
qed

text \<open>
  The group can elect any of its members: from every start of a group of two or more
  members, some schedule makes a given member a leader of term 2, in the leader's loop, if
  its clock shows the time-out of a follower and then none of a candidate, and no other
  member's clock shows a time-out.
\<close>

theorem any_member_can_be_elected:
  assumes st: "started ab s" and "distinct (member_addresses ab)" and i: "i \<in> set (member_addresses ab)"
    and "2 \<le> length (member_addresses ab)" and "floor_division (lib_old_div (nodes s i))"
    and "clock (nodes s i) 1 - clock (nodes s i) 0 > election_timeout (nodes s i)"
    and "\<forall>k \<ge> 5. clock (nodes s i) k - clock (nodes s i) 4 \<le> election_timeout (nodes s i)"
    and "\<forall>j \<in> set (member_addresses ab). j \<noteq> i \<longrightarrow>
        (\<forall>k l. clock (nodes s j) k - clock (nodes s j) l \<le> election_timeout (nodes s j))"
  shows "\<exists>ms mrh. list_all (move_ok (member_addresses ab)) ms \<and> threads (fold play ms s) i = InLeader mrh
     \<and> current_role (nodes (fold play ms s) i) = Leader \<and> current_term (nodes (fold play ms s) i) = 2"
proof -
  from group_elects [OF assms] obtain ms where ms: "list_all (move_ok (member_addresses ab)) ms"
      "elected i (with_outbox [] (candidate_of (up (nodes s i)))) (fold play ms s)"
    by blast
  let ?t = "fold play ms s"
  have "reachable json_norm ab ?t"
    by (rule play_reachable [OF reachable.start [OF st] ms(1)])
  from sys_ok_node [OF reachable_ok [OF this json_wire_norm] i] have ok: "node_ok (member_addresses ab) (nodes ?t i)"
    by (simp add: node_sound_def thread_ok_def)
  have "always same_standing leader_start"
    unfolding leader_start_def
    by (intro standing.seq_frame standing.leader_take_over) (simp add: always_def wp same_standing_def)
  moreover from wp_total [OF leader_start_ok [OF ok]] obtain mrh u where u: "leader_start (nodes ?t i) = (Inr mrh, u)"
    by blast
  ultimately have "same_standing (nodes ?t i) u"
    by (rule always_run)
  then have led: "current_role u = Leader" "current_term u = 2"
    using ms(2) by (simp_all add: same_standing_def elected_def)
  have "thread_step (threads ?t i, nodes ?t i) = (InLeader mrh, u)"
    using ms(2) u by (simp add: elected_def thread_step_def run_dispatch_def check_role_def py_run)
  from play_thread [OF this] led have "threads (fold play (ms @ [Thread i]) s) i = InLeader mrh
      \<and> current_role (nodes (fold play (ms @ [Thread i]) s) i) = Leader \<and> current_term (nodes (fold play (ms @ [Thread i]) s) i) = 2"
    by simp
  moreover have "list_all (move_ok (member_addresses ab)) (ms @ [Thread i])"
    using ms(1) i by simp
  ultimately show ?thesis
    by blast
qed

theorem any_member_can_be_elected_witness:
  "\<exists>ms mrh. list_all (move_ok (member_addresses trio)) ms
     \<and> threads (fold play ms (scene prompt patient patient)) ''h:1'' = InLeader mrh
     \<and> current_role (nodes (fold play ms (scene prompt patient patient)) ''h:1'') = Leader
     \<and> current_term (nodes (fold play ms (scene prompt patient patient)) ''h:1'') = 2"
  by (rule any_member_can_be_elected [OF started_scene])
     (simp_all add: scene_def fresh_node_def prompt_def patient_def floor_division_def)

definition sample_candidate :: raft_node where
  "sample_candidate = with_inbox (map (ballot_paper ''h:1'') ([(trio_node ''node2'', False)] @ [(trio_node ''node3'', True)]) @ [])
     ((trio_node ''node1'')\<lparr>current_role := Candidate, clock := patient\<rparr>)"

theorem majority_makes_the_leader_witness:
  "thread_steps 1 (InCandidate \<lparr>votes_for_me = 1, total_votes = 1, time_election_going = 0\<rparr>, sample_candidate) =
     (InCandidate \<lparr>votes_for_me = 1, total_votes = 2, time_election_going = 0\<rparr>,
      (with_inbox [ballot_paper ''h:1'' (trio_node ''node3'', True)] sample_candidate)\<lparr>ticks := ticks sample_candidate + 1\<rparr>)
   \<and> thread_steps 2 (InCandidate \<lparr>votes_for_me = 1, total_votes = 1, time_election_going = 0\<rparr>, sample_candidate) =
     (Dispatch, (with_inbox [] sample_candidate)\<lparr>ticks := ticks sample_candidate + 1, current_role := Leader\<rparr>)"
proof -
  let ?el = "\<lparr>votes_for_me = 1, total_votes = 1, time_election_going = 0\<rparr>"
  let ?vs = "[(trio_node ''node2'', False)]"
  have "(\<forall>k \<le> length ?vs. thread_steps k (InCandidate ?el, sample_candidate) =
        (InCandidate (?el\<lparr>votes_for_me := votes_for_me ?el + granted (take k ?vs), total_votes := total_votes ?el + int k\<rparr>),
         (with_inbox (map (ballot_paper (my_id sample_candidate)) (drop k ?vs @ [(trio_node ''node3'', True)]) @ []) sample_candidate)
           \<lparr>ticks := ticks sample_candidate + k\<rparr>))
     \<and> thread_steps (length ?vs + 1) (InCandidate ?el, sample_candidate) =
        (Dispatch, (with_inbox [] sample_candidate)\<lparr>ticks := ticks sample_candidate + length ?vs, current_role := Leader\<rparr>)"
    by (rule majority_makes_the_leader)
      (simp_all add: sample_candidate_def campaigning_def fresh_node_def patient_def granted_def half_def)
  moreover have "my_id sample_candidate = ''h:1''" "granted ?vs = 0"
    by (simp_all add: sample_candidate_def fresh_node_def granted_def)
  ultimately show ?thesis
    by (auto simp: numeral_2_eq_2 simp del: thread_steps.simps)
qed

end
