(* ===== verification/Raft_Progress.thy ===== *)
theory Raft_Progress
  imports Raft_Campaign
begin

text \<open>
  Requests are answered: for a group of any size, a schedule that has the leader commit the
  requests of a client, in order and at every member. A round (\<open>in_round\<close>) begins with the
  offer of an entry to everybody and is played member by member (\<open>deliver\<close>); it ends when the
  members have been told that the entry is committed (\<open>closing\<close>, \<open>inform\<close>), in the state in
  which the next can begin (\<open>in_sync\<close>).
\<close>

section \<open>A pass of the leader's loop while its clock stands\<close>

lemma run_intros:
  "m s = (Inr a, s') \<Longrightarrow> bnd m f s = f a s'"
  "k s = (Inr b, s') \<Longrightarrow> seq k j s = j s'"
  "gets g s = (Inr (g s), s)"
  by (simp_all add: py_run)

definition clocked :: "raft_node \<Rightarrow> rat \<Rightarrow> bool" where
  "clocked n x \<longleftrightarrow> (\<exists>k \<ge> 4. x = clock n k)"

text \<open>From its fifth reading on the clock moves less than the heartbeat interval.\<close>

definition still :: "raft_node \<Rightarrow> bool" where
  "still n \<longleftrightarrow>
     4 \<le> ticks n \<and> heartbeat_frequency n = 1 / 100 \<and> resend_time n = 2
     \<and> length (heard_from n) = length (next_index n) \<and> (\<forall>h \<in> set (heard_from n). clocked n h)
     \<and> (\<forall>k \<ge> 4. \<forall>l \<ge> 4. clock n k - clock n l \<le> 1 / 100)"

lemma still_ticks: "still n \<Longrightarrow> ticks n \<le> t \<Longrightarrow> still (n\<lparr>ticks := t\<rparr>)"
  by (auto simp: still_def clocked_def)

lemma no_heartbeat:
  assumes "still n" and "clocked n mrh"
  shows "leader_send_heartbeat_if_due mrh n = (Inr mrh, n\<lparr>ticks := Suc (ticks n)\<rparr>)"
proof -
  have "clock n (ticks n) - mrh \<le> 1 / 100"
    using assms by (auto simp: still_def clocked_def)
  then have "\<not> heartbeat_frequency n < clock n (ticks n) - mrh"
    using assms(1) by (simp add: still_def)
  then show ?thesis
    by (simp add: leader_send_heartbeat_if_due_def py_run time_time_def)
qed

lemma no_resend_node:
  assumes "still n" and "x < length (next_index n)"
  shows "\<exists>t \<ge> ticks n. leader_resend_node x n = (Inr (), n\<lparr>ticks := t\<rparr>)"
proof (cases "next_index n ! x")
  case None
  with assms(2) show ?thesis
    by (intro exI [of _ "ticks n"]) (simp add: leader_resend_node_def py_run)
next
  case (Some k)
  have x: "x < length (heard_from n)"
    using assms by (simp add: still_def)
  then have "clocked n (heard_from n ! x)"
    using assms(1) by (simp add: still_def)
  then have "clock n (ticks n) - heard_from n ! x \<le> 1 / 100"
    using assms(1) by (auto simp: still_def clocked_def)
  then have "\<not> resend_time n < clock n (ticks n) - heard_from n ! x"
    using assms(1) by (simp add: still_def)
  with Some assms(2) x show ?thesis
    by (intro exI [of _ "Suc (ticks n)"]) (simp add: leader_resend_node_def py_run time_time_def)
qed

lemma no_resend:
  assumes "still n" and "\<forall>x \<in> set xs. x < length (next_index n)"
  shows "\<exists>t \<ge> ticks n. for_each xs leader_resend_node n = (Inr (), n\<lparr>ticks := t\<rparr>)"
  using assms
proof (induction xs arbitrary: n)
  case Nil
  then show ?case
    by (intro exI [of _ "ticks n"]) (simp add: ret_def)
next
  case (Cons x xs)
  obtain t where t: "ticks n \<le> t" "leader_resend_node x n = (Inr (), n\<lparr>ticks := t\<rparr>)"
    using no_resend_node [of n x] Cons.prems by auto
  have "\<exists>t' \<ge> t. for_each xs leader_resend_node (n\<lparr>ticks := t\<rparr>) = (Inr (), n\<lparr>ticks := t'\<rparr>)"
    using Cons.IH [of "n\<lparr>ticks := t\<rparr>"] Cons.prems still_ticks [of n t] t(1) by simp
  then obtain t' where "t \<le> t'" "for_each xs leader_resend_node (n\<lparr>ticks := t\<rparr>) = (Inr (), n\<lparr>ticks := t'\<rparr>)"
    by blast
  with t show ?case
    by (intro exI [of _ t']) (simp add: run_intros(2) [where k = "leader_resend_node x" and s = n, OF t(2)])
qed

definition in_charge :: "raft_node \<Rightarrow> bool" where
  "in_charge n \<longleftrightarrow> \<not> terminate n \<and> current_role n = Leader \<and> still n"

text \<open>What is left of a pass after the resends.\<close>

definition leader_hears :: "rat \<Rightarrow> rat flow raft" where
  "leader_hears mrh =
     bnd get_message (\<lambda>im. bnd (case im of None \<Rightarrow> ret (Continue ()) | Some m \<Rightarrow> leader_handle m) (\<lambda>fl.
     case fl of
       Return \<Rightarrow> ret Return
     | Continue _ \<Rightarrow>
         bnd get_client_request (\<lambda>cr.
         seq (case cr of None \<Rightarrow> ret () | Some e \<Rightarrow> broadcast_append_entries e)
         (ret (Continue mrh)))))"

lemma leader_pass:
  assumes "in_charge n" and "clocked n mrh"
  shows "\<exists>t \<ge> ticks n. leader_iteration mrh n = leader_hears mrh (n\<lparr>ticks := t\<rparr>)"
proof -
  have still: "still n"
    using assms(1) by (simp add: in_charge_def)
  let ?n = "n\<lparr>ticks := Suc (ticks n)\<rparr>"
  have "still ?n"
    by (rule still_ticks [OF still]) simp
  then obtain t where t: "Suc (ticks n) \<le> t" "for_each [0..<length (next_index n)] leader_resend_node ?n = (Inr (), n\<lparr>ticks := t\<rparr>)"
    using no_resend [of ?n "[0..<length (next_index n)]"] by auto
  have "leader_iteration mrh n = leader_round mrh ?n"
    by (simp add: leader_iteration_def bnd_def no_heartbeat [OF still assms(2)])
  also have "\<dots> = leader_hears mrh (n\<lparr>ticks := t\<rparr>)"
    unfolding leader_round_def leader_hears_def [symmetric]
    by (subst run_intros(1) [OF run_intros(3)], rule run_intros(2)) (use t(2) in simp)
  finally show ?thesis
    using t(1) by (intro exI [of _ t]) simp
qed

lemma leader_reads:
  assumes "in_charge n" and "clocked n mrh" and "inbox n = x # q" and "parse_json_message x = Inr (Some m)"
  shows "\<exists>t \<ge> ticks n. \<forall>u. leader_handle m (with_inbox q (n\<lparr>ticks := t\<rparr>)) = (Inr (Continue ()), u) \<longrightarrow> client_queue u = [] \<longrightarrow>
    thread_step (InLeader mrh, n) = (InLeader mrh, u)"
proof -
  obtain t where t: "ticks n \<le> t" and pass: "leader_iteration mrh n = leader_hears mrh (n\<lparr>ticks := t\<rparr>)"
    using leader_pass [OF assms(1,2)] by auto
  have "get_message (n\<lparr>ticks := t\<rparr>) = (Inr (Some m), with_inbox q (n\<lparr>ticks := t\<rparr>))"
    by (rule get_message_run [OF _ assms(4)]) (simp add: assms(3))
  with t pass assms(1) show ?thesis
    by (intro exI [of _ t])
       (simp add: thread_step_def in_role_def after_iteration_def in_charge_def leader_hears_def get_client_request_def queue_get_nowait_def py_run)
qed

lemma leader_takes_request:
  assumes "in_charge n" and "clocked n mrh" and "inbox n = []" and "client_queue n = [e]"
  shows "\<exists>t \<ge> ticks n. \<forall>u. broadcast_append_entries e (n\<lparr>ticks := t, client_queue := []\<rparr>) = (Inr (), u) \<longrightarrow>
    thread_step (InLeader mrh, n) = (InLeader mrh, u)"
proof -
  obtain t where t: "ticks n \<le> t" and pass: "leader_iteration mrh n = leader_hears mrh (n\<lparr>ticks := t\<rparr>)"
    using leader_pass [OF assms(1,2)] by auto
  have "get_message (n\<lparr>ticks := t\<rparr>) = (Inr None, n\<lparr>ticks := t\<rparr>)"
    by (rule empty_inbox_read) (simp add: assms(3))
  with t pass assms(1,4) show ?thesis
    by (intro exI [of _ t])
       (simp add: thread_step_def in_role_def after_iteration_def in_charge_def leader_hears_def get_client_request_def queue_get_nowait_def py_run)
qed

section \<open>What the leader does with a full acknowledgement\<close>

text \<open>The word of \<open>i\<close> to \<open>v\<close> that the log is committed up to \<open>c\<close>.\<close>

definition committal_to :: "string \<Rightarrow> int \<Rightarrow> string \<Rightarrow> pyval \<Rightarrow> bool" where
  "committal_to i c v x \<longleftrightarrow> (\<exists>g. x = jsonify (committal_message (PyStr v) g) \<and> my_id g = i \<and> last_applied_index g = c)"

text \<open>The leader after its commit rule: its own commit position, and the others told of a new one.\<close>

definition commits_to :: "int \<Rightarrow> raft_node \<Rightarrow> raft_node \<Rightarrow> bool" where
  "commits_to c n u \<longleftrightarrow>
     commit_index u = c
     \<and> (\<exists>a b t vs. ticks n \<le> t
        \<and> (if c = commit_index n then vs = [] else list_all2 (committal_to (my_id n) c) (all_ids n) vs) \<and> u = n\<lparr>last_applied_index := a, last_applied_term := b, commit_index := c, ticks := t,
          node_talker := (node_talker n)\<lparr>t_messages := outbox n @ vs\<rparr>\<rparr>)"

lemma commit_rule_run:
  assumes od: "floor_division (lib_old_div n)" and mt: "match_index n \<noteq> []" "current_num_nodes n = int (length (match_index n))"
    and ids: "length (all_ids n) = length (match_index n)" and mx: "Min (set (match_index n)) < int (length (rlog n))" "0 \<le> commit_index n"
  shows "\<exists>u. leader_commit_rule n = (Inr (), u) \<and> commits_to (max (commit_index n) (Min (set (match_index n)))) n u"
proof -
  let ?mx = "Min (set (match_index n))"
  let ?n = "n\<lparr>last_applied_index := ?mx, last_applied_term := e_term (rlog n ! nat ?mx), commit_index := ?mx\<rparr>"
  let ?N = "length (match_index n)" and ?to = "committal_to (my_id n) ?mx"
  let ?at = "\<lambda>vs t. ?n\<lparr>ticks := t, node_talker := (node_talker n)\<lparr>t_messages := outbox n @ vs\<rparr>\<rparr>"
  let ?I = "\<lambda>xs u. \<exists>d t vs. xs = map (\<lambda>k. (match_index n ! k, k)) [d..<?N] \<and> d \<le> ?N \<and> ticks n \<le> t
      \<and> list_all2 ?to (take d (all_ids n)) vs \<and> u = ?at vs t"
  have pairs: "zip (match_index n) [0..<?N] = map (\<lambda>k. (match_index n ! k, k)) [0..<?N]"
    by (intro nth_equalityI) simp_all
  have "wp (for_each (zip (match_index n) [0..<?N]) broadcast_commit_node) (\<lambda>_. ?I []) (\<lambda>_ _. False) ?n"
  proof (rule wp_for_each [where I = ?I])
    show "?I (zip (match_index n) [0..<?N]) ?n"
      using pairs by (intro exI [of _ 0] exI [of _ "ticks n"] exI [of _ "[]"]) simp
    fix x ys u
    assume "?I (x # ys) u"
    then obtain d t vs where d: "x # ys = map (\<lambda>k. (match_index n ! k, k)) [d..<?N]" "ticks n \<le> t"
        "list_all2 ?to (take d (all_ids n)) vs" and u: "u = ?at vs t"
      by (elim exE conjE) (rule that)
    have x: "x = (match_index n ! d, d)" "d < ?N" "ys = map (\<lambda>k. (match_index n ! k, k)) [Suc d..<?N]"
      using d(1) by (cases "d < ?N"; simp add: upt_conv_Cons)+
    let ?m = "committal_message (PyStr (all_ids n ! d)) u"
    have "?to (all_ids n ! d) (jsonify ?m)"
      unfolding committal_to_def by (intro exI [of _ u]) (simp add: u)
    then have vs: "list_all2 ?to (take (Suc d) (all_ids n)) (vs @ [jsonify ?m])"
      using d(3) x(2) ids by (simp add: take_Suc_conv_app_nth list_all2_appendI)
    have "sent ?m u = ?at (vs @ [jsonify ?m]) (Suc t)"
      by (simp add: u sent_def Talker_send_message_def queue_put_def del: jsonify.simps)
    with vs d(2) x have "?I ys (sent ?m u)"
      by (intro exI [of _ "Suc d"] exI [of _ "Suc t"] exI [of _ "vs @ [jsonify ?m]"]) simp
    moreover have "all_ids u = all_ids n" "d < length (all_ids n)"
      using x ids by (simp_all add: u)
    ultimately show "wp (broadcast_commit_node x) (\<lambda>_. ?I ys) (\<lambda>_ _. False) u"
      by (simp add: broadcast_commit_node_def x(1) wp)
  qed
  moreover have "commits_to ?mx n u" if new: "commit_index n < ?mx" and I: "?I [] u" for u
  proof -
    from I obtain d t vs where "[d..<?N] = []" "d \<le> ?N" "ticks n \<le> t" "list_all2 ?to (take d (all_ids n)) vs" and u: "u = ?at vs t"
      by (elim exE conjE) (rule that, simp_all)
    then have "ticks n \<le> t" "list_all2 ?to (all_ids n) vs"
      using ids mt(1) by simp_all
    then show ?thesis
      using new u unfolding commits_to_def
      by (intro conjI exI [of _ ?mx] exI [of _ "e_term (rlog n ! nat ?mx)"] exI [of _ t] exI [of _ vs]) simp_all
  qed
  ultimately have run: "wp (broadcast_commit_entries ?mx) (\<lambda>_. commits_to ?mx n) (\<lambda>_ _. False) n" if "commit_index n < ?mx"
    using mx that by (auto simp: broadcast_commit_entries_def wp elim!: wp_mono)
  have stay: "commits_to (commit_index n) n n"
    unfolding commits_to_def
    by (intro conjI exI [of _ "last_applied_index n"] exI [of _ "last_applied_term n"] exI [of _ "ticks n"] exI [of _ "[]"]) simp_all
  have "wp leader_commit_rule (\<lambda>_. commits_to (max (commit_index n) ?mx) n) (\<lambda>_ _. False) n"
    using run stay committable_least [OF od mt(2,1)] by (auto simp: leader_commit_rule_def wp max_def)
  from wp_total [OF this] show ?thesis
    by auto
qed

lemma acknowledge_run:
  assumes ids: "all_ids n = ids" "distinct ids" "j < length ids" "length (next_index n) = length ids"
      "length (match_index n) = length ids" "length (heard_from n) = length ids" "current_num_nodes n = int (length ids)"
    and od: "floor_division (lib_old_div n)" and pending: "next_index n ! j = Some k" "int (length (rlog n)) = k + 1" "1 \<le> k"
    and m: "msg_sender m = PyStr (ids ! j)" "results_success (msg_results m) = Inr (PyBool True)"
    and c: "0 \<le> commit_index n" "\<forall>x \<in> set (match_index n). x \<le> k"
  shows "\<exists>u. leader_acknowledge m n = (Inr (), u)
    \<and> commits_to (max (commit_index n) (Min (set ((match_index n)[j := k]))))
        (n\<lparr>ticks := Suc (ticks n), heard_from := (heard_from n)[j := clock n (ticks n)],
           match_index := (match_index n)[j := k], next_index := (next_index n)[j := None]\<rparr>) u"
proof -
  let ?n = "n\<lparr>ticks := Suc (ticks n), heard_from := (heard_from n)[j := clock n (ticks n)],
      match_index := (match_index n)[j := k], next_index := (next_index n)[j := None]\<rparr>"
  have "leader_acknowledge m n = leader_commit_rule ?n"
    using ids pending m
    by (simp add: leader_acknowledge_def leader_acknowledge_pending_def get_node_index_def py_index_nth py_run time_time_def
        ack_next_index_def log_max_index_def)
  moreover have "\<exists>u. leader_commit_rule ?n = (Inr (), u)
      \<and> commits_to (max (commit_index ?n) (Min (set (match_index ?n)))) ?n u"
  proof (rule commit_rule_run)
    show "Min (set (match_index ?n)) < int (length (rlog ?n))"
    proof -
      have "set (match_index ?n) \<noteq> {}" "\<forall>x \<in> set (match_index ?n). x \<le> k"
        using ids(3,5) c(2) by (auto dest!: set_update_subset_insert [THEN subsetD])
      then have "Min (set (match_index ?n)) \<le> k"
        by (meson List.finite_set Min_in)
      with pending(2) show ?thesis
        by simp
    qed
  qed (use ids od c in auto)
  ultimately show ?thesis
    by simp
qed

section \<open>What the leader offers\<close>

text \<open>The offer of \<open>e\<close>, after the end of the log \<open>L\<close>, by \<open>i\<close> in term \<open>T\<close> to \<open>v\<close>.\<close>

definition offer_to :: "string \<Rightarrow> int \<Rightarrow> entry list \<Rightarrow> entry \<Rightarrow> string \<Rightarrow> pyval \<Rightarrow> bool" where
  "offer_to i T L e v x \<longleftrightarrow>
     (\<exists>g. x = jsonify (append_message (int (length L) - 1) (e_term (last L)) e (PyStr v) g) \<and> my_id g = i \<and> current_term g = T)"

definition offered :: "string list \<Rightarrow> entry \<Rightarrow> raft_node \<Rightarrow> raft_node \<Rightarrow> bool" where
  "offered ids e n u \<longleftrightarrow>
     (\<exists>xs t. ticks n \<le> t \<and> list_all2 (offer_to (my_id n) (current_term n) (rlog n) e) ids xs
        \<and> u = n\<lparr>rlog := rlog n @ [e], log_hash := (log_hash n)(py_hash_key (e_id e) \<mapsto> e), ticks := t,
             node_talker := (node_talker n)\<lparr>t_messages := outbox n @ xs\<rparr>,
             next_index := map (\<lambda>v. if v = my_id n then None else Some (int (length (rlog n)))) ids,
             match_index := map2 (\<lambda>v k. if v = my_id n then int (length (rlog n)) else k) ids (match_index n)\<rparr>)"

lemma map_upd_own:
  assumes "distinct ids" and "j < length ids"
  shows "(map (\<lambda>v. Some a) ids)[j := None] = map (\<lambda>v. if v = ids ! j then None else Some a) ids"
    and "length ks = length ids \<Longrightarrow> ks[j := a] = map2 (\<lambda>v k. if v = ids ! j then a else k) ids ks"
  using assms by (auto intro!: nth_equalityI simp: nth_list_update nth_eq_iff_index_eq)

lemma own_indices_run:
  assumes ids: "all_ids u = ids" "distinct ids" "my_id u \<in> set ids" "length (match_index u) = length ids"
    and next_ix: "next_index u = map (\<lambda>_. Some k) ids" and k: "log_max_index u = k"
  shows "wp update_own_indices (\<lambda>_ w. w = u\<lparr>next_index := map (\<lambda>v. if v = my_id u then None else Some k) ids,
      match_index := map2 (\<lambda>v x. if v = my_id u then k else x) ids (match_index u)\<rparr>) (\<lambda>_ _. False) u"
proof -
  obtain j where j: "j < length ids" "ids ! j = my_id u"
    using ids(3) by (auto simp: in_set_conv_nth)
  have "py_index ids (my_id u) = Inr (int j)"
    using py_index_nth [OF ids(2) j(1)] j(2) by simp
  moreover have "(next_index u)[j := None] = map (\<lambda>v. if v = my_id u then None else Some k) ids"
      "(match_index u)[j := k] = map2 (\<lambda>v x. if v = my_id u then k else x) ids (match_index u)"
    using map_upd_own [OF ids(2) j(1)] ids(4) j(2) by (simp_all add: next_ix)
  ultimately show ?thesis
    using j(1) ids(1,4) next_ix k by (simp add: update_own_indices_def wp log_max_index_def)
qed

lemma broadcast_run:
  assumes ids: "all_ids n = ids" "distinct ids" "my_id n \<in> set ids" "length (match_index n) = length ids"
    and next_ix: "next_index n = map (\<lambda>_. None) ids" and log: "rlog n \<noteq> []" and e: "py_hashable (e_id e)"
  shows "\<exists>u. broadcast_append_entries e n = (Inr (), u) \<and> offered ids e n u"
proof -
  let ?n = "n\<lparr>rlog := rlog n @ [e], log_hash := (log_hash n)(py_hash_key (e_id e) \<mapsto> e)\<rparr>"
  let ?k = "int (length (rlog n))" and ?N = "length ids"
  let ?at = "\<lambda>d xs t. ?n\<lparr>ticks := t, node_talker := (node_talker n)\<lparr>t_messages := outbox n @ xs\<rparr>,
      next_index := map (\<lambda>_. Some ?k) (take d ids) @ map (\<lambda>_. None) (drop d ids)\<rparr>"
  let ?I = "\<lambda>ys u. \<exists>d xs t. ys = [d..<?N] \<and> d \<le> ?N \<and> ticks n \<le> t
      \<and> list_all2 (offer_to (my_id n) (current_term n) (rlog n) e) (take d ids) xs \<and> u = ?at d xs t"
  let ?body = "broadcast_append_node (?k - 1) (e_term (last (rlog n))) e"
  have loop: "wp (for_each [0..<?N] ?body) (\<lambda>_. ?I []) (\<lambda>_ _. False) ?n"
  proof (rule wp_for_each [where I = ?I])
    show "?I [0..<?N] ?n"
      using next_ix by (intro exI [of _ 0] exI [of _ "[]"] exI [of _ "ticks n"]) simp
    fix x ys u
    assume "?I (x # ys) u"
    then obtain d xs t where d: "x # ys = [d..<?N]" "ticks n \<le> t"
        "list_all2 (offer_to (my_id n) (current_term n) (rlog n) e) (take d ids) xs" and u: "u = ?at d xs t"
      by blast
    have x: "x = d" "d < ?N" "ys = [Suc d..<?N]"
      using d(1) [symmetric] by (auto simp: upt_eq_Cons_conv)
    let ?m = "append_message (?k - 1) (e_term (last (rlog n))) e (PyStr (ids ! d)) u"
    have "offer_to (my_id n) (current_term n) (rlog n) e (ids ! d) (jsonify ?m)"
      unfolding offer_to_def by (intro exI [of _ u]) (simp add: u)
    then have xs: "list_all2 (offer_to (my_id n) (current_term n) (rlog n) e) (take (Suc d) ids) (xs @ [jsonify ?m])"
      using d(3) x(2) by (simp add: take_Suc_conv_app_nth list_all2_appendI)
    have none: "next_index u ! d = None" "length (next_index u) = ?N" "all_ids u = ids" "log_max_index u = ?k"
      using x(2) ids(1) by (simp_all add: u nth_append log_max_index_def)
    have "(next_index u)[d := Some ?k] = map (\<lambda>_. Some ?k) (take (Suc d) ids) @ map (\<lambda>_. None) (drop (Suc d) ids)"
      using x(2) by (auto simp: u intro!: nth_equalityI simp: nth_append nth_list_update min_def)
    then have "(sent ?m u)\<lparr>next_index := (next_index u)[d := Some ?k]\<rparr> = ?at (Suc d) (xs @ [jsonify ?m]) (Suc t)"
      by (simp add: u sent_def Talker_send_message_def queue_put_def del: jsonify.simps)
    then have "?I ys ((sent ?m u)\<lparr>next_index := (next_index u)[d := Some ?k]\<rparr>)"
      using x xs d(2) by (intro exI [of _ "Suc d"] exI [of _ "xs @ [jsonify ?m]"] exI [of _ "Suc t"]) simp
    then show "wp (?body x) (\<lambda>_. ?I ys) (\<lambda>_ _. False) u"
      using none x by (simp add: broadcast_append_node_def wp log_max_index_def)
  qed
  have own: "wp update_own_indices (\<lambda>_. offered ids e n) (\<lambda>_ _. False) u" if "?I [] u" for u
  proof -
    from that obtain d xs t where d: "[d..<?N] = []" "d \<le> ?N" "ticks n \<le> t"
        "list_all2 (offer_to (my_id n) (current_term n) (rlog n) e) (take d ids) xs" "u = ?at d xs t"
      by metis
    then have "d = ?N"
      by auto
    with d have t: "ticks n \<le> t" "list_all2 (offer_to (my_id n) (current_term n) (rlog n) e) ids xs"
        and u: "u = ?n\<lparr>ticks := t, node_talker := (node_talker n)\<lparr>t_messages := outbox n @ xs\<rparr>, next_index := map (\<lambda>_. Some ?k) ids\<rparr>"
      by simp_all
    have "offered ids e n (u\<lparr>next_index := map (\<lambda>v. if v = my_id u then None else Some ?k) ids,
        match_index := map2 (\<lambda>v k. if v = my_id u then ?k else k) ids (match_index u)\<rparr>)"
      unfolding offered_def by (intro exI [of _ xs] exI [of _ t]) (simp add: t u)
    moreover note own_indices_run [of u ids ?k]
    ultimately show ?thesis
      using ids by (auto simp: u log_max_index_def elim!: wp_mono)
  qed
  have "wp (broadcast_append_entries e) (\<lambda>_. offered ids e n) (\<lambda>_ _. False) n"
    using wp_mono [OF loop own] log e next_ix by (simp add: broadcast_append_entries_def append_entry_def wp)
  from wp_total [OF this] show ?thesis
    by auto
qed

section \<open>What a member does with an offer\<close>

lemma member_takes:
  assumes n: "follows v T L n" and L: "L \<noteq> []" and x: "offer_to i T L e v x" and e: "py_hashable (e_id e)"
  shows "\<exists>g n'. thread_step (InFollower (clock n k), with_inbox [x] n) = (InFollower (clock n k), n') \<and> clock n' = clock n
    \<and> my_id g = v \<and> json_plain (leader_id g) \<and> outbox n' = [jsonify (ack_message (PyStr i) True g)]
    \<and> online v n' \<and> follows v T (L @ [e]) (with_outbox [] n')"
proof -
  let ?p = "int (length L) - 1" and ?n = "with_inbox [] n"
  obtain w where w: "x = jsonify (append_message ?p (e_term (last L)) e (PyStr v) w)" "my_id w = i" "current_term w = T"
    using x by (auto simp: offer_to_def)
  let ?m = "append_message ?p (e_term (last L)) e (PyStr v) w"
  have get: "get_message (with_inbox [x] n) = (Inr (Some ?m), ?n)"
    by (rule trans [OF get_message_run [OF _ parse_sent(4)]]) (simp_all add: w(1))
  have log: "rlog ?n = L" "current_term ?n \<le> T"
    using n by (simp_all add: follows_def with_inbox_def)
  have p: "0 \<le> ?p" "nat ?p = length L - 1" "nat (?p + 1) = length L"
    using L by (cases L; simp)+
  have "acceptable T ?p (e_term (last L)) ?n"
    using log L p by (simp add: acceptable_def last_conv_nth)
  moreover have "offer_message T i (commit_index w) ?p (e_term (last L)) e (PyStr v) (stamp w) = ?m"
    using offer_message_is_sent [of w ?p "e_term (last L)" e "PyStr v"] w(2,3) by simp
  ultimately have run: "follower_append_entries ?m ?n =
      (Inr (), sent (ack_message (PyStr i) True (with_entry (commit_index w) ?p e ?n)) (with_entry (commit_index w) ?p e ?n))"
    using follower_append_entries_run [of ?n ?p e T i "commit_index w" "e_term (last L)" "PyStr v" "stamp w"] log L p(1) e
    by simp
  let ?g = "with_entry (commit_index w) ?p e ?n"
  let ?f = "sent (ack_message (PyStr i) True ?g) ?g"
  have handle: "follower_handle (clock n k) ?m ?n = (Inr (clock n k), ?f)"
    using run by (simp add: follower_handle_def message_defs message_type_defs py_run)
  have g: "my_id ?g = v" "leader_id ?g = leader_id n" "clock ?g = clock n" "election_timeout ?g = election_timeout n"
      "rlog ?g = L @ [e]" "current_role ?g = Follower" "current_term ?g = current_term n" "terminate ?g = False"
      "node_talker ?g = node_talker n" "node_listener ?g = node_listener ?n"
    using n L p by (simp_all add: with_entry_def Let_def with_inbox_def follows_def online_def)
  have "\<not> election_timeout n < clock n (ticks ?f) - clock n k"
    using n by (simp add: follows_def not_less)
  then have step: "thread_step (InFollower (clock n k), with_inbox [x] n) = (InFollower (clock n k), ?f\<lparr>ticks := Suc (ticks ?f)\<rparr>)"
    using n g by (simp add: thread_step_def in_role_def after_iteration_def follower_iteration_def get handle py_run time_time_def
        follows_def online_def)
  have out: "outbox (?f\<lparr>ticks := Suc (ticks ?f)\<rparr>) = [jsonify (ack_message (PyStr i) True ?g)]"
    using n g by (simp add: follows_def del: jsonify.simps)
  have on: "online v (?f\<lparr>ticks := Suc (ticks ?f)\<rparr>)"
    using n g by (simp add: follows_def online_def with_inbox_def)
  have foll: "follows v T (L @ [e]) (with_outbox [] (?f\<lparr>ticks := Suc (ticks ?f)\<rparr>))"
    using n g on by (simp add: follows_def with_outbox_def online_def with_inbox_def)
  have rest: "clock (?f\<lparr>ticks := Suc (ticks ?f)\<rparr>) = clock n" "json_plain (leader_id ?g)"
    using n g by (simp_all add: follows_def)
  show ?thesis
    by (intro exI conjI) (rule step rest g(1) out on foll)+
qed

section \<open>A round of offers\<close>

lemma map_update:
  assumes "distinct ids" and "d < length ids"
  shows "(map f ids)[d := a] = map (\<lambda>v. if v = ids ! d then a else f v) ids"
  using assms by (auto intro!: nth_equalityI simp: nth_list_update nth_eq_iff_index_eq)

definition presides :: "string list \<Rightarrow> string \<Rightarrow> int \<Rightarrow> entry list \<Rightarrow> raft_node \<Rightarrow> bool" where
  "presides ids i T L n \<longleftrightarrow>
     online i n \<and> in_charge n \<and> current_term n = T \<and> rlog n = L \<and> inbox n = [] \<and> client_queue n = []
     \<and> all_ids n = ids \<and> current_num_nodes n = int (length ids) \<and> floor_division (lib_old_div n)"

definition members_follow :: "string list \<Rightarrow> string \<Rightarrow> int \<Rightarrow> (string \<Rightarrow> entry list) \<Rightarrow> system \<Rightarrow> bool" where
  "members_follow ids i T F s \<longleftrightarrow>
     (\<forall>v \<in> set ids. v \<noteq> i \<longrightarrow> follows v T (F v) (nodes s v) \<and> (\<exists>k. threads s v = InFollower (clock (nodes s v) k)))
     \<and> (\<forall>v \<in> set ids. wires s i v = [] \<and> wires s v i = [])"

text \<open>The leader has offered \<open>e\<close> to all, and the members in \<open>D\<close> have taken it.\<close>

definition in_round :: "string list \<Rightarrow> string \<Rightarrow> int \<Rightarrow> entry list \<Rightarrow> entry \<Rightarrow> string set \<Rightarrow> string list \<Rightarrow> system \<Rightarrow> bool" where
  "in_round ids i T L e D vs s \<longleftrightarrow>
     (\<exists>k \<ge> 4. threads s i = InLeader (clock (nodes s i) k))
     \<and> presides ids i T (L @ [e]) (nodes s i)
     \<and> next_index (nodes s i) = map (\<lambda>v. if v \<in> insert i D then None else Some (int (length L))) ids
     \<and> match_index (nodes s i) = map (\<lambda>v. int (length L) - (if v \<in> insert i D then 0 else 1)) ids
     \<and> commit_index (nodes s i) = int (length L) - (if set ids \<subseteq> insert i D then 0 else 1)
     \<and> (\<exists>xs rest. list_all2 (offer_to i T L e) vs xs \<and> outbox (nodes s i) = xs @ rest
          \<and> (if set ids \<subseteq> insert i D then list_all2 (committal_to i (int (length L))) ids rest else rest = []))
     \<and> members_follow ids i T (\<lambda>v. if v \<in> D then L @ [e] else L) s"

lemma play_drop:
  assumes "online i (nodes s i)" and "outbox (nodes s i) = m # q"
  shows "play (Talk i []) s = s\<lparr>nodes := (nodes s)(i := with_outbox q (nodes s i))\<rparr>"
  using assms by (simp add: Talker_run_step_def online_def set_node_def with_outbox_def publish_to_def fun_eq_iff cong: if_cong)

lemma presides_boxes [simp]: "presides ids i T L (with_outbox q n) = presides ids i T L n"
  by (simp add: presides_def in_charge_def still_def clocked_def with_outbox_def online_def)

lemma with_outbox_logs [simp]:
  "next_index (with_outbox q n) = next_index n" "match_index (with_outbox q n) = match_index n"
  "commit_index (with_outbox q n) = commit_index n" "rlog (with_outbox q n) = rlog n"
  by (simp_all add: with_outbox_def)

lemma offer_to_itself:
  assumes "in_round ids i T L e D (i # vs) s"
  shows "in_round ids i T L e (insert i D) vs (play (Talk i []) s)"
proof -
  obtain x xs rest where out: "list_all2 (offer_to i T L e) vs xs" "outbox (nodes s i) = x # xs @ rest"
      "if set ids \<subseteq> insert i D then list_all2 (committal_to i (int (length L))) ids rest else rest = []"
    using assms unfolding in_round_def list_all2_Cons1 by auto
  have "play (Talk i []) s = s\<lparr>nodes := (nodes s)(i := with_outbox (xs @ rest) (nodes s i))\<rparr>"
    using assms out(2) by (intro play_drop) (auto simp: in_round_def presides_def)
  then show ?thesis
    using assms out(1,3) unfolding in_round_def by (auto simp: members_follow_def split: if_splits)
qed

definition plain_entry :: "entry \<Rightarrow> bool" where
  "plain_entry e \<longleftrightarrow> json_plain (e_value e) \<and> json_plain (e_id e) \<and> py_hashable (e_id e)"

lemma plain_offer: "offer_to i T L e v x \<Longrightarrow> plain_entry e \<Longrightarrow> json_plain x \<and> addressed_to v x = Inr True"
  by (auto simp: offer_to_def plain_entry_def message_defs json_plain_jsonify addressed_to_jsonify simp del: jsonify.simps)

lemma plain_ack:
  "json_plain (leader_id g) \<Longrightarrow> json_plain (jsonify (ack_message (PyStr i) True g))"
  "addressed_to i (jsonify (ack_message (PyStr i) True g)) = Inr True"
  by (auto simp: message_defs json_plain_jsonify addressed_to_jsonify simp del: jsonify.simps)

lemma Min_round:
  assumes "set ids \<noteq> {}"
  shows "Min (set (map (\<lambda>v. a - (if v \<in> A then 0 else 1 :: int)) ids)) = a - (if set ids \<subseteq> A then 0 else 1)"
proof (cases "set ids \<subseteq> A")
  case True
  with assms have "set (map (\<lambda>v. a - (if v \<in> A then 0 else 1)) ids) = {a}"
    by (cases ids) (auto simp: image_iff subset_iff)
  with True show ?thesis
    by simp
next
  case False
  then show ?thesis
    by (intro Min_eqI) (auto split: if_splits)
qed

definition deliver :: "string \<Rightarrow> string \<Rightarrow> move list" where
  "deliver i v = (if v = i then [Talk i []] else [Talk i [v], Listen v i, Thread v, Talk v [i], Listen i v, Thread i])"

text \<open>The leader takes the answer of \<open>v\<close>.\<close>

lemma leader_takes_answer:
  assumes n: "presides ids i T (L @ [e]) n" and ids: "distinct ids" "i \<in> set ids" "v \<in> set ids" "v \<noteq> i" "v \<notin> D"
    and nx: "next_index n = map (\<lambda>v. if v \<in> insert i D then None else Some (int (length L))) ids"
    and mt: "match_index n = map (\<lambda>v. int (length L) - (if v \<in> insert i D then 0 else 1)) ids"
    and ci: "commit_index n = int (length L) - 1" and L: "L \<noteq> []" and mrh: "clocked n mrh" and g: "my_id g = v"
  shows "\<exists>u vs. thread_step (InLeader mrh, with_inbox [jsonify (ack_message (PyStr i) True g)] n) = (InLeader mrh, u)
    \<and> clock u = clock n \<and> presides ids i T (L @ [e]) u \<and> outbox u = outbox n @ vs
    \<and> (if set ids \<subseteq> insert i (insert v D) then list_all2 (committal_to i (int (length L))) ids vs else vs = [])
    \<and> next_index u = map (\<lambda>w. if w \<in> insert i (insert v D) then None else Some (int (length L))) ids
    \<and> match_index u = map (\<lambda>w. int (length L) - (if w \<in> insert i (insert v D) then 0 else 1)) ids
    \<and> commit_index u = int (length L) - (if set ids \<subseteq> insert i (insert v D) then 0 else 1)"
proof -
  let ?ack = "ack_message (PyStr i) True g" and ?k = "int (length L)"
  let ?n = "with_inbox [jsonify ?ack] n"
  obtain j where j: "j < length ids" "ids ! j = v"
    using ids(3) by (auto simp: in_set_conv_nth)
  have charge: "in_charge ?n" "clocked ?n mrh"
    using n mrh by (auto simp: presides_def in_charge_def still_def clocked_def with_inbox_def)
  obtain t where t: "ticks ?n \<le> t" and step: "\<And>u. leader_handle ?ack (with_inbox [] (?n\<lparr>ticks := t\<rparr>)) = (Inr (Continue ()), u) \<Longrightarrow>
      client_queue u = [] \<Longrightarrow> thread_step (InLeader mrh, ?n) = (InLeader mrh, u)"
    using leader_reads [OF charge, of "jsonify ?ack" "[]" ?ack] parse_sent(6) by auto
  let ?m = "with_inbox [] (?n\<lparr>ticks := t\<rparr>)"
  have m: "all_ids ?m = ids" "current_num_nodes ?m = int (length ids)" "floor_division (lib_old_div ?m)" "rlog ?m = L @ [e]"
      "next_index ?m = next_index n" "match_index ?m = match_index n" "heard_from ?m = heard_from n" "commit_index ?m = commit_index n"
      "clock ?m = clock n" "ticks ?m = t"
    using n by (simp_all add: presides_def with_inbox_def)
  have len: "length (heard_from n) = length ids"
    using n nx by (simp add: presides_def in_charge_def still_def)
  let ?w = "?m\<lparr>ticks := Suc t, heard_from := (heard_from n)[j := clock n t],
      match_index := (match_index n)[j := ?k], next_index := (next_index n)[j := None]\<rparr>"
  let ?c = "max (commit_index n) (Min (set ((match_index n)[j := ?k])))"
  have "1 \<le> ?k"
    using L by (cases L) simp_all
  moreover have "msg_sender ?ack = PyStr (ids ! j)" "results_success (msg_results ?ack) = Inr (PyBool True)"
    using g j(2) by (simp_all add: message_defs)
  ultimately have "\<exists>u. leader_acknowledge ?ack ?m = (Inr (), u)
    \<and> commits_to (max (commit_index ?m) (Min (set ((match_index ?m)[j := ?k]))))
        (?m\<lparr>ticks := Suc (ticks ?m), heard_from := (heard_from ?m)[j := clock ?m (ticks ?m)],
           match_index := (match_index ?m)[j := ?k], next_index := (next_index ?m)[j := None]\<rparr>) u"
    by (intro acknowledge_run [where ids = ids]) (use m j ids len nx mt ci L in \<open>simp_all add: message_defs\<close>)
  then obtain u where ack: "leader_acknowledge ?ack ?m = (Inr (), u)" and u: "commits_to ?c ?w u"
    unfolding m by blast
  obtain a b t' vs where told: "if ?c = commit_index ?w then vs = [] else list_all2 (committal_to (my_id ?w) ?c) (all_ids ?w) vs"
    and u0: "ticks ?w \<le> t'" and u'': "u = ?w\<lparr>last_applied_index := a, last_applied_term := b, commit_index := ?c, ticks := t',
      node_talker := (node_talker ?w)\<lparr>t_messages := outbox ?w @ vs\<rparr>\<rparr>"
    using u unfolding commits_to_def by blast
  have "Suc t \<le> t'"
    using u0 by simp
  note u' = this u''
  have handle: "leader_handle ?ack ?m = (Inr (Continue ()), u)"
    using ack by (simp add: leader_handle_def message_defs message_type_defs py_run)
  have next': "(next_index n)[j := None] = map (\<lambda>w. if w \<in> insert i (insert v D) then None else Some ?k) ids"
    unfolding nx map_update [OF ids(1) j(1)] j(2) by (rule map_cong) auto
  have match': "(match_index n)[j := ?k] = map (\<lambda>w. ?k - (if w \<in> insert i (insert v D) then 0 else 1)) ids"
    unfolding mt map_update [OF ids(1) j(1)] j(2) by (rule map_cong) auto
  have "set ids \<noteq> {}"
    using ids(2) by auto
  then have c: "?c = ?k - (if set ids \<subseteq> insert i (insert v D) then 0 else 1)"
    unfolding match' Min_round [OF \<open>set ids \<noteq> {}\<close>] ci by (simp add: max_def)
  have told': "if set ids \<subseteq> insert i (insert v D) then list_all2 (committal_to i ?k) ids vs else vs = []"
    using told n ci unfolding c by (auto simp: presides_def online_def with_inbox_def split: if_splits)
  have "4 \<le> t"
    using n t by (simp add: presides_def in_charge_def still_def with_inbox_def)
  then have "\<exists>k \<ge> 4. clock n t = clock n k"
    by blast
  then have "still ?w"
    using n t len nx by (auto simp: presides_def in_charge_def still_def clocked_def with_inbox_def
        dest!: set_update_subset_insert [THEN subsetD])
  then have still: "still u"
    using u'(1) by (auto simp: u'(2) still_def clocked_def)
  have u_simps: "clock u = clock n" "next_index u = (next_index n)[j := None]" "match_index u = (match_index n)[j := ?k]"
      "commit_index u = ?c" "outbox u = outbox n @ vs" "client_queue u = []"
    using n by (simp_all add: u'(2) with_inbox_def presides_def)
  have "presides ids i T (L @ [e]) u"
    using n still by (simp add: presides_def in_charge_def u'(2) with_inbox_def online_def)
  with step [OF handle] u_simps next' match' c told' show ?thesis
    by (intro exI [of _ u] exI [of _ vs]) simp
qed

lemma offer_to_member:
  assumes s: "in_round ids i T L e D (v # vs) s" and ids: "distinct ids" "i \<in> set ids" "v \<in> set ids" "v \<noteq> i" "v \<notin> D"
    and L: "L \<noteq> []" and e: "plain_entry e"
  shows "in_round ids i T L e (insert v D) vs (fold play (deliver i v) s)"
proof -
  let ?n = "nodes s i" and ?f = "nodes s v"
  obtain x xs rest where x: "offer_to i T L e v x" and xs: "list_all2 (offer_to i T L e) vs xs" and out: "outbox ?n = x # xs @ rest"
      and rest: "if set ids \<subseteq> insert i D then list_all2 (committal_to i (int (length L))) ids rest else rest = []"
    using s unfolding in_round_def list_all2_Cons1 by auto
  obtain k where k: "4 \<le> k" "threads s i = InLeader (clock ?n k)"
    using s by (auto simp: in_round_def)
  have n: "presides ids i T (L @ [e]) ?n" and members: "members_follow ids i T (\<lambda>v. if v \<in> D then L @ [e] else L) s"
    using s by (simp_all add: in_round_def)
  then have on: "online i ?n" and f: "follows v T L ?f" and wires: "wires s i v = []" "wires s v i = []"
    using ids by (auto simp: presides_def members_follow_def)
  obtain l where l: "threads s v = InFollower (clock ?f l)"
    using members ids by (auto simp: members_follow_def)
  obtain g f' where step: "thread_step (InFollower (clock ?f l), with_inbox [x] ?f) = (InFollower (clock ?f l), f')"
    and f': "clock f' = clock ?f" "my_id g = v" "json_plain (leader_id g)" "outbox f' = [jsonify (ack_message (PyStr i) True g)]"
      "online v f'" "follows v T (L @ [e]) (with_outbox [] f')"
    using member_takes [OF f L x, of l] e by (auto simp: plain_entry_def)
  let ?ack = "jsonify (ack_message (PyStr i) True g)"
  let ?n1 = "with_outbox (xs @ rest) ?n"
  let ?s2 = "s\<lparr>nodes := (nodes s)(i := ?n1, v := with_inbox [x] ?f)\<rparr>"
  have s2: "fold play [Talk i [v], Listen v i] s = ?s2"
    using pass_message [OF on out, of v] plain_offer [OF x e] f wires ids(4) by (simp add: follows_def del: fold_simps)
  let ?s3 = "s\<lparr>nodes := (nodes s)(i := ?n1, v := f')\<rparr>"
  have s3: "play (Thread v) ?s2 = ?s3"
    using play_thread [of ?s2 v "InFollower (clock ?f l)" f'] step l by (simp add: fun_upd_idem)
  let ?n5 = "with_inbox [?ack] ?n1"
  let ?s5 = "s\<lparr>nodes := (nodes s)(i := ?n5, v := with_outbox [] f')\<rparr>"
  have s5: "fold play [Talk v [i], Listen i v] ?s3 = ?s5"
    by (subst pass_message [of v ?s3 ?ack "[]" i])
       (use on n f' wires ids(4) plain_ack in \<open>simp_all add: presides_def fun_upd_twist del: jsonify.simps fold_simps\<close>)
  have "\<not> set ids \<subseteq> insert i D"
    using ids by auto
  then have "commit_index ?n1 = int (length L) - 1"
    using s by (simp add: in_round_def)
  moreover have "clocked ?n1 (clock ?n k)"
    using k(1) by (auto simp: clocked_def)
  ultimately obtain u ws where u: "thread_step (InLeader (clock ?n k), ?n5) = (InLeader (clock ?n k), u)" "clock u = clock ?n"
      "presides ids i T (L @ [e]) u" "outbox u = (xs @ rest) @ ws"
      "if set ids \<subseteq> insert i (insert v D) then list_all2 (committal_to i (int (length L))) ids ws else ws = []"
      "next_index u = map (\<lambda>w. if w \<in> insert i (insert v D) then None else Some (int (length L))) ids"
      "match_index u = map (\<lambda>w. int (length L) - (if w \<in> insert i (insert v D) then 0 else 1)) ids"
      "commit_index u = int (length L) - (if set ids \<subseteq> insert i (insert v D) then 0 else 1)"
    using leader_takes_answer [of ids i T L e ?n1 v D "clock ?n k" g] s n ids L f'(2) by (auto simp: in_round_def)
  let ?t = "s\<lparr>nodes := (nodes s)(i := u, v := with_outbox [] f')\<rparr>"
  have s6: "play (Thread i) ?s5 = ?t"
    using play_thread [of ?s5 i "InLeader (clock ?n k)" u] u(1) k(2) ids(4) by (simp add: fun_upd_idem fun_upd_twist)
  have t: "fold play (deliver i v) s = ?t"
    using ids(4) by (simp only: deliver_def if_False fold_simps s2 [unfolded fold_simps] s3 s5 [unfolded fold_simps] s6)
  have "members_follow ids i T (\<lambda>w. if w \<in> insert v D then L @ [e] else L) ?t"
    using members f'(6) l ids(4) wires by (auto simp: members_follow_def f'(1) with_outbox_def)
  moreover have "\<exists>xs rest. list_all2 (offer_to i T L e) vs xs \<and> outbox u = xs @ rest
      \<and> (if set ids \<subseteq> insert i (insert v D) then list_all2 (committal_to i (int (length L))) ids rest else rest = [])"
    using xs u(4,5) rest \<open>\<not> set ids \<subseteq> insert i D\<close> by (intro exI [of _ xs] exI [of _ ws]) simp
  ultimately show ?thesis
    unfolding t in_round_def using k u ids(4) by auto
qed

text \<open>
  Everybody has the leader's log, all of it committed by the leader, who has still to tell
  the members \<open>vs\<close>; the members in \<open>C\<close> know it.
\<close>

definition closing :: "string list \<Rightarrow> string \<Rightarrow> int \<Rightarrow> entry list \<Rightarrow> string set \<Rightarrow> string list \<Rightarrow> system \<Rightarrow> bool" where
  "closing ids i T L C vs s \<longleftrightarrow>
     (\<exists>k \<ge> 4. threads s i = InLeader (clock (nodes s i) k))
     \<and> presides ids i T L (nodes s i)
     \<and> next_index (nodes s i) = map (\<lambda>_. None) ids \<and> match_index (nodes s i) = map (\<lambda>_. int (length L) - 1) ids
     \<and> list_all2 (committal_to i (int (length L) - 1)) vs (outbox (nodes s i))
     \<and> members_follow ids i T (\<lambda>_. L) s
     \<and> (\<forall>v \<in> insert i C. commit_index (nodes s v) = int (length L) - 1)"

abbreviation in_sync :: "string list \<Rightarrow> string \<Rightarrow> int \<Rightarrow> entry list \<Rightarrow> system \<Rightarrow> bool" where
  "in_sync ids i T L s \<equiv> closing ids i T L (set ids) [] s"

lemma deliver_all:
  assumes "in_round ids i T L e D vs s" and "distinct ids" "i \<in> set ids" and "set vs \<subseteq> set ids" "distinct vs" "D \<inter> set vs = {}"
    and "L \<noteq> []" "plain_entry e"
  shows "in_round ids i T L e (D \<union> set vs) [] (fold play (concat (map (deliver i) vs)) s)"
  using assms
proof (induction vs arbitrary: D s)
  case (Cons v vs)
  have "in_round ids i T L e (insert v D) vs (fold play (deliver i v) s)"
  proof (cases "v = i")
    case True
    with Cons.prems(1) offer_to_itself show ?thesis
      by (simp add: deliver_def del: play.simps)
  next
    case False
    with Cons.prems show ?thesis
      by (intro offer_to_member) auto
  qed
  from Cons.IH [OF this] Cons.prems show ?case
    by auto
qed simp

lemma round_closes:
  assumes "in_round ids i T L e D [] s" and "set ids \<subseteq> D"
  shows "closing ids i T (L @ [e]) {} ids s"
proof -
  have "set ids \<subseteq> insert i D" "v \<in> set ids \<Longrightarrow> v \<in> D" for v
    using assms(2) by auto
  with assms show ?thesis
    unfolding in_round_def closing_def by (auto simp: members_follow_def cong: map_cong)
qed

lemma member_learns:
  assumes n: "follows v T L n" and x: "committal_to i c v x"
  shows "\<exists>n'. thread_step (InFollower (clock n k), with_inbox [x] n) = (InFollower (clock n k), n') \<and> clock n' = clock n
    \<and> follows v T L n' \<and> commit_index n' = c"
proof -
  obtain g where g: "x = jsonify (committal_message (PyStr v) g)" "last_applied_index g = c"
    using x by (auto simp: committal_to_def)
  let ?m = "committal_message (PyStr v) g" and ?n = "with_inbox [] n"
  let ?u = "?n\<lparr>last_applied_index := c, last_applied_term := last_applied_term g, commit_index := c\<rparr>"
  have get: "get_message (with_inbox [x] n) = (Inr (Some ?m), ?n)"
    by (rule trans [OF get_message_run [OF _ parse_sent(5)]]) (simp_all add: g(1))
  have handle: "follower_handle (clock n k) ?m ?n = (Inr (clock n k), ?u)"
    by (simp add: follower_handle_def follower_committal_def commit_entry_def message_defs message_type_defs g(2) py_run)
  have "\<not> election_timeout n < clock n (ticks ?n) - clock n k"
    using n by (simp add: follows_def not_less)
  then have "thread_step (InFollower (clock n k), with_inbox [x] n) = (InFollower (clock n k), ?u\<lparr>ticks := Suc (ticks ?u)\<rparr>)"
    using n by (simp add: thread_step_def in_role_def after_iteration_def follower_iteration_def get handle py_run time_time_def
        follows_def online_def)
  moreover have "follows v T L (?u\<lparr>ticks := Suc (ticks ?u)\<rparr>)"
    using n by (simp add: follows_def online_def with_inbox_def)
  ultimately show ?thesis
    by (intro exI [of _ "?u\<lparr>ticks := Suc (ticks ?u)\<rparr>"]) simp
qed

definition inform :: "string \<Rightarrow> string \<Rightarrow> move list" where
  "inform i v = (if v = i then [Talk i []] else [Talk i [v], Listen v i, Thread v])"

lemma plain_committal:
  "committal_to i c v x \<Longrightarrow> json_plain x \<and> addressed_to v x = Inr True"
  by (auto simp: committal_to_def message_defs json_plain_jsonify addressed_to_jsonify simp del: jsonify.simps)

lemma inform_one:
  assumes s: "closing ids i T L C (v # vs) s" and ids: "v \<in> set ids"
  shows "closing ids i T L (insert v C) vs (fold play (inform i v) s)"
proof -
  let ?n = "nodes s i" and ?f = "nodes s v"
  obtain x xs where x: "committal_to i (int (length L) - 1) v x" and xs: "list_all2 (committal_to i (int (length L) - 1)) vs xs"
      and out: "outbox ?n = x # xs"
    using s by (auto simp: closing_def list_all2_Cons1)
  have n: "presides ids i T L ?n" and members: "members_follow ids i T (\<lambda>_. L) s"
    using s by (simp_all add: closing_def)
  then have on: "online i ?n"
    by (simp add: presides_def)
  let ?n1 = "with_outbox xs ?n"
  show ?thesis
  proof (cases "v = i")
    case True
    have "play (Talk i []) s = s\<lparr>nodes := (nodes s)(i := ?n1)\<rparr>"
      by (rule play_drop [OF on out])
    with True s xs show ?thesis
      by (auto simp: inform_def closing_def members_follow_def simp del: play.simps)
  next
    case False
    with members ids have f: "follows v T L ?f" and wires: "wires s i v = []" "wires s v i = []"
      by (auto simp: members_follow_def)
    obtain l where l: "threads s v = InFollower (clock ?f l)"
      using members ids False by (auto simp: members_follow_def)
    obtain f' where f': "thread_step (InFollower (clock ?f l), with_inbox [x] ?f) = (InFollower (clock ?f l), f')" "clock f' = clock ?f"
        "follows v T L f'" "commit_index f' = int (length L) - 1"
      using member_learns [OF f x, of l] by blast
    let ?s2 = "s\<lparr>nodes := (nodes s)(i := ?n1, v := with_inbox [x] ?f)\<rparr>"
    have s2: "fold play [Talk i [v], Listen v i] s = ?s2"
      using pass_message [OF on out, of v] plain_committal [OF x] f wires False by (simp add: follows_def del: fold_simps)
    let ?t = "s\<lparr>nodes := (nodes s)(i := ?n1, v := f')\<rparr>"
    have s3: "play (Thread v) ?s2 = ?t"
      using play_thread [of ?s2 v "InFollower (clock ?f l)" f'] f'(1) l by (simp add: fun_upd_idem)
    have t: "fold play (inform i v) s = ?t"
      using False by (simp only: inform_def if_False fold_simps s2 [unfolded fold_simps] s3)
    have "members_follow ids i T (\<lambda>_. L) ?t"
      using members f'(2,3) l False wires by (auto simp: members_follow_def)
    then show ?thesis
      using s n xs False f'(4) unfolding t closing_def by auto
  qed
qed

lemma inform_all:
  assumes "closing ids i T L C vs s" and "set vs \<subseteq> set ids"
  shows "closing ids i T L (C \<union> set vs) [] (fold play (concat (map (inform i) vs)) s)"
  using assms
proof (induction vs arbitrary: C s)
  case (Cons v vs)
  then have "closing ids i T L (insert v C) vs (fold play (inform i v) s)"
    by (intro inform_one) auto
  from Cons.IH [OF this] Cons.prems show ?case
    by auto
qed simp

lemma round_commits:
  assumes "in_round ids i T L e {} ids s" and "distinct ids" "i \<in> set ids" and "L \<noteq> []" "plain_entry e"
  shows "\<exists>ms. list_all (move_ok ids) ms \<and> in_sync ids i T (L @ [e]) (fold play ms s)"
proof -
  let ?ms = "concat (map (deliver i) ids)" and ?ns = "concat (map (inform i) ids)"
  have "in_round ids i T L e (set ids) [] (fold play ?ms s)"
    using deliver_all [OF assms(1-3)] assms(2,4,5) by simp
  from inform_all [OF round_closes [OF this]] have "in_sync ids i T (L @ [e]) (fold play (?ms @ ?ns) s)"
    by simp
  moreover have "list_all (move_ok ids) (?ms @ ?ns)"
    using assms(3) by (auto simp: list_all_iff deliver_def inform_def)
  ultimately show ?thesis
    by blast
qed

section \<open>Requests\<close>

lemma map2_self: "map2 f xs (map g xs) = map (\<lambda>x. f x (g x)) xs"
  by (induction xs) simp_all

definition request_entry :: "int \<Rightarrow> pyval \<times> pyval \<Rightarrow> entry" where
  "request_entry T r = \<lparr>e_term = T, e_value = fst r, e_id = snd r\<rparr>"

text \<open>The leader that has offered \<open>e\<close>, as the round finds it.\<close>

lemma offered_leader:
  assumes off: "offered ids e n u" and n: "presides ids i T L n"
    and mt: "match_index n = map (\<lambda>_. int (length L) - 1) ids" "next_index n = map (\<lambda>_. None) ids"
  shows "\<exists>xs. list_all2 (offer_to i T L e) ids xs \<and> outbox u = outbox n @ xs \<and> presides ids i T (L @ [e]) u \<and> clock u = clock n
    \<and> next_index u = map (\<lambda>v. if v \<in> insert i {} then None else Some (int (length L))) ids
    \<and> match_index u = map (\<lambda>v. int (length L) - (if v \<in> insert i {} then 0 else 1)) ids
    \<and> commit_index u = commit_index n"
proof -
  obtain xs t where u: "ticks n \<le> t" "list_all2 (offer_to (my_id n) (current_term n) (rlog n) e) ids xs"
      "u = n\<lparr>rlog := rlog n @ [e], log_hash := (log_hash n)(py_hash_key (e_id e) \<mapsto> e), ticks := t,
             node_talker := (node_talker n)\<lparr>t_messages := outbox n @ xs\<rparr>,
             next_index := map (\<lambda>v. if v = my_id n then None else Some (int (length (rlog n)))) ids,
             match_index := map2 (\<lambda>v k. if v = my_id n then int (length (rlog n)) else k) ids (match_index n)\<rparr>"
    using off by (auto simp: offered_def)
  have me: "my_id n = i" "current_term n = T" "rlog n = L"
    using n by (simp_all add: presides_def online_def)
  have "presides ids i T (L @ [e]) u"
    using n u(1) mt(2) by (auto simp: presides_def in_charge_def still_def clocked_def online_def u(3))
  moreover have "match_index u = map (\<lambda>v. int (length L) - (if v \<in> insert i {} then 0 else 1)) ids"
    by (auto simp: u(3) me mt map2_self intro: map_cong)
  ultimately show ?thesis
    using u(2) by (intro exI [of _ xs]) (simp add: u(3) me)
qed

lemma presides_broadcasts:
  assumes "presides ids i T L n" and "distinct ids" "i \<in> set ids" "length (match_index n) = length ids"
    and "next_index n = map (\<lambda>_. None) ids" and "L \<noteq> []" "py_hashable (e_id e)"
  shows "\<exists>u. broadcast_append_entries e n = (Inr (), u) \<and> offered ids e n u"
  using assms by (intro broadcast_run) (auto simp: presides_def online_def)

lemma request_commits:
  assumes s: "in_sync ids i T L s" and ids: "distinct ids" "i \<in> set ids" "2 \<le> length ids" and L: "L \<noteq> []" and r: "plain_request (fst r) (snd r)"
  shows "\<exists>ms. list_all (move_ok ids) ms \<and> in_sync ids i T (L @ [request_entry T r]) (fold play ms s)"
proof -
  let ?n = "nodes s i" and ?e = "request_entry T r"
  let ?k = "?n\<lparr>client_queue := [?e]\<rparr>"
  obtain k where k: "4 \<le> k" "threads s i = InLeader (clock ?n k)"
    using s by (auto simp: closing_def)
  have n: "presides ids i T L ?n" and ix: "match_index ?n = map (\<lambda>_. int (length L) - 1) ids" "next_index ?n = map (\<lambda>_. None) ids"
      and c: "commit_index ?n = int (length L) - 1" and out: "outbox ?n = []" and members: "members_follow ids i T (\<lambda>_. L) s"
    using s by (simp_all add: closing_def)
  have ask: "play (Ask i (fst r) (snd r)) s = s\<lparr>nodes := (nodes s)(i := ?k)\<rparr>"
    using n by (simp add: client_request_def py_run set_node_def queue_put_def presides_def request_entry_def)
  have e: "plain_entry ?e"
    using r by (auto simp: plain_request_def plain_entry_def request_entry_def)
  have charge: "in_charge ?k" "clocked ?k (clock ?n k)" "inbox ?k = []" "client_queue ?k = [?e]"
    using n k(1) by (auto simp: presides_def in_charge_def still_def clocked_def)
  obtain t where t: "ticks ?n \<le> t" and step: "\<And>u. broadcast_append_entries ?e (?k\<lparr>ticks := t, client_queue := []\<rparr>) = (Inr (), u) \<Longrightarrow>
      thread_step (InLeader (clock ?n k), ?k) = (InLeader (clock ?n k), u)"
    using leader_takes_request [OF charge] by auto
  let ?m = "?k\<lparr>ticks := t, client_queue := []\<rparr>"
  have m: "presides ids i T L ?m" "match_index ?m = map (\<lambda>_. int (length L) - 1) ids" "next_index ?m = map (\<lambda>_. None) ids"
      "clock ?m = clock ?n" "outbox ?m = []" "commit_index ?m = int (length L) - 1"
    using n t ix out c by (auto simp: presides_def in_charge_def still_def clocked_def online_def)
  obtain u where u: "broadcast_append_entries ?e ?m = (Inr (), u)" "offered ids ?e ?m u"
    using presides_broadcasts [OF m(1) ids(1,2) _ m(3) L, of ?e] e m(2) by (auto simp: plain_entry_def)
  let ?t = "s\<lparr>nodes := (nodes s)(i := u)\<rparr>"
  have "play (Thread i) (s\<lparr>nodes := (nodes s)(i := ?k)\<rparr>) = ?t"
    using play_thread [of "s\<lparr>nodes := (nodes s)(i := ?k)\<rparr>" i "InLeader (clock ?n k)" u] step [OF u(1)] k(2) by (simp add: fun_upd_idem)
  with ask have run: "fold play [Ask i (fst r) (snd r), Thread i] s = ?t"
    by (simp only: fold_simps)
  have "\<not> set ids \<subseteq> {i}"
    using ids(1,3) card_mono [of "{i}" "set ids"] by (auto simp: distinct_card)
  then have "in_round ids i T L ?e {} ids ?t"
    using offered_leader [OF u(2) m(1-3)] members k c out unfolding in_round_def m(4-6) by (auto simp: members_follow_def)
  from round_commits [OF this ids(1,2) L e] obtain ms where
    "list_all (move_ok ids) ms" "in_sync ids i T (L @ [?e]) (fold play ms ?t)"
    by blast
  with run ids(2) r show ?thesis
    by (intro exI [of _ "[Ask i (fst r) (snd r), Thread i] @ ms"]) (simp add: del: play.simps)
qed

lemma requests_commit:
  assumes "in_sync ids i T L s" and "distinct ids" "i \<in> set ids" "2 \<le> length ids" and "L \<noteq> []" and "\<forall>r \<in> set rs. plain_request (fst r) (snd r)"
  shows "\<exists>ms. list_all (move_ok ids) ms \<and> in_sync ids i T (L @ map (request_entry T) rs) (fold play ms s)"
  using assms
proof (induction rs arbitrary: L s)
  case Nil
  then show ?case
    by (intro exI [of _ "[]"]) simp
next
  case (Cons r rs)
  then obtain ms where ms: "list_all (move_ok ids) ms" "in_sync ids i T (L @ [request_entry T r]) (fold play ms s)"
    using request_commits [of ids i T L s r] by auto
  from Cons.IH [OF this(2)] Cons.prems obtain ms' where
    "list_all (move_ok ids) ms'" "in_sync ids i T (L @ map (request_entry T) (r # rs)) (fold play ms' (fold play ms s))"
    by auto
  with ms(1) show ?case
    by (intro exI [of _ "ms @ ms'"]) simp
qed

section \<open>The start of the leadership\<close>

definition leader_entry :: "int \<Rightarrow> entry" where
  "leader_entry T = \<lparr>e_term = T, e_value = PyStr ''Leader Entry'', e_id = PyInt (- 1)\<rparr>"

text \<open>The new leader when it has sent its heartbeat and set up its lists.\<close>

definition taken_over :: "raft_node \<Rightarrow> raft_node" where
  "taken_over n = (let h = sent (heartbeat_message n) n; N = nat (current_num_nodes n) in
     h\<lparr>leader_id := PyStr (my_id n), match_index := replicate N (commit_index n), next_index := replicate N None,
       heard_from := map (\<lambda>k. clock n (Suc (ticks h) + k)) [0..<N], ticks := Suc (ticks h) + N\<rparr>)"

lemma leader_start_run:
  assumes "broadcast_append_entries (leader_entry (current_term n)) (taken_over n) = (Inr (), u)"
  shows "leader_start n = (Inr (clock n (Suc (ticks n))), u)"
proof -
  have "ticks (sent m n) = Suc (ticks n)" for m
    by (simp add: sent_def)
  then have "wp leader_start (\<lambda>m w. m = clock n (Suc (ticks n)) \<and> w = u) (\<lambda>_ _. False) n"
    using assms by (simp add: leader_start_def leader_take_over_def wp wp_def time_time_def taken_over_def leader_entry_def Let_def)
  from wp_total [OF this] show ?thesis
    by auto
qed

lemma leader_begins:
  assumes el: "elected i (with_outbox [] (candidate_of (up n0))) s" and n0: "fresh ids i n0"
    and members: "\<forall>v \<in> set ids. v \<noteq> i \<longrightarrow> ready i 2 [init_entry] v s" "wires s i i = []"
    and ids: "distinct ids" "i \<in> set ids" "2 \<le> length ids" and od: "floor_division (lib_old_div n0)"
    and slow: "\<forall>k \<ge> 4. \<forall>l \<ge> 4. clock n0 k - clock n0 l \<le> 1 / 100"
  shows "in_round ids i 2 [init_entry] (leader_entry 2) {} ids (fold play [Thread i, Talk i []] s)"
proof -
  obtain x where x: "5 \<le> x" "nodes s i = (with_outbox [] (candidate_of (up n0)))\<lparr>ticks := x, current_role := Leader\<rparr>"
    using el n0 unfolding elected_def by (auto simp: fresh_def candidate_of_def asking_def up_def)
  have late: "\<exists>k \<ge> 4. clock n0 (Suc (Suc (x + h))) = clock n0 k" for h
    using x(1) by (intro exI [of _ "Suc (Suc (x + h))"]) simp
  let ?n = "nodes s i" and ?b = "taken_over (nodes s i)" and ?e = "leader_entry 2"
  have b: "presides ids i 2 [init_entry] ?b" "match_index ?b = map (\<lambda>_. int (length [init_entry]) - 1) ids"
      "next_index ?b = map (\<lambda>_. None) ids" "commit_index ?b = 0" "outbox ?b = [jsonify (heartbeat_message ?n)]" "clock ?b = clock n0"
    using n0 od slow x(1)
    by (auto simp: taken_over_def Let_def x(2) fresh_def candidate_of_def asking_def up_def with_outbox_def presides_def
        in_charge_def still_def clocked_def online_def sent_def Talker_send_message_def queue_put_def map_replicate_const late
        simp del: jsonify.simps)
  obtain u where u: "broadcast_append_entries ?e ?b = (Inr (), u)" "offered ids ?e ?b u"
    using presides_broadcasts [OF b(1) ids(1,2) _ b(3), of ?e] b(2) by (auto simp: leader_entry_def py_hashable.simps)
  obtain xs where xs: "list_all2 (offer_to i 2 [init_entry] ?e) ids xs" "outbox u = outbox ?b @ xs"
      "presides ids i 2 ([init_entry] @ [?e]) u" "clock u = clock ?b"
      "next_index u = map (\<lambda>v. if v \<in> insert i {} then None else Some (int (length [init_entry]))) ids"
      "match_index u = map (\<lambda>v. int (length [init_entry]) - (if v \<in> insert i {} then 0 else 1)) ids"
      "commit_index u = commit_index ?b"
    using offered_leader [OF u(2) b(1-3)] by blast
  have n: "current_term ?n = 2" "current_role ?n = Leader" "\<not> terminate ?n" "threads s i = Dispatch" "clock ?n = clock n0" "ticks ?n = x"
    using el by (simp_all add: elected_def) (simp_all add: x(2) candidate_of_def asking_def up_def)
  let ?c = "InLeader (clock n0 (Suc x))"
  have "thread_step (Dispatch, ?n) = (?c, u)"
    using leader_start_run [of ?n u] u(1) n by (simp add: thread_step_def run_dispatch_def check_role_def py_run)
  with n(4) have s1: "play (Thread i) s = s\<lparr>threads := (threads s)(i := ?c), nodes := (nodes s)(i := u)\<rparr>"
    by (intro play_thread) simp
  let ?t = "s\<lparr>threads := (threads s)(i := ?c), nodes := (nodes s)(i := with_outbox xs u)\<rparr>"
  have s2: "play (Talk i []) (s\<lparr>threads := (threads s)(i := ?c), nodes := (nodes s)(i := u)\<rparr>) = ?t"
    by (subst play_drop [where m = "jsonify (heartbeat_message ?n)" and q = xs])
       (use xs(2,3) b(5) in \<open>simp_all add: presides_def del: jsonify.simps\<close>)
  have t: "fold play [Thread i, Talk i []] s = ?t"
    by (simp only: fold_simps s1 s2)
  have "members_follow ids i 2 (\<lambda>v. if v \<in> {} then [init_entry] @ [?e] else [init_entry]) ?t"
    using members by (auto simp: members_follow_def ready_def)
  moreover have "\<exists>k \<ge> 4. threads ?t i = InLeader (clock (nodes ?t i) k)"
    using xs(4) b(6) x(1) by (intro exI [of _ "Suc x"]) simp
  moreover have "\<not> set ids \<subseteq> {i}"
    using ids(1,3) card_mono [of "{i}" "set ids"] by (auto simp: distinct_card)
  ultimately show ?thesis
    unfolding t in_round_def using xs(1,3,5,6,7) b(4) by simp
qed

text \<open>From the start of a group to a leader whose first entry everybody has.\<close>

lemma group_in_sync:
  assumes st: "started ab s" and dist: "distinct (member_addresses ab)" and i: "i \<in> set (member_addresses ab)"
    and size: "2 \<le> length (member_addresses ab)" and od: "floor_division (lib_old_div (nodes s i))"
    and due: "clock (nodes s i) 1 - clock (nodes s i) 0 > election_timeout (nodes s i)"
    and slow: "\<forall>k \<ge> 4. \<forall>l \<ge> 4. clock (nodes s i) k - clock (nodes s i) l \<le> 1 / 100" "1 / 100 \<le> election_timeout (nodes s i)"
    and patient: "\<forall>j \<in> set (member_addresses ab). j \<noteq> i \<longrightarrow>
        (\<forall>k l. clock (nodes s j) k - clock (nodes s j) l \<le> election_timeout (nodes s j))"
  shows "\<exists>ms. list_all (move_ok (member_addresses ab)) ms \<and> in_sync (member_addresses ab) i 2 [init_entry, leader_entry 2] (fold play ms s)"
proof -
  have late: "\<forall>k \<ge> 5. clock (nodes s i) k - clock (nodes s i) 4 \<le> election_timeout (nodes s i)"
  proof (intro allI impI)
    fix k :: nat
    assume "5 \<le> k"
    then have "clock (nodes s i) k - clock (nodes s i) 4 \<le> 1 / 100"
      using slow(1) by simp
    then show "clock (nodes s i) k - clock (nodes s i) 4 \<le> election_timeout (nodes s i)"
      using slow(2) by (rule order_trans)
  qed
  obtain ms where ms: "list_all (move_ok (member_addresses ab)) ms"
      "elected i (with_outbox [] (candidate_of (up (nodes s i)))) (fold play ms s)"
      "\<forall>v \<in> set (member_addresses ab). v \<noteq> i \<longrightarrow> ready i 2 [init_entry] v (fold play ms s)" "wires (fold play ms s) i i = []"
    using group_elects [OF st dist i size od due late patient] by blast
  have "in_round (member_addresses ab) i 2 [init_entry] (leader_entry 2) {} (member_addresses ab)
      (fold play [Thread i, Talk i []] (fold play ms s))"
    by (rule leader_begins [OF ms(2) started_fresh(1) [OF st i] ms(3,4) dist i size od slow(1)])
  from round_commits [OF this dist i] obtain ms' where ms': "list_all (move_ok (member_addresses ab)) ms'"
      "in_sync (member_addresses ab) i 2 ([init_entry] @ [leader_entry 2]) (fold play ms' (fold play [Thread i, Talk i []] (fold play ms s)))"
    by (auto simp: plain_entry_def leader_entry_def py_hashable.simps)
  with ms(1) i show ?thesis
    by (intro exI [of _ "ms @ [Thread i, Talk i []] @ ms'"]) (simp del: play.simps)
qed

lemma told_the_last:
  assumes "rlog n = [a, b] @ es" and "commit_index n = int (length es) + 1"
  shows "fst (check_committed_entry PyNone n) = Inr (e_value (last ([b] @ es)))"
proof -
  have "py_getitem (rlog n) (int (length es) + 1) = Inr (last (rlog n))"
    using assms(1) by (auto simp: py_getitem_def py_norm_index_def Let_def last_conv_nth nat_add_distrib)
  then show ?thesis
    using assms by (simp add: check_committed_entry_def py_run)
qed

section \<open>Properties\<close>

text \<open>
  C10. From every start of a group of two or more members, every member can be made to serve
  every list of requests with values and ids that JSON carries unchanged: some schedule makes
  it the leader of term 2 and has it log its
  first entry and then the requests, in the order in which they are made, until every
  member has this log and has committed all of it, so that a client which asks any member
  for the last committed entry is told the last request; provided that the clock of the
  leader shows the time-out of a follower once and then moves less than a heartbeat
  interval, and that no other member's clock shows a time-out.
\<close>

theorem requests_can_be_served:
  assumes "started ab s" and "distinct (member_addresses ab)" and "i \<in> set (member_addresses ab)"
    and "2 \<le> length (member_addresses ab)" and "floor_division (lib_old_div (nodes s i))"
    and "clock (nodes s i) 1 - clock (nodes s i) 0 > election_timeout (nodes s i)"
    and "\<forall>k \<ge> 4. \<forall>l \<ge> 4. clock (nodes s i) k - clock (nodes s i) l \<le> 1 / 100"
    and "1 / 100 \<le> election_timeout (nodes s i)"
    and "\<forall>j \<in> set (member_addresses ab). j \<noteq> i \<longrightarrow>
        (\<forall>k l. clock (nodes s j) k - clock (nodes s j) l \<le> election_timeout (nodes s j))"
    and "\<forall>r \<in> set rs. plain_request (fst r) (snd r)"
  shows "\<exists>ms t. list_all (move_ok (member_addresses ab)) ms \<and> t = fold play ms s
     \<and> current_role (nodes t i) = Leader \<and> current_term (nodes t i) = 2
     \<and> (\<forall>v \<in> set (member_addresses ab).
          rlog (nodes t v) = [init_entry, leader_entry 2] @ map (request_entry 2) rs
          \<and> commit_index (nodes t v) = int (length rs) + 1
          \<and> fst (check_committed_entry PyNone (nodes t v)) =
              Inr (e_value (last ([leader_entry 2] @ map (request_entry 2) rs))))"
proof -
  obtain ms where ms: "list_all (move_ok (member_addresses ab)) ms"
      "in_sync (member_addresses ab) i 2 [init_entry, leader_entry 2] (fold play ms s)"
    using group_in_sync [OF assms(1-9)] by blast
  from requests_commit [OF ms(2) assms(2,3,4) _ assms(10)] obtain ms' where ms': "list_all (move_ok (member_addresses ab)) ms'"
      "in_sync (member_addresses ab) i 2 ([init_entry, leader_entry 2] @ map (request_entry 2) rs) (fold play ms' (fold play ms s))"
    by auto
  obtain t where t: "t = fold play (ms @ ms') s"
    by blast
  have sync: "in_sync (member_addresses ab) i 2 ([init_entry, leader_entry 2] @ map (request_entry 2) rs) t"
    using ms'(2) t by simp
  have v: "rlog (nodes t v) = [init_entry, leader_entry 2] @ map (request_entry 2) rs \<and> commit_index (nodes t v) = int (length rs) + 1"
    if "v \<in> set (member_addresses ab)" for v
    using sync that by (cases "v = i") (simp_all add: closing_def presides_def members_follow_def follows_def)
  have "fst (check_committed_entry PyNone (nodes t v)) = Inr (e_value (last ([leader_entry 2] @ map (request_entry 2) rs)))"
    if "v \<in> set (member_addresses ab)" for v
    by (rule told_the_last) (use v [OF that] in simp_all)
  then show ?thesis
    using ms(1) ms'(1) v sync t
    by (intro exI [of _ "ms @ ms'"] exI [of _ t]) (simp add: closing_def presides_def in_charge_def)
qed

text \<open>One of three members has a clock that shows a single time-out, and two requests are made.\<close>

theorem requests_can_be_served_witness:
  "\<exists>ms t. list_all (move_ok (member_addresses trio)) ms \<and> t = fold play ms (scene prompt patient patient)
     \<and> rlog (nodes t ''h:3'') =
         [init_entry, leader_entry 2, request_entry 2 (PyStr ''x'', PyInt 7), request_entry 2 (PyStr ''y'', PyInt 8)]
     \<and> commit_index (nodes t ''h:3'') = 3
     \<and> fst (check_committed_entry PyNone (nodes t ''h:1'')) = Inr (PyStr ''y'')
     \<and> fst (check_committed_entry PyNone (nodes t ''h:2'')) = Inr (PyStr ''y'')"
proof -
  let ?rs = "[(PyStr ''x'', PyInt 7), (PyStr ''y'', PyInt 8)]"
  have "\<exists>ms t. list_all (move_ok (member_addresses trio)) ms \<and> t = fold play ms (scene prompt patient patient)
     \<and> current_role (nodes t ''h:1'') = Leader \<and> current_term (nodes t ''h:1'') = 2
     \<and> (\<forall>v \<in> set (member_addresses trio).
          rlog (nodes t v) = [init_entry, leader_entry 2] @ map (request_entry 2) ?rs
          \<and> commit_index (nodes t v) = int (length ?rs) + 1
          \<and> fst (check_committed_entry PyNone (nodes t v)) =
              Inr (e_value (last ([leader_entry 2] @ map (request_entry 2) ?rs))))"
    by (rule requests_can_be_served [OF started_scene])
       (simp_all add: scene_def fresh_node_def prompt_def patient_def floor_division_def plain_request_def)
  then show ?thesis
    by (elim ex_forward conjE) (simp add: request_entry_def)
qed

end
