(* ===== verification/Raft_Serving.thy ===== *)
theory Raft_Serving
  imports Raft_Exchange Raft_Election
begin

text \<open>
  The leader's side of the exchange: every method of the leader's loop keeps what holds of
  the logs of the leader and of one member, whatever it does for the other members.
\<close>

section \<open>The leader and one member\<close>

text \<open>
  \<open>p\<close> is the position of the member in the address book. The rest of the group is fixed: the
  member's log and term, the offers past the leader's outbox \<open>O'\<close>, the answers already
  taken \<open>B\<close> and not yet in the leader's inbox \<open>A\<close>.
\<close>

record peer =
  p_pos :: nat
  p_log :: "entry list"
  p_term :: int
  p_offers :: "pyval list"
  p_answers :: "pyval list"

definition serves :: "string list \<Rightarrow> string \<Rightarrow> int \<Rightarrow> peer \<Rightarrow> pyval list \<Rightarrow> raft_node \<Rightarrow> bool" where
  "serves ids ld T p B n \<longleftrightarrow>
     my_id n = ld \<and> current_term n = T \<and> floor_division (lib_old_div n)
     \<and> commit_index n \<le> match_index n ! p_pos p
     \<and> tracks T ld (ids ! p_pos p) (rlog n) (match_index n ! p_pos p) (next_index n ! p_pos p) (p_log p) (p_term p)
         (p_offers p @ filter (offer_for (ids ! p_pos p)) (outbox n))
         (B @ filter (ack_from (ids ! p_pos p)) (inbox n) @ p_answers p)"

definition is_peer :: "string list \<Rightarrow> string \<Rightarrow> peer \<Rightarrow> bool" where
  "is_peer ids ld p \<longleftrightarrow> distinct ids \<and> p_pos p < length ids \<and> ids ! p_pos p \<noteq> ld"

lemma serves_simps [simp]:
  "serves ids ld T p B (n\<lparr>ticks := k\<rparr>) = serves ids ld T p B n"
  "serves ids ld T p B (n\<lparr>heard_from := hf\<rparr>) = serves ids ld T p B n"
  "serves ids ld T p B (n\<lparr>ticks := k, heard_from := hf\<rparr>) = serves ids ld T p B n"
  "serves ids ld T p B (n\<lparr>client_queue := q\<rparr>) = serves ids ld T p B n"
  "serves ids ld T p B (n\<lparr>log_hash := h\<rparr>) = serves ids ld T p B n"
  by (simp_all add: serves_def)

lemma serves_sent:
  "\<not> offer_for (ids ! p_pos p) (jsonify m) \<Longrightarrow> serves ids ld T p B (sent m n) = serves ids ld T p B n"
  by (simp add: serves_def)

lemma serves_sent_simps [simp]:
  "serves ids ld T p B (sent (heartbeat_message s) n) = serves ids ld T p B n"
  "serves ids ld T p B (sent (committal_message r s) n) = serves ids ld T p B n"
  by (simp_all add: serves_sent)

lemma serves_sent_other:
  "w \<noteq> ids ! p_pos p \<Longrightarrow> serves ids ld T p B (sent (append_message i t e (PyStr w) s) n) = serves ids ld T p B n"
  by (simp add: serves_sent)

text \<open>What another member is owed does not matter.\<close>

lemma serves_next_other:
  "i \<noteq> p_pos p \<Longrightarrow> serves ids ld T p B (n\<lparr>next_index := (next_index n)[i := v]\<rparr>) = serves ids ld T p B n"
  by (simp add: serves_def)

lemma serves_match_other:
  "i \<noteq> p_pos p \<Longrightarrow> serves ids ld T p B (n\<lparr>match_index := (match_index n)[i := v]\<rparr>) = serves ids ld T p B n"
  by (simp add: serves_def)

lemma serves_append:
  "serves ids ld T p B n \<Longrightarrow> serves ids ld T p B (n\<lparr>rlog := rlog n @ es\<rparr>)"
  by (simp add: serves_def tracks_append)

lemma serves_match_below: "serves ids ld T p B n \<Longrightarrow> match_index n ! p_pos p < int (length (rlog n))"
  by (simp add: serves_def tracks_def agree_def)

text \<open>An offer the leader makes is one of the exchange.\<close>

lemma offer_at_sent:
  assumes "current_term n = T" and "my_id n = ld" and "i = k - 1" and "t = e_term (lg ! nat (k - 1))" and "e = lg ! nat k"
  shows "offer_at T ld v lg k (jsonify (append_message i t e (PyStr v) n))"
  unfolding offer_at_def using assms offer_message_is_sent [of n i t e "PyStr v"]
  by (intro exI [of _ "commit_index n"] exI [of _ "stamp n"]) simp

section \<open>A new entry\<close>

lemma serves_broadcast_node:
  assumes n: "serves ids ld T p [] n" "leading ids n" and p: "is_peer ids ld p" and i: "i < length ids"
    and len: "2 \<le> length (rlog n)" "pix = int (length (rlog n)) - 2" "pt = e_term (rlog n ! nat pix)"
      "e = rlog n ! (length (rlog n) - 1)"
    and mt: "match_index n ! p_pos p < log_max_index n"
  shows "wp (broadcast_append_node pix pt e i)
    (\<lambda>_ t. serves ids ld T p [] t \<and> rlog t = rlog n \<and> match_index t = match_index n \<and> my_id t = my_id n) (\<lambda>_ _. True) n"
proof (cases "next_index n ! i")
  case (Some k)
  with i n(1) node_okD(4) [OF conjunct1 [OF n(2)]] show ?thesis
    by (simp add: broadcast_append_node_def wp)
next
  case None
  let ?m = "append_message pix pt e (PyStr (ids ! i)) n"
  let ?lm = "log_max_index n"
  let ?t = "(sent ?m n)\<lparr>next_index := (next_index n)[i := Some ?lm]\<rparr>"
  have lm: "nat ?lm = length (rlog n) - 1" "?lm = pix + 1" "?lm < int (length (rlog n))"
    using len by (auto simp: log_max_index_def)
  have "serves ids ld T p [] ?t"
  proof (cases "i = p_pos p")
    case False
    then have "ids ! i \<noteq> ids ! p_pos p"
      using p i by (simp add: is_peer_def nth_eq_iff_index_eq)
    with False n(1) show ?thesis
      using serves_next_other [of i p ids ld T "[]" "sent ?m n"] by (simp add: serves_sent_other)
  next
    case True
    then have old: "tracks T ld (ids ! i) (rlog n) (match_index n ! i) None (p_log p) (p_term p)
        (p_offers p @ filter (offer_for (ids ! i)) (outbox n)) (filter (ack_from (ids ! i)) (inbox n) @ p_answers p)"
      using n(1) None by (simp add: serves_def)
    then have none: "p_offers p = []" "filter (offer_for (ids ! i)) (outbox n) = []"
        "filter (ack_from (ids ! i)) (inbox n) = []" "p_answers p = []"
      by (auto simp: tracks_def exchange_def)
    have "offer_at T ld (ids ! i) (rlog n) ?lm (jsonify ?m)"
      using n(1) lm len by (intro offer_at_sent) (auto simp: serves_def)
    with old none have "tracks T ld (ids ! i) (rlog n) (match_index n ! i) (Some ?lm) (p_log p) (p_term p) [jsonify ?m] []"
      using mt True lm by (intro tracks_open) simp_all
    with n(1) i True none node_okD(4) [OF conjunct1 [OF n(2)]] show ?thesis
      by (simp add: serves_def)
  qed
  with i None node_okD(1,4) [OF conjunct1 [OF n(2)]] show ?thesis
    by (simp add: broadcast_append_node_def wp log_max_index_def)
qed

lemma serves_own_indices:
  assumes n: "serves ids ld T p B n" "leading ids n" and p: "is_peer ids ld p"
  shows "wp update_own_indices (\<lambda>_. serves ids ld T p B) (\<lambda>_ _. True) n"
proof -
  note okD = node_okD [OF conjunct1 [OF n(2)]]
  have "my_id n \<in> set ids" "my_id n = ld"
    using n(1) okD(2) by (simp_all add: serves_def)
  then obtain i where i: "py_index ids (my_id n) = Inr i" "0 \<le> i" "i < int (length ids)" "ids ! nat i = ld"
    using py_index_mem [of "my_id n" ids] by auto
  then have other: "nat i \<noteq> p_pos p" "nat i < length ids"
    using p by (auto simp: is_peer_def)
  let ?t = "n\<lparr>next_index := (next_index n)[nat i := None]\<rparr>"
  have "serves ids ld T p B ?t"
    using n(1) other(1) by (simp add: serves_next_other)
  then have "serves ids ld T p B (?t\<lparr>match_index := (match_index ?t)[nat i := log_max_index n]\<rparr>)"
    using other(1) by (subst serves_match_other) simp_all
  with i okD(1,4,5) show ?thesis
    by (simp add: update_own_indices_def wp log_max_index_def)
qed

text \<open>Two facts of one method together.\<close>

lemma wp_both:
  "wp m (\<lambda>a t. P a t) (\<lambda>_ _. False) s \<Longrightarrow> wp m (\<lambda>a t. Q a t) (\<lambda>_ _. True) s \<Longrightarrow> wp m (\<lambda>a t. P a t \<and> Q a t) (\<lambda>_ _. False) s"
  by (auto simp: wp_def split: prod.splits sum.splits)

lemma serves_broadcast:
  assumes n: "serves ids ld T p [] n" "leading ids n" and p: "is_peer ids ld p" and e: "wf_entry e"
  shows "wp (broadcast_append_entries e) (\<lambda>_ t. leading ids t \<and> serves ids ld T p [] t) (\<lambda>_ _. False) n"
proof -
  let ?n = "n\<lparr>rlog := rlog n @ [e], log_hash := (log_hash n)(py_hash_key (e_id e) \<mapsto> e)\<rparr>"
  let ?pix = "int (length (rlog n)) - 1"
  let ?I = "\<lambda>xs t. leading ids t \<and> serves ids ld T p [] t \<and> rlog t = rlog n @ [e] \<and> match_index t = match_index n
      \<and> my_id t = my_id n \<and> (\<forall>x \<in> set xs. x < length ids)"
  have ne: "rlog n \<noteq> []" and len: "length (next_index n) = length ids"
    using n(2) by (simp_all add: node_ok_def)
  then have pix: "nat ?pix = length (rlog n) - 1" "1 \<le> length (rlog n)"
    by (cases "rlog n"; simp)+
  have last: "e_term (last (rlog n)) = e_term ((rlog n @ [e]) ! nat ?pix)"
    using ne pix by (simp add: nth_append last_conv_nth)
  have start: "?I [0..<length ids] ?n"
    using leader_appended [of ids n e] n e serves_append [OF n(1)] by simp
  have loop: "wp (for_each [0..<length ids] (broadcast_append_node ?pix (e_term (last (rlog n))) e))
      (\<lambda>_. ?I []) (\<lambda>_ _. False) ?n"
  proof (rule wp_for_each [where I = ?I, OF start])
    fix x ys t
    assume t: "?I (x # ys) t"
    have "match_index t ! p_pos p < log_max_index t"
      using t serves_match_below [OF n(1)] by (simp add: log_max_index_def)
    then have keep: "wp (broadcast_append_node ?pix (e_term (last (rlog n))) e x)
        (\<lambda>_ u. serves ids ld T p [] u \<and> rlog u = rlog t \<and> match_index u = match_index t \<and> my_id u = my_id t) (\<lambda>_ _. True) t"
      using t pix last by (intro serves_broadcast_node p) (auto simp: nth_append)
    have safe: "wp (broadcast_append_node ?pix (e_term (last (rlog n))) e x)
        (\<lambda>_ u. node_ok ids u \<and> leader_ok u \<and> rlog u = rlog t) (\<lambda>_ _. False) t"
      using t pix e by (intro broadcast_append_node_ok) auto
    from wp_both [OF safe keep]
    show "wp (broadcast_append_node ?pix (e_term (last (rlog n))) e x) (\<lambda>_. ?I ys) (\<lambda>_ _. False) t"
      by (rule wp_mono) (use t in simp_all)
  qed
  have finish: "wp update_own_indices (\<lambda>_ t. leading ids t \<and> serves ids ld T p [] t) (\<lambda>_ _. False) t" if "?I [] t" for t
    using that by (intro wp_both serves_own_indices p wp_mono [OF update_own_indices_ok]) auto
  show ?thesis
    unfolding broadcast_append_entries_def wp_bnd
    by (rule wp_append_at_end [OF conjunct1 [OF n(2)] e])
       (use wp_mono [OF loop finish] len in \<open>simp add: wp\<close>)
qed

section \<open>An answer\<close>

lemma serves_commit_rule:
  assumes n: "serves ids ld T p B n" and size: "current_num_nodes n = int (length (match_index n))"
    and pos: "p_pos p < length (match_index n)"
  shows "wp leader_commit_rule (\<lambda>_. serves ids ld T p B) (\<lambda>_ _. True) n"
proof -
  let ?mx = "Min (set (match_index n))"
  have mx: "max_committable_index (lib_old_div n) (current_num_nodes n) (match_index n) = ?mx"
    using n size pos by (intro committable_least) (auto simp: serves_def)
  have "?mx \<le> match_index n ! p_pos p"
    using pos by simp
  then have commit: "serves ids ld T p B (n\<lparr>last_applied_index := i, last_applied_term := t, commit_index := ?mx\<rparr>)" for i t
    using n by (simp add: serves_def)
  have loop: "wp (for_each xs broadcast_commit_node) (\<lambda>_. serves ids ld T p B) (\<lambda>_ _. True) t"
    if "serves ids ld T p B t" for xs t
  proof (rule wp_for_each [where I = "\<lambda>_. serves ids ld T p B"])
    show "wp (broadcast_commit_node x) (\<lambda>_. serves ids ld T p B) (\<lambda>_ _. True) u" if "serves ids ld T p B u" for x u
      by (cases x) (use that in \<open>auto simp: broadcast_commit_node_def wp\<close>)
  qed (rule that)
  show ?thesis
    using n loop [OF commit] by (simp add: leader_commit_rule_def broadcast_commit_entries_def wp mx)
qed

lemma serves_ack_own:
  assumes n: "serves ids ld T p [x] n" "leading ids n" and p: "is_peer ids ld p"
    and x: "parse_json_message x = Inr (Some m)" "msg_sender m = PyStr (ids ! p_pos p)"
      "results_success (msg_results m) = Inr g"
    and k: "next_index n ! p_pos p = Some k"
  shows "wp (leader_acknowledge_pending m (int (p_pos p)) k) (\<lambda>_. serves ids ld T p []) (\<lambda>_ _. True) n"
proof -
  let ?i = "p_pos p" and ?v = "ids ! p_pos p" and ?ok = "py_truthy g"
  let ?k = "ack_next_index ?ok k" and ?mis = "if ?ok then (match_index n)[?i := k] else match_index n"
  note okD = node_okD [OF conjunct1 [OF n(2)]]
  have i: "?i < length ids"
    using p by (simp add: is_peer_def)
  have ok: "answer_granted x = ?ok"
    using x by (simp add: answer_granted_def)
  have old: "tracks T ld ?v (rlog n) (match_index n ! ?i) (Some k) (p_log p) (p_term p) [] [x]"
    and none: "p_offers p = []" "filter (offer_for ?v) (outbox n) = []" "filter (ack_from ?v) (inbox n) = []" "p_answers p = []"
    using n(1) k by (auto simp: serves_def tracks_def exchange_def)
  have range: "1 \<le> k" "k < int (length (rlog n))" and less: "?ok \<Longrightarrow> match_index n ! ?i < k"
    using old ok by (auto simp: tracks_def exchange_def)
  have mis: "?mis ! ?i = (if ?ok then k else match_index n ! ?i)" "length ?mis = length ids"
    using i okD(5) by simp_all
  let ?s1 = "n\<lparr>match_index := ?mis\<rparr>"
  let ?n = "if ?k > int (length (rlog n)) - 1 then None else Some ?k"
  let ?s2 = "?s1\<lparr>next_index := (next_index n)[?i := ?n]\<rparr>"
  have ci: "commit_index n \<le> ?mis ! ?i"
    using n(1) mis less by (auto simp: serves_def)
  have rule: "wp leader_commit_rule (\<lambda>_. serves ids ld T p []) (\<lambda>_ _. True) u"
    if "serves ids ld T p [] u" "current_num_nodes u = current_num_nodes n" "match_index u = ?mis" for u
    using that i okD(3) mis(2) by (intro serves_commit_rule) simp_all
  have rest: "wp (seq (if ?k > int (length (rlog n)) - 1 then ret () else leader_send_next ?k (msg_sender m))
      leader_commit_rule) (\<lambda>_. serves ids ld T p []) (\<lambda>_ _. True) ?s2"
  proof (cases "?k > int (length (rlog n)) - 1")
    case True
    then have "serves ids ld T p [] ?s2"
      using n(1) tracks_answered(1) [OF old] ok none ci i okD(4) mis(1) by (simp add: serves_def)
    from rule [OF this] show ?thesis
      unfolding if_P [OF True] wp_seq wp_ret by simp
  next
    case False
    have pos: "1 \<le> ?k" "?k < int (length (rlog n))"
      using False range by (auto simp: ack_next_index_def)
    let ?o = "append_message (?k - 1) (e_term (rlog n ! nat (?k - 1))) (rlog n ! nat ?k) (PyStr ?v) ?s2"
    have "offer_at T ld ?v (rlog n) ?k (jsonify ?o)"
      using n(1) by (intro offer_at_sent) (simp_all add: serves_def)
    then have "serves ids ld T p [] (sent ?o ?s2)"
      using n(1) tracks_answered(2) [OF old, of "jsonify ?o"] ok none ci i okD(4) mis(1) False pos
      by (simp add: serves_def del: jsonify.simps)
    from rule [OF this] show ?thesis
      using False pos by (simp add: leader_send_next_def wp x(2))
  qed
  have "wp (bnd (lift_result (py_setitem (next_index ?s1) (int ?i) (if ?k > log_max_index ?s1 then None else Some ?k)))
      (\<lambda>nis'. seq (modify (\<lambda>s. s\<lparr>next_index := nis'\<rparr>))
        (seq (if ?k > log_max_index ?s1 then ret () else leader_send_next ?k (msg_sender m)) leader_commit_rule)))
      (\<lambda>_. serves ids ld T p []) (\<lambda>_ _. True) ?s1"
    using rest i okD(4) by (simp add: wp_bnd wp_lift_result wp_seq wp_modify log_max_index_def)
  then show ?thesis
    using i okD(5)
    by (cases ?ok)
       (simp_all add: leader_acknowledge_pending_def wp_bnd wp_seq wp_when_py wp_lift_result wp_modify
          wp_gets wp_ret x(3) log_max_index_def cong: if_cong)
qed

lemma serves_ack_other:
  assumes n: "serves ids ld T p [] n" "leading ids n" and p: "is_peer ids ld p"
    and m: "msg_sender m = PyStr (ids ! i)" and i: "i < length ids" "i \<noteq> p_pos p"
  shows "wp (leader_acknowledge_pending m (int i) k) (\<lambda>_. serves ids ld T p []) (\<lambda>_ _. True) n"
proof -
  note okD = node_okD [OF conjunct1 [OF n(2)]]
  have other: "ids ! i \<noteq> ids ! p_pos p" and pos: "p_pos p < length ids"
    using p i by (simp_all add: is_peer_def nth_eq_iff_index_eq)
  have rule: "wp leader_commit_rule (\<lambda>_. serves ids ld T p []) (\<lambda>_ _. True) u"
    if "serves ids ld T p [] u" "current_num_nodes u = current_num_nodes n" "length (match_index u) = length ids" for u
    using that pos okD(3) by (intro serves_commit_rule) simp_all
  have upd: "serves ids ld T p [] (u\<lparr>next_index := (next_index u)[i := y]\<rparr>)" if "serves ids ld T p [] u" for u y
    using that serves_next_other [OF i(2)] by simp
  have rest: "wp (seq (if b then ret () else leader_send_next k' (msg_sender m)) leader_commit_rule)
      (\<lambda>_. serves ids ld T p []) (\<lambda>_ _. True) u"
    if "serves ids ld T p [] u" "current_num_nodes u = current_num_nodes n" "length (match_index u) = length ids" for u b k'
    using that rule serves_sent_other [OF other] by (simp add: leader_send_next_def wp m)
  let ?s1 = "\<lambda>mis. n\<lparr>match_index := mis\<rparr>"
  have goal: "wp (bnd (ret (ack_next_index ok k)) (\<lambda>next'.
     bnd (gets log_max_index) (\<lambda>lm.
     bnd (gets next_index) (\<lambda>nis.
     bnd (lift_result (py_setitem nis (int i) (if next' > lm then None else Some next'))) (\<lambda>nis'.
     seq (modify (\<lambda>s. s\<lparr>next_index := nis'\<rparr>))
     (seq (if next' > lm then ret () else leader_send_next next' (msg_sender m))
     leader_commit_rule)))))) (\<lambda>_. serves ids ld T p []) (\<lambda>_ _. True) (?s1 mis)"
    if "serves ids ld T p [] (?s1 mis)" "length mis = length ids" for ok mis
    using rest [OF upd [OF that(1)]] that(2) i(1) okD(4)
    by (simp add: wp_bnd wp_ret wp_gets wp_lift_result wp_seq wp_modify)
  have "serves ids ld T p [] (?s1 ((match_index n)[i := k]))"
    using n(1) serves_match_other [OF i(2)] by simp
  from goal [OF this] goal [of "match_index n"] n(1) i(1) okD(5) show ?thesis
    by (simp add: leader_acknowledge_pending_def wp_bnd [of "lift_result _"] wp_seq [of "when_py _ _"] wp_when_py
        wp_lift_result wp_gets wp_modify wp_bnd [of "gets match_index"])
qed

lemma serves_acknowledge:
  assumes n: "serves ids ld T p (if ack_from (ids ! p_pos p) x then [x] else []) n" "leading ids n"
    and p: "is_peer ids ld p" and x: "parse_json_message x = Inr (Some m)" and m: "wf_message ids m"
    and ty: "py_eq_int (msg_direction m) MessageDirection_Response" "py_eq_int (msg_type m) MessageType_Acknowledge"
  shows "wp (leader_acknowledge m) (\<lambda>_. serves ids ld T p []) (\<lambda>_ _. True) n"
proof -
  note okD = node_okD [OF conjunct1 [OF n(2)]]
  obtain i where i: "i < length ids" and sender: "msg_sender m = PyStr (ids ! i)"
    using m by (cases m) (auto elim!: is_member_cases simp: in_set_conv_nth)
  then have from_i: "acked_by x = Some (ids ! i)"
    using x ty by (simp add: acked_by_def)
  have ids: "distinct ids" and pos: "p_pos p < length ids"
    using p by (simp_all add: is_peer_def)
  let ?s = "n\<lparr>ticks := Suc (ticks n), heard_from := (heard_from n)[i := clock n (ticks n)]\<rparr>"
  have ok': "leading ids ?s"
    using n(2) by (simp add: node_ok_def leader_ok_def)
  have "wp (leader_acknowledge_pending m (int i) k) (\<lambda>_. serves ids ld T p []) (\<lambda>_ _. True) ?s"
    if k: "next_index n ! i = Some k" for k
  proof (cases "i = p_pos p")
    case False
    then have "ids ! i \<noteq> ids ! p_pos p"
      using i pos ids by (simp add: nth_eq_iff_index_eq)
    with n(1) False show ?thesis
      by (intro serves_ack_other [OF _ ok' p sender i]) (simp_all add: from_i)
  next
    case True
    obtain g where g: "results_success (msg_results m) = Inr g"
      using m ty(2) by (cases m; cases "msg_results m") (auto simp: message_type_defs)
    have "serves ids ld T p [x] ?s"
      using n(1) True from_i by simp
    from serves_ack_own [OF this ok' p x _ g] show ?thesis
      using True k sender by simp
  qed
  moreover have "serves ids ld T p [] ?s" if none: "next_index n ! i = None"
  proof (cases "i = p_pos p")
    case False
    then have "ids ! i \<noteq> ids ! p_pos p"
      using i pos ids by (simp add: nth_eq_iff_index_eq)
    with n(1) show ?thesis
      by (simp add: from_i)
  next
    case True
    with n(1) none show ?thesis
      by (simp add: from_i serves_def tracks_def exchange_def)
  qed
  ultimately show ?thesis
    using i sender okD(1,4,6) ids
    by (auto simp: leader_acknowledge_def wp_bnd wp_seq wp_get_node_index wp_time_time wp_lift_result
        wp_gets wp_modify wp_ret py_index_nth split: option.split)
qed

section \<open>Offering again\<close>

lemma ticks_sent: "ticks (sent m n) = Suc (ticks n)"
  by (simp add: sent_def)

text \<open>Nothing is on its way between the leader and the member.\<close>

definition idle :: "string list \<Rightarrow> peer \<Rightarrow> raft_node \<Rightarrow> bool" where
  "idle ids p n \<longleftrightarrow>
     p_offers p @ filter (offer_for (ids ! p_pos p)) (outbox n) = []
     \<and> filter (ack_from (ids ! p_pos p)) (inbox n) @ p_answers p = []"

lemma idle_simps [simp]:
  "idle ids p (n\<lparr>ticks := k\<rparr>) = idle ids p n"
  "idle ids p (n\<lparr>heard_from := hf\<rparr>) = idle ids p n"
  "idle ids p (n\<lparr>ticks := k, heard_from := hf\<rparr>) = idle ids p n"
  by (simp_all add: idle_def)

definition same_for :: "nat \<Rightarrow> raft_node \<Rightarrow> raft_node \<Rightarrow> bool" where
  "same_for w n t \<longleftrightarrow>
     clock t = clock n \<and> resend_time t = resend_time n \<and> ticks n \<le> ticks t \<and> ticks t \<le> ticks n + w"

lemma serves_resend:
  assumes n: "serves ids ld T p [] n" "leading ids n" and p: "is_peer ids ld p" and i: "i < length ids"
    and due: "i = p_pos p \<Longrightarrow> idle ids p n \<or> clock n (ticks n) - heard_from n ! i \<le> resend_time n"
  shows "wp (leader_resend_node i)
    (\<lambda>_ t. serves ids ld T p [] t \<and> same_for 3 n t
       \<and> (i \<noteq> p_pos p \<longrightarrow> heard_from t ! p_pos p = heard_from n ! p_pos p \<and> idle ids p t = idle ids p n))
    (\<lambda>_ _. True) n"
proof (cases "next_index n ! i")
  case None
  with n i show ?thesis
    by (simp add: leader_resend_node_def wp same_for_def node_okD(4) [OF conjunct1 [OF n(2)]])
next
  case (Some k)
  note okD = node_okD [OF conjunct1 [OF n(2)]]
  let ?n = "n\<lparr>ticks := Suc (ticks n)\<rparr>"
  let ?o = "append_message (k - 1) (e_term (rlog n ! nat (k - 1))) (rlog n ! nat k) (PyStr (ids ! i)) ?n"
  have "Some k \<in> set (next_index n)"
    using Some i okD(4) by (metis nth_mem)
  then have k: "1 \<le> k" "k < int (length (rlog n))"
    using n(2) by (auto simp: leader_ok_def)
  have "serves ids ld T p [] (sent ?o ?n)" if "clock n (ticks n) - heard_from n ! i > resend_time n"
  proof (cases "i = p_pos p")
    case False
    then have "ids ! i \<noteq> ids ! p_pos p"
      using i p by (simp add: is_peer_def nth_eq_iff_index_eq)
    with n(1) show ?thesis
      by (simp add: serves_sent_other)
  next
    case True
    with due that have none: "p_offers p = []" "filter (offer_for (ids ! p_pos p)) (outbox n) = []"
        "filter (ack_from (ids ! p_pos p)) (inbox n) = []" "p_answers p = []"
      by (auto simp: idle_def)
    have "offer_at T ld (ids ! i) (rlog n) k (jsonify ?o)"
      using n(1) by (intro offer_at_sent) (simp_all add: serves_def)
    moreover have "tracks T ld (ids ! i) (rlog n) (match_index n ! i) (Some k) (p_log p) (p_term p) [] []"
      using n(1) True none Some by (simp add: serves_def)
    ultimately show ?thesis
      using n(1) True none Some tracks_again by (simp add: serves_def del: jsonify.simps)
  qed
  moreover have "idle ids p (sent ?o ?n) = idle ids p n" if "i \<noteq> p_pos p"
  proof -
    have "ids ! i \<noteq> ids ! p_pos p"
      using that i p by (simp add: is_peer_def nth_eq_iff_index_eq)
    then show ?thesis
      by (simp add: idle_def)
  qed
  ultimately show ?thesis
    using n(1) i k Some okD(1,4,6)
    by (auto simp: leader_resend_node_def leader_send_next_def wp same_for_def ticks_sent)
qed

text \<open>
  The loop over all members. Its readings of the clock are within three a member of the
  first one, and no reading in that range is late for a member something is on its way for.
\<close>

definition in_time :: "string list \<Rightarrow> nat \<Rightarrow> peer \<Rightarrow> raft_node \<Rightarrow> bool" where
  "in_time ids w p n \<longleftrightarrow>
     idle ids p n \<or> (\<forall>k < w. clock n (ticks n + k) - heard_from n ! p_pos p \<le> resend_time n)"

lemma in_time_same:
  assumes "in_time ids w p n" and "same_for d n t" and "heard_from t ! p_pos p = heard_from n ! p_pos p"
    and "idle ids p t = idle ids p n" and "w' + d \<le> w"
  shows "in_time ids w' p t"
proof -
  have "clock t (ticks t + k) - heard_from t ! p_pos p \<le> resend_time t"
    if late: "\<forall>k < w. clock n (ticks n + k) - heard_from n ! p_pos p \<le> resend_time n" and k: "k < w'" for k
  proof -
    let ?j = "ticks t - ticks n + k"
    have "ticks n + ?j = ticks t + k" "?j < w"
      using assms(2,5) k by (auto simp: same_for_def)
    with late have "clock n (ticks t + k) - heard_from n ! p_pos p \<le> resend_time n"
      by metis
    with assms(2,3) show ?thesis
      by (simp add: same_for_def)
  qed
  with assms(1,4) show ?thesis
    by (auto simp: in_time_def)
qed

lemma serves_resend_loop:
  assumes n: "serves ids ld T p [] n" "leading ids n" and p: "is_peer ids ld p"
    and time: "in_time ids (3 * length ids) p n"
  shows "wp (for_each [0..<length ids] leader_resend_node)
    (\<lambda>_ t. leading ids t \<and> serves ids ld T p [] t) (\<lambda>_ _. False) n"
proof -
  let ?I = "\<lambda>xs t. leading ids t \<and> serves ids ld T p [] t \<and> distinct xs \<and> (\<forall>x \<in> set xs. x < length ids)
      \<and> (p_pos p \<in> set xs \<longrightarrow> in_time ids (3 * length xs) p t)"
  have "wp (for_each [0..<length ids] leader_resend_node) (\<lambda>_. ?I []) (\<lambda>_ _. False) n"
  proof (rule wp_for_each [where I = ?I])
    fix x xs t
    assume t: "?I (x # xs) t"
    have "idle ids p t \<or> clock t (ticks t) - heard_from t ! x \<le> resend_time t" if "x = p_pos p"
      using t that by (auto simp: in_time_def dest!: spec [of _ 0])
    with t have keep: "wp (leader_resend_node x)
      (\<lambda>_ u. serves ids ld T p [] u \<and> same_for 3 t u
         \<and> (x \<noteq> p_pos p \<longrightarrow> heard_from u ! p_pos p = heard_from t ! p_pos p \<and> idle ids p u = idle ids p t))
      (\<lambda>_ _. True) t"
      by (intro serves_resend p) auto
    have safe: "safe_leading ids (leader_resend_node x) t"
      using t by (intro leader_resend_node_ok) auto
    from wp_both [OF safe keep] show "wp (leader_resend_node x) (\<lambda>_. ?I xs) (\<lambda>_ _. False) t"
      by (rule wp_mono) (use t in \<open>auto intro: in_time_same\<close>)
  qed (use n time in auto)
  then show ?thesis
    by (rule wp_mono) auto
qed

section \<open>One iteration\<close>

definition goes_on_serving :: "string list \<Rightarrow> string \<Rightarrow> int \<Rightarrow> peer \<Rightarrow> 'a flow \<Rightarrow> raft_node \<Rightarrow> bool" where
  "goes_on_serving ids ld T p fl t \<longleftrightarrow>
     (case fl of Return \<Rightarrow> True | Continue _ \<Rightarrow> leading ids t \<and> serves ids ld T p [] t)"

lemma goes_on_serving_simps [simp]:
  "goes_on_serving ids ld T p Return t"
  "goes_on_serving ids ld T p (Continue l) t \<longleftrightarrow> leading ids t \<and> serves ids ld T p [] t"
  by (simp_all add: goes_on_serving_def)

lemma serves_received:
  "inbox n = x # q \<Longrightarrow>
     serves ids ld T p [] n = serves ids ld T p (if ack_from (ids ! p_pos p) x then [x] else []) (received q n)"
  by (simp add: serves_def)

lemma serves_handle:
  assumes n: "serves ids ld T p (if ack_from (ids ! p_pos p) x then [x] else []) n" "leading ids n"
    and p: "is_peer ids ld p" and x: "parse_json_message x = Inr (Some m)" and m: "wf_message ids m"
  shows "wp (leader_handle m) (goes_on_serving ids ld T p) (\<lambda>_ _. True) n"
proof (cases "py_eq_int (msg_direction m) MessageDirection_Response \<and> py_eq_int (msg_type m) MessageType_Acknowledge")
  case True
  then have "safe_leading ids (leader_acknowledge m) n"
    using n(2) m by (intro leader_acknowledge_ok) auto
  from wp_both [OF this serves_acknowledge [OF n p x m]] True show ?thesis
    by (auto simp: leader_handle_def wp_seq wp_ret elim!: wp_mono)
next
  case False
  then have "acked_by x = None"
    using x by (auto simp: acked_by_def)
  with n(1) have n': "serves ids ld T p [] n"
    by simp
  have client: "wp (bnd (lift_result (rbind (append_entries_attr ''entries'' m_entries m) entry_of_py)) (\<lambda>e.
          seq (broadcast_append_entries e) (ret (Continue ())))) (goes_on_serving ids ld T p) (\<lambda>_ _. True) n"
    if ty: "py_eq_int (msg_type m) MessageType_ClientRequest"
  proof -
    obtain e where "rbind (append_entries_attr ''entries'' m_entries m) entry_of_py = Inr e" "wf_entry e"
      using m ty by (cases m) (auto simp: message_type_defs dest: wf_payloadE)
    then show ?thesis
      using wp_mono [OF serves_broadcast [OF n' n(2) p]] by (simp add: wp_bnd wp_lift_result wp_seq wp_ret)
  qed
  have votes: "wp (leader_request_votes m) (goes_on_serving ids ld T p) (\<lambda>_ _. True) n"
    using n' n(2) by (simp add: leader_request_votes_def wp)
  show ?thesis
    using False client votes n' n(2) by (auto simp: leader_handle_def wp_ret)
qed

lemma serves_client:
  assumes "serves ids ld T p [] n" and "leading ids n" and "is_peer ids ld p"
  shows "wp (bnd get_client_request (\<lambda>cr. seq (case cr of None \<Rightarrow> ret () | Some e \<Rightarrow> broadcast_append_entries e)
      (ret (Continue x)))) (goes_on_serving ids ld T p) (\<lambda>_ _. True) n"
proof (cases "client_queue n")
  case Nil
  with assms show ?thesis
    by (simp add: wp)
next
  case (Cons e q)
  then have "leading ids (n\<lparr>client_queue := q\<rparr>)" and "wf_entry e"
    using assms(2) by (auto simp: node_ok_def)
  with serves_broadcast [of ids ld T p "n\<lparr>client_queue := q\<rparr>" e] assms Cons show ?thesis
    by (auto simp: wp elim!: wp_mono)
qed

lemma serves_round:
  assumes n: "serves ids ld T p [] n" "leading ids n" and p: "is_peer ids ld p"
    and time: "in_time ids (3 * length ids) p n"
  shows "wp (leader_round mrh) (goes_on_serving ids ld T p) (\<lambda>_ _. True) n"
proof -
  let ?K = "\<lambda>(fl :: unit flow). case fl of Return \<Rightarrow> ret Return | Continue _ \<Rightarrow> bnd get_client_request (\<lambda>cr.
      seq (case cr of None \<Rightarrow> ret () | Some e \<Rightarrow> broadcast_append_entries e) (ret (Continue mrh)))"
  have rest: "wp (?K fl) (goes_on_serving ids ld T p) (\<lambda>_ _. True) t" if "goes_on_serving ids ld T p fl t" for fl t
    using that by (cases fl) (auto simp: wp_ret intro: serves_client [OF _ _ p])
  have message: "wp (bnd get_message (\<lambda>im. bnd (case im of None \<Rightarrow> ret (Continue ()) | Some m \<Rightarrow> leader_handle m) ?K))
      (goes_on_serving ids ld T p) (\<lambda>_ _. True) t" if t: "leading ids t \<and> serves ids ld T p [] t" for t
  proof (cases "inbox t")
    case Nil
    with t rest [of "Continue ()" t] show ?thesis
      by (simp add: wp_bnd wp_get_message wp_ret)
  next
    case (Cons x q)
    with t have "wf_json ids x"
      by (simp add: node_ok_def)
    from wf_json_parse [OF this] obtain m where m: "parse_json_message x = Inr (Some m)" "wf_message ids m"
      by blast
    have "leading ids (received q t)"
      using t Cons by (simp add: node_ok_def)
    moreover have "serves ids ld T p (if ack_from (ids ! p_pos p) x then [x] else []) (received q t)"
      using t serves_received [OF Cons] by blast
    ultimately have "wp (leader_handle m) (\<lambda>fl. wp (?K fl) (goes_on_serving ids ld T p) (\<lambda>_ _. True)) (\<lambda>_ _. True) (received q t)"
      by (intro wp_mono [OF serves_handle [OF _ _ p m] rest]) simp_all
    with Cons m show ?thesis
      by (simp add: wp_bnd wp_get_message)
  qed
  have "length (next_index n) = length ids"
    using n(2) by (simp add: node_ok_def)
  with wp_mono [OF serves_resend_loop [OF n p time] message] show ?thesis
    by (simp add: leader_round_def wp_bnd [of "gets _"] wp_gets wp_seq)
qed

lemma serves_iteration:
  assumes n: "serves ids ld T p [] n" "leading ids n" and p: "is_peer ids ld p"
    and time: "in_time ids (3 * length ids + 3) p n"
  shows "wp (leader_iteration mrh) (goes_on_serving ids ld T p) (\<lambda>_ _. True) n"
proof -
  have "wp (leader_send_heartbeat_if_due mrh)
      (\<lambda>_ t. serves ids ld T p [] t \<and> in_time ids (3 * length ids) p t) (\<lambda>_ _. True) n"
  proof -
    have "in_time ids (3 * length ids) p t"
      if "same_for 3 n t" "heard_from t ! p_pos p = heard_from n ! p_pos p" "idle ids p t = idle ids p n" for t
      by (rule in_time_same [OF time that]) simp
    with n(1) show ?thesis
      by (auto simp: leader_send_heartbeat_if_due_def wp same_for_def ticks_sent idle_def)
  qed
  from wp_both [OF heartbeat_if_due_ok [OF n(2)] this] show ?thesis
    unfolding leader_iteration_def wp_bnd
    by (rule wp_mono) (use serves_round [OF _ _ p] in auto)
qed

section \<open>The beginning of a leadership\<close>

lemma serves_start:
  assumes ok: "node_ok ids n" and p: "is_peer ids ld p" and me: "my_id n = ld" "current_term n = T"
    and od: "floor_division (lib_old_div n)" and idle: "idle ids p n"
    and logs: "length (p_log p) \<le> length (rlog n)" "log_matching (rlog n) (p_log p)" "agree (commit_index n) (rlog n) (p_log p)"
  shows "wp leader_start (\<lambda>_ t. leading ids t \<and> serves ids ld T p [] t) (\<lambda>_ _. False) n"
proof -
  let ?N = "nat (current_num_nodes n)"
  let ?e = "\<lparr>e_term = current_term n, e_value = PyStr ''Leader Entry'', e_id = PyInt (- 1)\<rparr>"
  let ?s1 = "sent (heartbeat_message n) n"
  let ?s = "?s1\<lparr>leader_id := PyStr (my_id n),
      match_index := replicate ?N (commit_index n), next_index := replicate ?N None,
      heard_from := map (\<lambda>k. clock n (Suc (ticks ?s1) + k)) [0..<?N], ticks := Suc (ticks ?s1) + ?N\<rparr>"
  have pos: "p_pos p < length ids" and N: "?N = length ids"
    using p ok by (simp_all add: is_peer_def node_ok_def)
  have "node_ok ids ?s1"
    using ok by (intro node_ok_sent wf_sent_messages)
  then have "leading ids ?s"
    by (simp add: node_ok_def leader_ok_def)
  moreover have "serves ids ld T p [] ?s"
    using me od idle logs pos N by (simp add: serves_def tracks_def exchange_def idle_def)
  ultimately have "wp (broadcast_append_entries ?e) (\<lambda>_ t. leading ids t \<and> serves ids ld T p [] t) (\<lambda>_ _. False) ?s"
    by (intro serves_broadcast p) (simp_all add: wf_entry_def)
  then show ?thesis
    by (simp add: leader_start_def leader_take_over_def wp)
qed

end
