(* ===== verification/Raft_Reign.thy ===== *)
theory Raft_Reign
  imports Raft_Serving
begin

text \<open>
  The reign of a leader: from the start of its leadership for as long as it leads and nobody
  else does. What the leader takes for replicated is, at every member, up to its commit
  index and beyond; what breaks this is only an offer repeated while the first is alive.
\<close>

section \<open>The member's side\<close>

text \<open>No offer, no answer and no change of the log.\<close>

definition aloof :: "raft_node \<Rightarrow> raft_node \<Rightarrow> bool" where
  "aloof s t \<longleftrightarrow>
     rlog t = rlog s \<and> (\<exists>vs. outbox t = outbox s @ vs \<and> (\<forall>x \<in> set vs. \<not> is_offer x \<and> acked_by x = None))"

lemma aloof_quiet: "rlog t = rlog s \<Longrightarrow> outbox t = outbox s \<Longrightarrow> aloof s t"
  by (simp add: aloof_def)

interpretation aloofness: frame aloof
proof
  fix s t u
  assume "aloof s t" and "aloof t u"
  then show "aloof s u"
    by (fastforce simp: aloof_def)
qed (simp add: aloof_def)

lemma aloof_small:
  "always aloof time_time" "always aloof get_message" "always aloof get_client_request" "always aloof check_role"
  "always aloof (increment_term tm)" "always aloof (set_current_role r)" "always aloof (commit_entry i j)"
  "always aloof (send_vote c g)" "always aloof (send_request_vote c)" "always aloof (send_client_request c e)"
  "always aloof (modify (\<lambda>s. s\<lparr>leader_id := l\<rparr>))"
  by (auto simp: always_def wp aloof_def simp del: jsonify.simps)

lemma aloof_flow:
  "always aloof m \<Longrightarrow> (\<And>l. always aloof (f l)) \<Longrightarrow> always aloof (case fl of Return \<Rightarrow> m | Continue l \<Rightarrow> f l)"
  by (cases fl) simp_all

lemma candidate_aloof: "always aloof candidate_start" "always aloof (candidate_iteration el)"
  unfolding candidate_start_def candidate_iteration_def candidate_handle_def candidate_vote_def
    candidate_request_votes_def candidate_heartbeat_def
  by (intro aloofness.frame_intros aloof_small aloof_flow)+

lemma follower_handle_aloof:
  assumes "\<not> (py_eq_int (msg_direction m) MessageDirection_Request \<and> py_eq_int (msg_type m) MessageType_AppendEntries)"
  shows "always aloof (follower_handle mrh m)"
proof -
  have "always aloof (follower_request_votes m)" "always aloof (follower_heartbeat m)" "always aloof (follower_committal m)"
    unfolding follower_request_votes_def follower_heartbeat_def follower_committal_def vote_test_def
    by (intro aloofness.frame_intros aloof_small)+
  with assms show ?thesis
    by (auto simp: follower_handle_def intro!: aloofness.frame_intros)
qed

text \<open>A step of a member that answers an offer.\<close>

definition answers :: "raft_node \<Rightarrow> raft_node \<Rightarrow> bool" where
  "answers s t \<longleftrightarrow>
     (\<exists>x q m u. inbox s = x # q \<and> is_offer x \<and> parse_json_message x = Inr (Some m)
        \<and> follower_append_entries m (received q s) = (Inr (), u)
        \<and> rlog t = rlog u \<and> outbox t = outbox u \<and> inbox t = q \<and> current_term t = current_term u)"

lemma follower_append_entries_inbox:
  "wp (follower_append_entries m) (\<lambda>_ t. inbox t = inbox s) (\<lambda>_ _. True) s"
proof -
  have "always same_inbox (follower_append_entries m)"
    unfolding follower_append_entries_def append_entry_def
    by (intro inbox.frame_intros inbox.small inbox.modify_frame) (auto simp: always_def wp same_inbox_def)
  then show ?thesis
    by (rule wp_mono [OF alwaysD]) (simp_all add: same_inbox_def)
qed

lemma follower_iteration_effect:
  "wp (follower_iteration mrh) (\<lambda>_ t. aloof s t \<or> answers s t) (\<lambda>_ _. True) s"
proof (cases "inbox s")
  case Nil
  have "always aloof (bnd time_time (\<lambda>now. bnd (gets election_timeout) (\<lambda>et.
     if now - x > et then seq (set_current_role Candidate) (ret Return) else ret (Continue x))))" for x
    by (intro aloofness.frame_intros aloof_small)
  then have "wp (bnd time_time (\<lambda>now. bnd (gets election_timeout) (\<lambda>et.
     if now - x > et then seq (set_current_role Candidate) (ret Return) else ret (Continue x))))
      (\<lambda>_ t. aloof s t \<or> answers s t) (\<lambda>_ _. True) s" for x
    by (rule wp_mono [OF alwaysD]) simp_all
  with Nil show ?thesis
    by (simp add: follower_iteration_def wp_bnd [of get_message] wp_bnd [of "ret _"] wp_get_message wp_ret)
next
  case (Cons x q)
  let ?r = "received q s"
  let ?K = "\<lambda>mrh'. bnd time_time (\<lambda>now. bnd (gets election_timeout) (\<lambda>et.
     if now - mrh' > et then seq (set_current_role Candidate) (ret Return) else ret (Continue mrh')))"
  have recv: "aloof s t" if "aloof ?r t" for t
    using that by (simp add: aloof_def)
  have "wp (bnd (follower_handle mrh m) ?K) (\<lambda>_ t. aloof s t \<or> answers s t) (\<lambda>_ _. True) ?r"
    if m: "parse_json_message x = Inr (Some m)" for m
  proof (cases "is_offer x")
    case False
    have "always aloof (bnd (follower_handle mrh m) ?K)"
      using False m by (intro aloofness.frame_intros aloof_small follower_handle_aloof) (auto simp: is_offer_def)
    then show ?thesis
      by (rule wp_mono [OF alwaysD]) (use recv in simp_all)
  next
    case True
    then have h: "follower_handle mrh m = seq (follower_append_entries m) (ret mrh)"
      using m by (cases "msg_type m") (auto simp: is_offer_def follower_handle_def message_type_defs)
    have "wp (follower_append_entries m) (\<lambda>_ u. follower_append_entries m ?r = (Inr (), u) \<and> inbox u = q) (\<lambda>_ _. True) ?r"
      using follower_append_entries_inbox [of m ?r] by (simp add: wp_def split: prod.splits sum.splits)
    then have "wp (follower_append_entries m)
        (\<lambda>_. wp (?K mrh) (\<lambda>_ t. aloof s t \<or> answers s t) (\<lambda>_ _. True)) (\<lambda>_ _. True) ?r"
      by (rule wp_mono) (use Cons True m in \<open>auto simp: wp answers_def\<close>)
    then show ?thesis
      by (simp add: h wp_bnd [of "seq _ _"] wp_seq wp_ret)
  qed
  moreover have "wp (?K mrh) (\<lambda>_ t. aloof s t \<or> answers s t) (\<lambda>_ _. True) ?r"
  proof -
    have "always aloof (?K mrh)"
      by (intro aloofness.frame_intros aloof_small)
    then show ?thesis
      by (rule wp_mono [OF alwaysD]) (use recv in simp_all)
  qed
  ultimately show ?thesis
    using Cons by (auto simp: follower_iteration_def wp_bnd [of get_message] wp_get_message wp_bnd [of "ret _"] wp_ret
        split: option.split)
qed

lemma member_step:
  assumes ok: "thread_ok ids (c, n)" and step: "thread_step (c, n) = (c', n')" and peer: "\<not> leads c n"
  shows "aloof n n' \<or> answers n n'"
proof -
  have "wp (run_step c) (\<lambda>_ t. aloof n t \<or> answers n t) (\<lambda>_ _. True) n"
  proof (rule run_step_cases, goal_cases)
    case 1
    have "aloof n (n\<lparr>ticks := k\<rparr>)" for k
      by (simp add: aloof_quiet)
    then show ?case
      using peer alwaysD [OF candidate_aloof(1), of n] aloofness.frame_refl
      by (auto simp: run_dispatch_def wp leads_def elim!: wp_mono)
  next
    case (2 mrh)
    show ?case by (rule follower_iteration_effect)
  next
    case (3 el)
    show ?case by (rule wp_mono [OF alwaysD [OF candidate_aloof(2)]]) simp_all
  next
    case (4 mrh)
    then show ?case using peer by (simp add: leads_def)
  qed (auto simp: aloofness.frame_refl)
  from thread_step_wp [OF ok step this] show ?thesis .
qed

section \<open>What is under way\<close>

definition offers_under_way :: "string \<Rightarrow> string \<Rightarrow> system \<Rightarrow> pyval list" where
  "offers_under_way ld v s =
     filter is_offer (inbox (nodes s v)) @ filter (offer_for v) (wires s ld v @ outbox (nodes s ld))"

definition answers_under_way :: "string \<Rightarrow> string \<Rightarrow> system \<Rightarrow> pyval list" where
  "answers_under_way ld v s = filter (ack_from v) (inbox (nodes s ld) @ wires s v ld @ outbox (nodes s v))"

text \<open>Answers bear the name of their sender, and only the leader makes offers.\<close>

definition signed :: "string list \<Rightarrow> string \<Rightarrow> system \<Rightarrow> bool" where
  "signed ids ld s \<longleftrightarrow>
     (\<forall>w \<in> set ids. \<forall>x \<in> set (outbox (nodes s w)) \<union> (\<Union>b \<in> set ids. set (wires s w b)).
        acked_by x \<in> {None, Some w} \<and> (is_offer x \<longrightarrow> w = ld))"

lemma signed_wire:
  "signed ids ld s \<Longrightarrow> w \<in> set ids \<Longrightarrow> b \<in> set ids \<Longrightarrow> x \<in> set (wires s w b) \<Longrightarrow>
     acked_by x \<in> {None, Some w} \<and> (is_offer x \<longrightarrow> w = ld)"
  by (auto simp: signed_def)

lemma signed_mono:
  assumes "signed ids ld s"
    and "\<And>w x. w \<in> set ids \<Longrightarrow> x \<in> set (outbox (nodes t w)) \<Longrightarrow>
      x \<in> set (outbox (nodes s w)) \<or> acked_by x \<in> {None, Some w} \<and> (is_offer x \<longrightarrow> w = ld)"
    and "\<And>w b x. w \<in> set ids \<Longrightarrow> b \<in> set ids \<Longrightarrow> x \<in> set (wires t w b) \<Longrightarrow>
      x \<in> set (wires s w b) \<or> x \<in> set (outbox (nodes s w))"
  shows "signed ids ld t"
  unfolding signed_def
proof (intro ballI)
  fix w x
  assume w: "w \<in> set ids" and x: "x \<in> set (outbox (nodes t w)) \<union> (\<Union>b \<in> set ids. set (wires t w b))"
  from x consider "x \<in> set (outbox (nodes t w))" | b where "b \<in> set ids" "x \<in> set (wires t w b)"
    by blast
  then show "acked_by x \<in> {None, Some w} \<and> (is_offer x \<longrightarrow> w = ld)"
  proof cases
    case 1
    from assms(2) [OF w this] assms(1) w show ?thesis
      unfolding signed_def by blast
  next
    case 2
    from assms(3) [OF w this] assms(1) w 2(1) show ?thesis
      unfolding signed_def by blast
  qed
qed

text \<open>What the environment leaves alone in a node.\<close>

definition same_replica :: "raft_node \<Rightarrow> raft_node \<Rightarrow> bool" where
  "same_replica n t \<longleftrightarrow>
     rlog t = rlog n \<and> current_term t = current_term n \<and> my_id t = my_id n \<and> lib_old_div t = lib_old_div n
     \<and> commit_index t = commit_index n \<and> match_index t = match_index n \<and> next_index t = next_index n"

lemma env_step_replica: "env_step tr ids s t \<Longrightarrow> same_replica (nodes s v) (nodes t v)"
  by (induction rule: env_step.induct)
     (auto simp: set_node_def same_replica_def client_request_def pause_def un_pause_def set_current_role_def
        check_role_def RaftNode_stop_def py_run)

lemma env_boxes:
  assumes step: "env_step tr ids s t" and ok: "sys_ok ids s" and tr: "json_wire tr"
  obtains (talk) i m rest D where "i \<in> set ids" "outbox (nodes s i) = m # rest"
      "\<And>w. outbox (nodes t w) = (if w = i then rest else outbox (nodes s w))"
      "\<And>w. inbox (nodes t w) = inbox (nodes s w)"
      "\<And>a b. wires t a b = (if a = i \<and> b \<in> D then wires s a b @ [m] else wires s a b)"
    | (listen) i j m q got where "i \<in> set ids" "j \<in> set ids" "wires s j i = m # q"
      "got \<longrightarrow> addressed_to i m = Inr True"
      "\<And>w. outbox (nodes t w) = outbox (nodes s w)"
      "\<And>w. inbox (nodes t w) = (if w = i \<and> got then inbox (nodes s w) @ [m] else inbox (nodes s w))"
      "\<And>a b. wires t a b = (if a = j \<and> b = i then q else wires s a b)"
    | (quiet) "\<And>w. outbox (nodes t w) = outbox (nodes s w)" "\<And>w. inbox (nodes t w) = inbox (nodes s w)" "wires t = wires s"
  using step
proof cases
  case (talk i D b tk out)
  show ?thesis
  proof (cases out)
    case None
    then have "t_messages tk = outbox (nodes s i)"
      using talk(4) by (auto simp: Talker_run_step_def queue_get_nowait_def split: talker_pc.splits if_splits list.splits)
    with None show ?thesis
      by (intro that(3)) (auto simp: talk(1) publish_to_def set_node_def)
  next
    case (Some m)
    then have out: "outbox (nodes s i) = m # t_messages tk"
      using talk(4) by (auto simp: Talker_run_step_def queue_get_nowait_def split: talker_pc.splits if_splits list.splits)
    have "wf_json ids m"
      using node_sound_talker(2) [OF sys_ok_node [OF ok talk(2)] talk(4)] Some by blast
    then have "tr m = m"
      using tr by (auto simp: json_wire_def wf_json_def)
    with Some out show ?thesis
      by (intro that(1) [of i m "t_messages tk" D]) (auto simp: talk(1,2) publish_to_def set_node_def)
  qed
next
  case (listen i j m q)
  have me: "l_my_id (node_listener (nodes s i)) = i"
    using sys_ok_node [OF ok listen(2)] by (simp add: node_sound_def)
  let ?l = "Listener_run_step (Some m) (node_listener (nodes s i))"
  show ?thesis
  proof (cases "l_messages ?l = inbox (nodes s i)")
    case True
    then show ?thesis
      by (intro that(2) [of i j m q False]) (auto simp: listen set_node_def)
  next
    case False
    with listener_step_inbox [of "Some m" "node_listener (nodes s i)"] me
    have "addressed_to i m = Inr True" "l_messages ?l = inbox (nodes s i) @ [m]"
      by auto
    then show ?thesis
      by (intro that(2) [of i j m q True]) (auto simp: listen set_node_def)
  qed
next
  case (listen_nothing i)
  show ?thesis
    using listener_step_inbox [of None "node_listener (nodes s i)"]
    by (intro that(3)) (auto simp: listen_nothing(1) set_node_def)
next
  case (request i x k)
  show ?thesis
    by (intro that(3)) (auto simp: request(1) set_node_def client_request_def py_run)
next
  case (pausing i)
  show ?thesis
    by (intro that(3)) (auto simp: pausing(1) set_node_def pause_def set_current_role_def py_run)
next
  case (unpausing i)
  show ?thesis
    by (intro that(3)) (auto simp: unpausing(1) set_node_def un_pause_def set_current_role_def check_role_def py_run)
next
  case (stopping i)
  show ?thesis
    by (intro that(3)) (auto simp: stopping(1) set_node_def RaftNode_stop_def Talker_stop_def Listener_stop_def)
qed

lemma subseq_without: "subseq (xs @ ys @ zs) (xs @ ys @ m # zs)"
  by (intro list_emb_append_mono list_emb_Cons subseq_order.refl)

lemma env_signed:
  assumes step: "env_step tr ids s t" and ok: "sys_ok ids s" and tr: "json_wire tr" and signed: "signed ids ld s"
  shows "signed ids ld t"
  using step ok tr by (cases rule: env_boxes) (rule signed_mono [OF signed]; auto split: if_splits)+

lemma env_under_way:
  assumes step: "env_step tr ids s t" and ok: "sys_ok ids s" and tr: "json_wire tr" and signed: "signed ids ld s"
    and v: "v \<noteq> ld"
  shows "subseq (offers_under_way ld v t) (offers_under_way ld v s)
    \<and> subseq (answers_under_way ld v t) (answers_under_way ld v s)"
  using step ok tr
proof (cases rule: env_boxes)
  case (talk i m rest D)
  with v show ?thesis
    by (auto simp: talk offers_under_way_def answers_under_way_def intro: subseq_without)
next
  case (listen i j m q got)
  have m: "acked_by m \<in> {None, Some j}" "is_offer m \<longrightarrow> j = ld"
    using signed_wire [OF signed listen(2,1)] listen(3) by auto
  have got: "offer_for i m = is_offer m" if got
    using listen(4) that by (simp add: offer_for_def)
  have no: "\<not> is_offer m" if "j \<noteq> ld"
    using m(2) that by blast
  have no_ack: "\<not> ack_from v m" if "j \<noteq> v"
    using m(1) that by auto
  have one: "subseq (xs @ zs) (xs @ m # zs)" for xs zs
    using subseq_without [of xs "[]" zs m] by simp
  have "subseq (offers_under_way ld v t) (offers_under_way ld v s)"
  proof (cases "i = v")
    case True
    then show ?thesis
      using v got no one listen(3) by (cases "j = ld"; cases got) (simp_all add: listen offers_under_way_def)
  next
    case False
    with v show ?thesis
      by (simp add: listen offers_under_way_def)
  qed
  moreover have "subseq (answers_under_way ld v t) (answers_under_way ld v s)"
  proof (cases "i = ld")
    case True
    then show ?thesis
      using v no_ack one listen(3) by (cases "j = v"; cases got) (simp_all add: listen answers_under_way_def)
  next
    case False
    with v show ?thesis
      by (simp add: listen answers_under_way_def)
  qed
  ultimately show ?thesis
    by blast
next
  case quiet
  then show ?thesis
    by (simp add: offers_under_way_def answers_under_way_def)
qed

section \<open>The reign\<close>

text \<open>
  A reign begins with a leadership, in a state where the logs fit and no offer and no answer
  of an earlier leader is about; it goes on while the leader is in its loop and no other
  member leads. The condition \<open>unhurried\<close> on each of its iterations: no reading of the clock
  the iteration can make is later than the resend time for a member to or from which an
  offer or an answer is under way.
\<close>

definition settled :: "string list \<Rightarrow> string \<Rightarrow> system \<Rightarrow> bool" where
  "settled ids ld s \<longleftrightarrow>
     threads s ld = Dispatch \<and> floor_division (lib_old_div (nodes s ld))
     \<and> (\<forall>x \<in> flight ids s. \<not> is_offer x \<and> acked_by x = None)
     \<and> (\<forall>v \<in> set ids. v \<noteq> ld \<longrightarrow> \<not> leads (threads s v) (nodes s v)
          \<and> length (rlog (nodes s v)) \<le> length (rlog (nodes s ld))
          \<and> log_matching (rlog (nodes s ld)) (rlog (nodes s v))
          \<and> agree (commit_index (nodes s ld)) (rlog (nodes s ld)) (rlog (nodes s v)))"

definition unhurried :: "string list \<Rightarrow> string \<Rightarrow> system \<Rightarrow> bool" where
  "unhurried ids ld s \<longleftrightarrow>
     (\<forall>j < length ids. ids ! j \<noteq> ld \<longrightarrow>
        offers_under_way ld (ids ! j) s \<noteq> [] \<or> answers_under_way ld (ids ! j) s \<noteq> [] \<longrightarrow>
        (\<forall>k < 3 * length ids + 3.
           clock (nodes s ld) (ticks (nodes s ld) + k) - heard_from (nodes s ld) ! j \<le> resend_time (nodes s ld)))"

inductive reign :: "(pyval \<Rightarrow> pyval) \<Rightarrow> string list \<Rightarrow> string \<Rightarrow> system \<Rightarrow> bool" for tr ids ld where
  begin_reign: "sys_ok ids s \<Longrightarrow> settled ids ld s \<Longrightarrow> threads (thread_move ld s) ld = InLeader m \<Longrightarrow>
    reign tr ids ld (thread_move ld s)"
| lead: "reign tr ids ld s \<Longrightarrow> unhurried ids ld s \<Longrightarrow> threads (thread_move ld s) ld = InLeader m \<Longrightarrow>
    reign tr ids ld (thread_move ld s)"
| follow: "reign tr ids ld s \<Longrightarrow> v \<in> set ids \<Longrightarrow> v \<noteq> ld \<Longrightarrow>
    \<not> leads (threads (thread_move v s) v) (nodes (thread_move v s) v) \<Longrightarrow> reign tr ids ld (thread_move v s)"
| env: "reign tr ids ld s \<Longrightarrow> env_step tr ids s t \<Longrightarrow> reign tr ids ld t"

text \<open>The rest of the group as the leader's side of the exchange sees it.\<close>

definition peer_at :: "string list \<Rightarrow> string \<Rightarrow> nat \<Rightarrow> system \<Rightarrow> peer" where
  "peer_at ids ld j s =
     \<lparr>p_pos = j, p_log = rlog (nodes s (ids ! j)), p_term = current_term (nodes s (ids ! j)),
      p_offers = filter is_offer (inbox (nodes s (ids ! j))) @ filter (offer_for (ids ! j)) (wires s ld (ids ! j)),
      p_answers = filter (ack_from (ids ! j)) (wires s (ids ! j) ld @ outbox (nodes s (ids ! j)))\<rparr>"

definition reign_ok :: "string list \<Rightarrow> string \<Rightarrow> int \<Rightarrow> system \<Rightarrow> bool" where
  "reign_ok ids ld T s \<longleftrightarrow>
     sys_ok ids s \<and> signed ids ld s \<and> (\<exists>m. threads s ld = InLeader m)
     \<and> (\<forall>v \<in> set ids. v \<noteq> ld \<longrightarrow> \<not> leads (threads s v) (nodes s v))
     \<and> (\<forall>j < length ids. ids ! j \<noteq> ld \<longrightarrow> serves ids ld T (peer_at ids ld j s) [] (nodes s ld))"

lemma serves_at:
  "serves ids ld T (peer_at ids ld j s) [] (nodes s ld) \<longleftrightarrow>
     my_id (nodes s ld) = ld \<and> current_term (nodes s ld) = T \<and> floor_division (lib_old_div (nodes s ld))
     \<and> commit_index (nodes s ld) \<le> match_index (nodes s ld) ! j
     \<and> tracks T ld (ids ! j) (rlog (nodes s ld)) (match_index (nodes s ld) ! j) (next_index (nodes s ld) ! j)
         (rlog (nodes s (ids ! j))) (current_term (nodes s (ids ! j)))
         (offers_under_way ld (ids ! j) s) (answers_under_way ld (ids ! j) s)"
  by (simp add: serves_def peer_at_def offers_under_way_def answers_under_way_def)

lemma acked_by_sender: "wf_json ids x \<Longrightarrow> message_sender x = Some (PyStr v) \<Longrightarrow> acked_by x \<in> {None, Some v}"
proof -
  assume "wf_json ids x" "message_sender x = Some (PyStr v)"
  moreover from this obtain m where "x = jsonify m" "wf_message ids m"
    by (auto simp: wf_json_def)
  moreover from this have "parse_json_message x = Inr (Some m)"
    using parse_jsonify_message wf_message_classed by blast
  ultimately show ?thesis
    by (simp add: acked_by_def)
qed

lemma signed_move:
  assumes signed: "signed ids ld s" and ok: "sys_ok ids (thread_move v s)" and me: "my_id (nodes s v) = v" and v: "v \<in> set ids"
    and offers: "v \<noteq> ld \<Longrightarrow> \<forall>vs. outbox (nodes (thread_move v s) v) = outbox (nodes s v) @ vs \<longrightarrow> (\<forall>x \<in> set vs. \<not> is_offer x)"
  shows "signed ids ld (thread_move v s)"
proof -
  obtain c n where step: "thread_step (threads s v, nodes s v) = (c, n)"
    by force
  note moved = thread_move_simps [OF step]
  obtain vs where vs: "outbox n = outbox (nodes s v) @ vs" "\<forall>x \<in> set vs. message_sender x = Some (PyStr v)"
    using authentic.thread_step [OF step] me by (auto simp: sends_as_itself_def)
  have "list_all (wf_json ids) (outbox n)"
    using sys_ok_node [OF ok v] by (simp add: moved node_sound_def thread_ok_def node_ok_def)
  then have "\<forall>x \<in> set vs. acked_by x \<in> {None, Some v}"
    using vs acked_by_sender [of ids] by (simp add: list_all_iff)
  with offers vs(1) show ?thesis
    by (intro signed_mono [OF signed]) (auto simp: moved split: if_splits)
qed

lemma with_entry_same:
  "my_id (with_entry lc p e f) = my_id f" "node_talker (with_entry lc p e f) = node_talker f"
  by (simp_all add: with_entry_def Let_def)

text \<open>A member answers the offer that is under way.\<close>

lemma tracks_answers:
  assumes tr: "tracks T ld v (rlog l) mt nx (rlog n) (current_term n) (x # offs) acks"
    and l: "list_all wf_entry (rlog l)" and n: "rlog n \<noteq> []" "inbox n = x # q"
    and m: "parse_json_message x = Inr (Some m)" "follower_append_entries m (received q n) = (Inr (), u)"
  shows "\<exists>g w. outbox u = outbox n @ [jsonify (ack_message (PyStr ld) g w)] \<and> my_id w = my_id n
     \<and> tracks T ld v (rlog l) mt nx (rlog u) (current_term u) [] [jsonify (ack_message (PyStr ld) g w)]
     \<and> offs = [] \<and> acks = []"
proof -
  obtain k lc ts where k: "nx = Some k" "1 \<le> k" "k < int (length (rlog l))" and one: "offs = []" "acks = []"
    and x: "x = jsonify (offer_message T ld lc (k - 1) (e_term (rlog l ! nat (k - 1))) (rlog l ! nat k) (PyStr v) ts)"
    using tr by (auto simp: tracks_def exchange_def offer_at_def split: option.splits)
  let ?e = "rlog l ! nat k" and ?t = "e_term (rlog l ! nat (k - 1))" and ?r = "received q n"
  let ?m = "offer_message T ld lc (k - 1) ?t ?e (PyStr v) ts"
  have "well_classed ?m"
    by (simp add: offer_message_def message_type_defs)
  then have "m = ?m"
    using m(1) x by (simp add: parse_jsonify_message del: jsonify.simps)
  moreover have "py_hashable (e_id ?e)"
    using l k by (simp add: list_all_length wf_entry_def)
  ultimately have u: "u = (if acceptable T (k - 1) ?t ?r
      then sent (ack_message (PyStr ld) True (with_entry lc (k - 1) ?e ?r)) (with_entry lc (k - 1) ?e ?r)
      else sent (ack_message (PyStr ld) False ?r) ?r)"
    using m(2) n(1) k follower_append_entries_run [of ?r "k - 1" ?e T ld lc ?t "PyStr v" ts] by (simp split: if_splits)
  show ?thesis
  proof (cases "acceptable T (k - 1) ?t ?r")
    case True
    then have "tracks T ld v (rlog l) mt nx (take (nat k) (rlog n) @ [?e]) (current_term n) []
        [jsonify (ack_message (PyStr ld) True (with_entry lc (k - 1) ?e ?r))]"
      unfolding k(1) using tr k by (intro tracks_accepted) (auto simp: acceptable_def answer_granted_ack)
    with u True one show ?thesis
      by (intro exI [of _ True] exI [of _ "with_entry lc (k - 1) ?e ?r"])
        (simp add: with_entry_same del: jsonify.simps)
  next
    case False
    then have "tracks T ld v (rlog l) mt nx (rlog n) (current_term n) [] [jsonify (ack_message (PyStr ld) False ?r)]"
      unfolding k(1) using tr k by (intro tracks_refused) (auto simp: acceptable_def answer_granted_ack)
    with u False one show ?thesis
      by (intro exI [of _ False] exI [of _ ?r]) (simp del: jsonify.simps)
  qed
qed

text \<open>The steps of a reign.\<close>

lemma reign_env:
  assumes ok: "reign_ok ids ld T s" and step: "env_step tr ids s t" and tr: "json_wire tr"
  shows "reign_ok ids ld T t"
proof -
  have sys: "sys_ok ids s" and signed: "signed ids ld s"
    using ok by (simp_all add: reign_ok_def)
  have effect: "env_effect ids s t"
    by (rule env_step_effect [OF step sys tr])
  have same: "same_replica (nodes s v) (nodes t v)" for v
    by (rule env_step_replica [OF step])
  have "serves ids ld T (peer_at ids ld j t) [] (nodes t ld)" if j: "j < length ids" "ids ! j \<noteq> ld" for j
  proof -
    have "serves ids ld T (peer_at ids ld j s) [] (nodes s ld)"
      using ok j by (simp add: reign_ok_def)
    then show ?thesis
      using same [of ld] same [of "ids ! j"] env_under_way [OF step sys tr signed j(2)]
      unfolding serves_at same_replica_def by (auto intro: tracks_lose)
  qed
  moreover have "\<not> leads (threads t v) (nodes t v)" if "v \<in> set ids" "v \<noteq> ld" for v
    using ok effect that by (auto simp: reign_ok_def env_effect_def leads_def)
  moreover have "\<exists>m. threads t ld = InLeader m"
    using ok effect by (simp add: reign_ok_def env_effect_def)
  ultimately show ?thesis
    using env_step_ok [OF step sys tr] env_signed [OF step sys tr signed] by (simp add: reign_ok_def)
qed

text \<open>A member's step, for the member itself.\<close>

definition kept_by :: "string list \<Rightarrow> string \<Rightarrow> int \<Rightarrow> nat \<Rightarrow> system \<Rightarrow> system \<Rightarrow> bool" where
  "kept_by ids ld T j s t \<longleftrightarrow>
     serves ids ld T (peer_at ids ld j t) [] (nodes t ld)
     \<and> (\<forall>vs. outbox (nodes t (ids ! j)) = outbox (nodes s (ids ! j)) @ vs \<longrightarrow> (\<forall>x \<in> set vs. \<not> is_offer x))"

lemma aloof_kept:
  assumes serves: "serves ids ld T (peer_at ids ld j s) [] (nodes s ld)" and v: "ids ! j = v" "v \<noteq> ld"
    and step: "thread_step (threads s v, nodes s v) = (c, n)" and aloof: "aloof (nodes s v) n"
  shows "kept_by ids ld T j s (thread_move v s)"
proof -
  note moved = thread_move_simps [OF step]
  let ?n = "nodes s v" and ?t = "thread_move v s"
  obtain vs where vs: "rlog n = rlog ?n" "outbox n = outbox ?n @ vs" "\<forall>x \<in> set vs. \<not> is_offer x \<and> acked_by x = None"
    using aloof by (auto simp: aloof_def)
  have grows: "current_term ?n \<le> current_term n"
    using terms.thread_step [OF step] by (simp add: term_grows_def)
  obtain d where drop: "inbox n = drop d (inbox ?n)"
    using taking.thread_step [OF step] by (auto simp: takes_messages_def)
  have "filter (ack_from v) vs = []"
    using vs(3) by (auto simp: filter_empty_conv)
  then have acks: "answers_under_way ld v ?t = answers_under_way ld v s"
    using v(2) vs(2) by (simp add: answers_under_way_def moved)
  have "subseq (filter is_offer (drop d (inbox ?n))) (filter is_offer (inbox ?n))"
    by (intro subseq_filter suffix_imp_subseq suffix_drop)
  then have offs: "subseq (offers_under_way ld v ?t) (offers_under_way ld v s)"
    using v(2) drop by (simp add: offers_under_way_def moved list_emb_append_mono)
  show ?thesis
    using serves v vs grows offs acks
    unfolding kept_by_def serves_at by (auto simp: moved intro: tracks_lose tracks_term)
qed

lemma answers_kept:
  assumes serves: "serves ids ld T (peer_at ids ld j s) [] (nodes s ld)" and v: "ids ! j = v" "v \<noteq> ld"
    and step: "thread_step (threads s v, nodes s v) = (c, n)" and answers: "answers (nodes s v) n"
    and logs: "list_all wf_entry (rlog (nodes s ld))" "rlog (nodes s v) \<noteq> []" and me: "my_id (nodes s v) = v"
  shows "kept_by ids ld T j s (thread_move v s)"
proof -
  note moved = thread_move_simps [OF step]
  let ?n = "nodes s v" and ?t = "thread_move v s" and ?l = "nodes s ld"
  obtain x q m u where a: "inbox ?n = x # q" "is_offer x" "parse_json_message x = Inr (Some m)"
      "follower_append_entries m (received q ?n) = (Inr (), u)"
      "rlog n = rlog u" "outbox n = outbox u" "inbox n = q" "current_term n = current_term u"
    using answers unfolding answers_def by blast
  have tr: "tracks T ld v (rlog ?l) (match_index ?l ! j) (next_index ?l ! j) (rlog ?n) (current_term ?n)
      (x # filter is_offer q @ filter (offer_for v) (wires s ld v @ outbox ?l)) (answers_under_way ld v s)"
    using serves v a(1,2) unfolding serves_at by (simp add: offers_under_way_def)
  from tracks_answers [OF tr logs a(1,3,4)] obtain g w where
    u: "outbox u = outbox ?n @ [jsonify (ack_message (PyStr ld) g w)]" "my_id w = my_id ?n"
      "tracks T ld v (rlog ?l) (match_index ?l ! j) (next_index ?l ! j) (rlog u) (current_term u) [] [jsonify (ack_message (PyStr ld) g w)]"
      "filter is_offer q @ filter (offer_for v) (wires s ld v @ outbox ?l) = []" "answers_under_way ld v s = []"
    by blast
  have "offers_under_way ld v ?t = []"
    using u(4) v(2) a(7) by (simp add: offers_under_way_def moved)
  moreover have "answers_under_way ld v ?t = [jsonify (ack_message (PyStr ld) g w)]"
    using u(1,2,5) v(2) a(6) me by (simp add: answers_under_way_def moved)
  ultimately show ?thesis
    using serves v u(1,3) a(5,6,8)
    unfolding kept_by_def serves_at by (simp add: moved del: jsonify.simps)
qed

lemma reign_follow:
  assumes ok: "reign_ok ids ld T s" and v: "v \<in> set ids" "v \<noteq> ld" and ld: "ld \<in> set ids"
    and peer: "\<not> leads (threads (thread_move v s) v) (nodes (thread_move v s) v)"
  shows "reign_ok ids ld T (thread_move v s)"
proof -
  let ?t = "thread_move v s"
  obtain c n where step: "thread_step (threads s v, nodes s v) = (c, n)"
    by force
  note moved = thread_move_simps [OF step]
  have sys: "sys_ok ids s" and signed: "signed ids ld s" and idle: "\<not> leads (threads s v) (nodes s v)"
    using ok v by (simp_all add: reign_ok_def)
  have sound: "thread_ok ids (threads s v, nodes s v)" "my_id (nodes s v) = v"
    and logs: "list_all wf_entry (rlog (nodes s ld))" "rlog (nodes s v) \<noteq> []"
    using sys_ok_node [OF sys v(1)] sys_ok_node [OF sys ld] by (auto simp: node_sound_def thread_ok_def node_ok_def)
  have sys': "sys_ok ids ?t"
    by (rule thread_move_ok [OF sys v(1)])
  have kept: "kept_by ids ld T j s ?t" if "j < length ids" "ids ! j = v" for j
    using member_step [OF sound(1) step idle] aloof_kept [OF _ _ v(2) step] answers_kept [OF _ _ v(2) step _ logs sound(2)]
      ok that v(2) unfolding reign_ok_def by blast
  have "serves ids ld T (peer_at ids ld j ?t) [] (nodes ?t ld)" if j: "j < length ids" "ids ! j \<noteq> ld" for j
  proof (cases "ids ! j = v")
    case True
    with kept j(1) show ?thesis
      by (simp add: kept_by_def)
  next
    case False
    then have "peer_at ids ld j ?t = peer_at ids ld j s" "nodes ?t ld = nodes s ld"
      using v(2) by (simp_all add: peer_at_def moved)
    with ok j show ?thesis
      by (simp add: reign_ok_def)
  qed
  moreover have "signed ids ld ?t"
    using kept v(1) by (intro signed_move [OF signed sys' sound(2) v(1)]) (auto simp: kept_by_def in_set_conv_nth)
  ultimately show ?thesis
    using ok sys' peer v(2) by (simp add: reign_ok_def moved)
qed

text \<open>The leader's step, and the beginning.\<close>

lemma reign_lead:
  assumes ok: "reign_ok ids ld T s" and ids: "distinct ids" "ld \<in> set ids" and time: "unhurried ids ld s"
    and goes: "threads (thread_move ld s) ld = InLeader m"
  shows "reign_ok ids ld T (thread_move ld s)"
proof -
  let ?t = "thread_move ld s" and ?l = "nodes s ld"
  obtain c n where step: "thread_step (threads s ld, ?l) = (c, n)"
    by force
  note moved = thread_move_simps [OF step]
  obtain mrh where c: "threads s ld = InLeader mrh"
    using ok by (auto simp: reign_ok_def)
  have sys: "sys_ok ids s" and signed: "signed ids ld s"
    using ok by (simp_all add: reign_ok_def)
  have sound: "thread_ok ids (InLeader mrh, ?l)" "my_id ?l = ld"
    using sys_ok_node [OF sys ids(2)] c by (simp_all add: node_sound_def)
  then have lead: "leading ids ?l"
    by (simp add: thread_ok_def)
  have sys': "sys_ok ids ?t"
    by (rule thread_move_ok [OF sys ids(2)])
  have "serves ids ld T (peer_at ids ld j ?t) [] (nodes ?t ld)" if j: "j < length ids" "ids ! j \<noteq> ld" for j
  proof -
    let ?p = "peer_at ids ld j s"
    have p: "is_peer ids ld ?p" and pos: "p_pos ?p = j"
      using ids(1) j by (simp_all add: is_peer_def peer_at_def)
    have "in_time ids (3 * length ids + 3) ?p ?l"
      using time j by (auto simp: unhurried_def in_time_def idle_def pos peer_at_def offers_under_way_def answers_under_way_def)
    then have iter: "wp (leader_iteration mrh) (goes_on_serving ids ld T ?p) (\<lambda>_ _. True) ?l"
      using ok j by (intro serves_iteration lead p) (simp add: reign_ok_def)
    have "wp (run_step (InLeader mrh)) (\<lambda>c' n'. (\<exists>m. c' = InLeader m) \<longrightarrow> serves ids ld T ?p [] n') (\<lambda>_ _. True) ?l"
      by (simp add: in_role_def after_iteration_def wp) (rule impI, rule wp_mono [OF iter], auto split: flow.splits)
    from thread_step_wp [OF sound(1) _ this] step c goes have "serves ids ld T ?p [] n"
      by (simp add: moved)
    moreover have "peer_at ids ld j ?t = ?p"
      using j by (simp add: peer_at_def moved)
    ultimately show ?thesis
      by (simp add: moved)
  qed
  moreover have "signed ids ld ?t"
    by (rule signed_move [OF signed sys' sound(2) ids(2)]) simp
  ultimately show ?thesis
    using ok sys' goes by (simp add: reign_ok_def moved)
qed

lemma reign_begin:
  assumes sys: "sys_ok ids s" and settled: "settled ids ld s" and ids: "distinct ids" "ld \<in> set ids"
    and goes: "threads (thread_move ld s) ld = InLeader m"
  shows "reign_ok ids ld (current_term (nodes s ld)) (thread_move ld s)"
proof -
  let ?t = "thread_move ld s" and ?l = "nodes s ld"
  obtain c n where step: "thread_step (threads s ld, ?l) = (c, n)"
    by force
  note moved = thread_move_simps [OF step]
  have c: "threads s ld = Dispatch"
    using settled by (simp add: settled_def)
  have sound: "thread_ok ids (Dispatch, ?l)" "my_id ?l = ld"
    using sys_ok_node [OF sys ids(2)] c by (simp_all add: node_sound_def)
  have sys': "sys_ok ids ?t"
    by (rule thread_move_ok [OF sys ids(2)])
  have none: "\<not> is_offer x" "acked_by x = None" if "x \<in> flight ids s" for x
    using settled that by (simp_all add: settled_def)
  have signed: "signed ids ld s"
    unfolding signed_def using none flightI [where s = s and ids = ids] by blast
  have "serves ids ld (current_term ?l) (peer_at ids ld j ?t) [] (nodes ?t ld)" if j: "j < length ids" "ids ! j \<noteq> ld" for j
  proof -
    let ?p = "peer_at ids ld j s" and ?v = "ids ! j"
    have v: "?v \<in> set ids"
      using j by simp
    have p: "is_peer ids ld ?p" and pos: "p_pos ?p = j"
      using ids(1) j by (simp_all add: is_peer_def peer_at_def)
    have "offers_under_way ld ?v s = []" "answers_under_way ld ?v s = []"
      using none flightI [where s = s and ids = ids] v ids(2)
      by (fastforce simp: offers_under_way_def answers_under_way_def filter_empty_conv offer_for_def)+
    then have "idle ids ?p ?l"
      by (auto simp: idle_def pos peer_at_def offers_under_way_def answers_under_way_def)
    moreover have "length (rlog (nodes s ?v)) \<le> length (rlog ?l)" "log_matching (rlog ?l) (rlog (nodes s ?v))"
        "agree (commit_index ?l) (rlog ?l) (rlog (nodes s ?v))" "floor_division (lib_old_div ?l)"
      using settled v j(2) by (auto simp: settled_def)
    ultimately have start: "wp leader_start (\<lambda>_ t. leading ids t \<and> serves ids ld (current_term ?l) ?p [] t) (\<lambda>_ _. False) ?l"
      using sound by (intro serves_start p) (simp_all add: thread_ok_def peer_at_def)
    have "wp (run_step Dispatch) (\<lambda>c' n'. (\<exists>m. c' = InLeader m) \<longrightarrow> serves ids ld (current_term ?l) ?p [] n') (\<lambda>_ _. True) ?l"
      using wp_mono [OF wp_trivial [of candidate_start ?l]]
      by (auto simp: run_dispatch_def wp intro: wp_mono [OF start])
    from thread_step_wp [OF sound(1) _ this] step c goes have "serves ids ld (current_term ?l) ?p [] n"
      by (simp add: moved)
    moreover have "peer_at ids ld j ?t = ?p"
      using j by (simp add: peer_at_def moved)
    ultimately show ?thesis
      by (simp add: moved)
  qed
  moreover have "signed ids ld ?t"
    by (rule signed_move [OF signed sys' sound(2) ids(2)]) simp
  ultimately show ?thesis
    using settled sys' goes by (simp add: reign_ok_def moved settled_def)
qed

lemma reign_keeps:
  assumes "reign tr ids ld s" and tr: "json_wire tr" and ids: "distinct ids" "ld \<in> set ids"
  shows "\<exists>T. reign_ok ids ld T s"
  using assms(1)
proof induction
  case (begin_reign s m)
  then show ?case
    using reign_begin [OF _ _ ids] by blast
next
  case (lead s m)
  then show ?case
    using reign_lead [OF _ ids] by blast
next
  case (follow s v)
  then show ?case
    using reign_follow [OF _ _ _ ids(2)] by blast
next
  case (env s t)
  then show ?case
    using reign_env [OF _ _ tr] by blast
qed

section \<open>Properties\<close>

text \<open>
  C4. What a leader commits is everywhere: in every state of a reign, whatever messages are
  lost and however the threads interleave, the entries of the leader up to its commit index
  are, in the same order, the first entries of the log of every other member, as long as
  the leader repeats no offer while the first or its answer is still under way.
\<close>

theorem committed_entries_are_everywhere:
  assumes "reign tr ids ld s" and "json_wire tr" and "distinct ids" and "ld \<in> set ids"
    and "v \<in> set ids" and "v \<noteq> ld"
  shows "commit_index (nodes s ld) < int (length (rlog (nodes s v)))
    \<and> take (nat (commit_index (nodes s ld) + 1)) (rlog (nodes s v))
      = take (nat (commit_index (nodes s ld) + 1)) (rlog (nodes s ld))"
proof -
  obtain T where ok: "reign_ok ids ld T s"
    using reign_keeps [OF assms(1-4)] by blast
  obtain j where j: "j < length ids" "ids ! j = v"
    using assms(5) by (auto simp: in_set_conv_nth)
  then have "agree (match_index (nodes s ld) ! j) (rlog (nodes s ld)) (rlog (nodes s v))"
    and "commit_index (nodes s ld) \<le> match_index (nodes s ld) ! j" and "0 \<le> commit_index (nodes s ld)"
    using ok assms(4,6) sys_ok_node [of ids s ld]
    by (auto simp: reign_ok_def serves_at tracks_def node_sound_def thread_ok_def node_ok_def)
  from agree_down [OF this(1,3,2)] show ?thesis
    by (simp add: agree_def)
qed

end
