(* ===== verification/Raft_First_Reign.thy ===== *)
theory Raft_First_Reign
  imports Raft_Reign
begin

text \<open>
  From the start of the group to its first leader: until a thread enters the leader's loop
  no log changes and nothing is said about the logs, so that the reign of the first leader
  needs no condition on the state it starts in.
\<close>

section \<open>Messages about the logs\<close>

definition about_log :: "pyval \<Rightarrow> bool" where
  "about_log x \<longleftrightarrow>
     is_offer x \<or> acked_by x \<noteq> None
     \<or> (case parse_json_message x of
          Inr (Some m) \<Rightarrow> py_eq_int (msg_direction m) MessageDirection_Request
            \<and> py_eq_int (msg_type m) MessageType_Committal
        | _ \<Rightarrow> False)"

lemma about_log_sent [simp]:
  "\<not> about_log (jsonify (heartbeat_message s))"
  "\<not> about_log (jsonify (vote_message c g s))"
  "\<not> about_log (jsonify (request_vote_message r s))"
  "\<not> about_log (jsonify (forward_message r e s))"
  by (simp_all add: about_log_def parse_sent) (simp_all add: message_defs message_type_defs)

definition dormant :: "raft_node \<Rightarrow> raft_node \<Rightarrow> bool" where
  "dormant s t \<longleftrightarrow>
     rlog t = rlog s \<and> commit_index t = commit_index s
     \<and> (\<exists>vs. outbox t = outbox s @ vs \<and> (\<forall>x \<in> set vs. \<not> about_log x))"

interpretation dormancy: frame dormant
proof
  fix s t u
  assume "dormant s t" and "dormant t u"
  then show "dormant s u"
    by (fastforce simp: dormant_def)
qed (simp add: dormant_def)

lemma dormant_small:
  "always dormant time_time" "always dormant get_message" "always dormant get_client_request" "always dormant check_role"
  "always dormant (increment_term tm)" "always dormant (set_current_role r)"
  "always dormant (send_vote c g)" "always dormant (send_request_vote c)" "always dormant (send_client_request c e)"
  "always dormant (modify (\<lambda>s. s\<lparr>leader_id := l\<rparr>))"
  by (auto simp: always_def wp dormant_def simp del: jsonify.simps)

lemma dormant_flow:
  "always dormant m \<Longrightarrow> (\<And>l. always dormant (f l)) \<Longrightarrow> always dormant (case fl of Return \<Rightarrow> m | Continue l \<Rightarrow> f l)"
  by (cases fl) simp_all

lemma candidate_dormant: "always dormant candidate_start" "always dormant (candidate_iteration el)"
  unfolding candidate_start_def candidate_iteration_def candidate_handle_def candidate_vote_def
    candidate_request_votes_def candidate_heartbeat_def
  by (intro dormancy.frame_intros dormant_small dormant_flow)+

text \<open>A follower leaves its log alone as long as nobody tells it about logs.\<close>

lemma follower_handle_dormant:
  assumes "parse_json_message x = Inr (Some m)" and "\<not> about_log x"
  shows "always dormant (follower_handle mrh m)"
proof -
  have "always dormant (follower_request_votes m)" "always dormant (follower_heartbeat m)"
    unfolding follower_request_votes_def follower_heartbeat_def vote_test_def
    by (intro dormancy.frame_intros dormant_small)+
  with assms show ?thesis
    by (auto simp: follower_handle_def about_log_def is_offer_def intro!: dormancy.frame_intros)
qed

lemma follower_iteration_dormant:
  assumes "\<forall>x \<in> set (inbox s). \<not> about_log x"
  shows "wp (follower_iteration mrh) (\<lambda>_. dormant s) (\<lambda>_ _. True) s"
proof -
  let ?K = "\<lambda>mrh'. bnd time_time (\<lambda>now. bnd (gets election_timeout) (\<lambda>et.
     if now - mrh' > et then seq (set_current_role Candidate) (ret Return) else ret (Continue mrh')))"
  have rest: "always dormant (bnd (case im of None \<Rightarrow> ret mrh | Some m \<Rightarrow> follower_handle mrh m) ?K)"
    if "\<And>m. im = Some m \<Longrightarrow> always dormant (follower_handle mrh m)" for im
    using that by (cases im) (auto intro!: dormancy.frame_intros dormant_small)
  show ?thesis
  proof (cases "inbox s")
    case Nil
    then show ?thesis
      using wp_mono [OF alwaysD [OF rest [of None]]]
      by (simp add: follower_iteration_def wp_bnd [of get_message] wp_get_message)
  next
    case (Cons x q)
    have "dormant s t" if "dormant (received q s) t" for t
      using that by (simp add: dormant_def)
    moreover have "always dormant (follower_handle mrh m)" if "parse_json_message x = Inr (Some m)" for m
      using follower_handle_dormant [OF that] assms Cons by simp
    ultimately show ?thesis
      using Cons wp_mono [OF alwaysD [OF rest]]
      by (auto simp: follower_iteration_def wp_bnd [of get_message] wp_get_message split: sum.splits)
  qed
qed

section \<open>Runs without a leader\<close>

inductive leaderless :: "(pyval \<Rightarrow> pyval) \<Rightarrow> address_book \<Rightarrow> system \<Rightarrow> bool" for tr ab where
  start: "started ab s \<Longrightarrow> leaderless tr ab s"
| thread: "leaderless tr ab s \<Longrightarrow> i \<in> set (member_addresses ab) \<Longrightarrow>
    (\<And>m. threads (thread_move i s) i \<noteq> InLeader m) \<Longrightarrow> leaderless tr ab (thread_move i s)"
| env: "leaderless tr ab s \<Longrightarrow> env_step tr (member_addresses ab) s t \<Longrightarrow> leaderless tr ab t"

lemma leaderless_reachable: "leaderless tr ab s \<Longrightarrow> reachable tr ab s"
  by (induction rule: leaderless.induct) (blast intro: reachable.intros sys_step.intros)+

definition initial_logs :: "string list \<Rightarrow> system \<Rightarrow> bool" where
  "initial_logs ids s \<longleftrightarrow>
     sys_ok ids s \<and> (\<forall>x \<in> flight ids s. \<not> about_log x)
     \<and> (\<forall>v \<in> set ids. rlog (nodes s v) = [init_entry] \<and> commit_index (nodes s v) = 0
          \<and> (\<forall>m. threads s v \<noteq> InLeader m))"

lemma member_dormant:
  assumes ok: "thread_ok ids (c, n)" and step: "thread_step (c, n) = (c', n')"
    and idle: "\<And>m. c \<noteq> InLeader m" "\<And>m. c' \<noteq> InLeader m" and quiet: "\<forall>x \<in> set (inbox n). \<not> about_log x"
  shows "dormant n n'"
proof -
  have "wp (run_step c) (\<lambda>c' t. (\<exists>m. c' = InLeader m) \<or> dormant n t) (\<lambda>_ _. True) n"
  proof (rule run_step_cases, goal_cases)
    case 1
    have "dormant n (n\<lparr>ticks := k\<rparr>)" for k
      by (simp add: dormant_def)
    then show ?case
      using alwaysD [OF candidate_dormant(1), of n] wp_trivial [of leader_start n] dormancy.frame_refl
      by (auto simp: run_dispatch_def wp elim!: wp_mono split: role.split)
  next
    case (2 mrh)
    show ?case by (rule wp_mono [OF follower_iteration_dormant [OF quiet]]) simp_all
  next
    case (3 el)
    show ?case by (rule wp_mono [OF alwaysD [OF candidate_dormant(2)]]) simp_all
  qed (use idle(1) in \<open>auto simp: dormancy.frame_refl\<close>)
  from thread_step_wp [OF ok step this] idle(2) show ?thesis
    by blast
qed

lemma constructed_logs:
  assumes "RaftNode_init files (ConfigDict ab) name r draw clk od = Inr n"
  shows "rlog n = [init_entry]" "commit_index n = 0"
  using assms by (auto simp: RaftNode_init_def Let_def split: option.splits)

lemma initial_logs_start:
  assumes "started ab s"
  shows "initial_logs (member_addresses ab) s"
proof -
  let ?ids = "member_addresses ab"
  have node: "threads s i = Dispatch \<and> outbox (nodes s i) = [] \<and> inbox (nodes s i) = []
      \<and> rlog (nodes s i) = [init_entry] \<and> commit_index (nodes s i) = 0" if "i \<in> set ?ids" for i
    using assms that constructed_logs constructed_fresh by (fastforce simp: started_def)
  moreover have "sys_ok ?ids s"
    using started_node_sound [OF assms] assms by (auto simp: sys_ok_def started_def)
  moreover have "flight ?ids s = {}"
    using node assms by (auto simp: flight_def started_def)
  ultimately show ?thesis
    by (simp add: initial_logs_def)
qed

lemma initial_logs_thread:
  assumes ok: "initial_logs ids s" and i: "i \<in> set ids" and idle: "\<And>m. threads (thread_move i s) i \<noteq> InLeader m"
  shows "initial_logs ids (thread_move i s)"
proof -
  obtain c n where step: "thread_step (threads s i, nodes s i) = (c, n)"
    by force
  note moved = thread_move_simps [OF step]
  have sys: "sys_ok ids s"
    using ok by (simp add: initial_logs_def)
  have "dormant (nodes s i) n"
  proof (rule member_dormant [OF _ step])
    show "thread_ok ids (threads s i, nodes s i)"
      using sys_ok_node [OF sys i] by (simp add: node_sound_def)
    show "\<forall>x \<in> set (inbox (nodes s i)). \<not> about_log x"
      using ok i by (auto simp: initial_logs_def intro: flightI)
  qed (use ok i idle in \<open>auto simp: initial_logs_def moved\<close>)
  then obtain vs where n: "rlog n = rlog (nodes s i)" "commit_index n = commit_index (nodes s i)"
      "outbox n = outbox (nodes s i) @ vs" "\<forall>x \<in> set vs. \<not> about_log x"
    by (auto simp: dormant_def)
  then show ?thesis
    using ok idle thread_move_ok [OF sys i] flight_step [OF i step n(3)]
    by (auto simp: initial_logs_def moved)
qed

lemma initial_logs_env:
  assumes ok: "initial_logs ids s" and step: "env_step tr ids s t" and tr: "json_wire tr"
  shows "initial_logs ids t"
proof -
  have sys: "sys_ok ids s"
    using ok by (simp add: initial_logs_def)
  from env_step_effect [OF step sys tr] env_step_ok [OF step sys tr] env_step_replica [OF step] ok show ?thesis
    by (auto simp: initial_logs_def env_effect_def same_replica_def)
qed

lemma leaderless_logs:
  assumes "leaderless tr ab s" and tr: "json_wire tr"
  shows "initial_logs (member_addresses ab) s"
  using assms(1)
  by induction (blast intro: initial_logs_start initial_logs_thread initial_logs_env [OF _ _ tr])+

section \<open>The first leader\<close>

lemma initial_logs_settled:
  assumes "initial_logs ids s" and "threads s ld = Dispatch" and "ld \<in> set ids" and "floor_division (lib_old_div (nodes s ld))"
    and "\<And>v. v \<in> set ids \<Longrightarrow> v \<noteq> ld \<Longrightarrow> \<not> leads (threads s v) (nodes s v)"
  shows "settled ids ld s"
  using assms by (auto simp: initial_logs_def settled_def about_log_def log_matching_def agree_def)

lemma enters_leader:
  "wp (run_step c) (\<lambda>c' _. \<forall>m. c' = InLeader m \<longrightarrow> c = Dispatch \<or> (\<exists>m. c = InLeader m)) (\<lambda>_ _. True) n"
  by (rule run_step_cases) (auto intro!: wp_mono [OF wp_trivial] split: flow.splits)

text \<open>
  When, in a run in which no thread has led before, a thread enters the leader's loop and no
  other node is about to, its reign begins there.
\<close>

lemma first_reign_begins:
  assumes "leaderless tr ab s" and "json_wire tr" and "ld \<in> set (member_addresses ab)"
    and "threads (thread_move ld s) ld = InLeader m" and "floor_division (lib_old_div (nodes s ld))"
    and "\<forall>v \<in> set (member_addresses ab). v \<noteq> ld \<longrightarrow> current_role (nodes s v) \<noteq> Leader"
  shows "reign tr (member_addresses ab) ld (thread_move ld s)"
proof -
  let ?ids = "member_addresses ab"
  have logs: "initial_logs ?ids s"
    by (rule leaderless_logs [OF assms(1,2)])
  then have sys: "sys_ok ?ids s" and no: "\<And>v m. v \<in> set ?ids \<Longrightarrow> threads s v \<noteq> InLeader m"
    by (simp_all add: initial_logs_def)
  obtain c n where step: "thread_step (threads s ld, nodes s ld) = (c, n)"
    by force
  have "thread_ok ?ids (threads s ld, nodes s ld)"
    using sys_ok_node [OF sys assms(3)] by (simp add: node_sound_def)
  from thread_step_wp [OF this step enters_leader] have "threads s ld = Dispatch"
    using assms(4) no [OF assms(3)] by (auto simp: thread_move_simps [OF step])
  then have "settled ?ids ld s"
    using assms(3,5,6) no by (intro initial_logs_settled [OF logs]) (auto simp: leads_def)
  then show ?thesis
    by (rule reign.begin_reign [OF sys _ assms(4)])
qed

end
