(* ===== verification/Raft_Stable_Run.thy ===== *)
theory Raft_Stable_Run
  imports Raft_First_Reign Raft_Scenarios
begin

text \<open>
  A reign of the three-member group, executed step by step: node 3 is elected, offers its
  first entry to the others, and commits it when both have answered.
\<close>

section \<open>Schedules of a reign\<close>

text \<open>With a clock that stands at one after its first reading, nobody is ever late.\<close>

definition calm :: "string list \<Rightarrow> string \<Rightarrow> system \<Rightarrow> bool" where
  "calm ids ld s \<longleftrightarrow>
     length ids = 3 \<and> clock (nodes s ld) = prompt \<and> heard_from (nodes s ld) = [1, 1, 1]
     \<and> resend_time (nodes s ld) = 2"

lemma calm_unhurried: "calm ids ld s \<Longrightarrow> unhurried ids ld s"
proof -
  have "prompt k \<le> 1" for k
    by (simp add: prompt_def)
  then have "prompt k \<le> 3" for k
    by (rule order_trans) simp
  then show "calm ids ld s \<Longrightarrow> unhurried ids ld s"
    by (auto simp: calm_def unhurried_def numeral_3_eq_3 less_Suc_eq)
qed

text \<open>Schedules every thread step of which passes a test, which is told whose step it is and where.\<close>

fun watched :: "(string \<Rightarrow> system \<Rightarrow> bool) \<Rightarrow> move list \<Rightarrow> system \<Rightarrow> system option" where
  "watched C [] s = Some s"
| "watched C (Thread i # ms) s = (if C i s then watched C ms (thread_move i s) else None)"
| "watched C (m # ms) s = watched C ms (play m s)"

lemma watched_other: "\<not> is_thread m \<Longrightarrow> watched C (m # ms) s = watched C ms (play m s)"
  by (cases m) simp_all

lemma watched_fold: "watched C ms s = Some t \<Longrightarrow> t = fold play ms s"
  by (induction C ms s rule: watched.induct) (auto split: if_splits)

lemma watched_keeps:
  assumes "watched C ms s = Some t" and "P s" and "list_all (move_ok ids) ms"
    and thread: "\<And>i s. i \<in> set ids \<Longrightarrow> P s \<Longrightarrow> C i s \<Longrightarrow> P (thread_move i s)"
    and env: "\<And>s t. P s \<Longrightarrow> env_step json_norm ids s t \<Longrightarrow> P t"
  shows "P t"
  using assms(1-3)
proof (induction ms arbitrary: s)
  case Nil
  then show ?case by simp
next
  case (Cons m ms)
  show ?case
  proof (cases "is_thread m")
    case True
    then obtain i where "m = Thread i"
      by (cases m) auto
    with Cons show ?thesis
      by (auto intro: thread split: if_splits)
  next
    case False
    then have "P (play m s)"
      using play_env [of ids m s] Cons.prems env by auto
    with Cons False show ?thesis
      by (auto simp: watched_other)
  qed
qed

text \<open>The leader takes its steps calmly and goes on leading; the others do not lead.\<close>

definition governs :: "string list \<Rightarrow> string \<Rightarrow> string \<Rightarrow> system \<Rightarrow> bool" where
  "governs ids ld i s \<longleftrightarrow>
     (if i = ld then calm ids ld s \<and> (\<exists>m. threads (thread_move ld s) ld = InLeader m)
      else \<not> leads (threads (thread_move i s) i) (nodes (thread_move i s) i))"

lemma watched_reign:
  assumes "watched (governs ids ld) ms s = Some t" and "reign json_norm ids ld s" and "list_all (move_ok ids) ms"
  shows "reign json_norm ids ld t"
  using assms
  by (rule watched_keeps) (auto simp: governs_def intro: reign.intros calm_unhurried split: if_splits)

definition first_round :: "move list" where
  "first_round =
     [Talk ''h:3'' [], Talk ''h:3'' [''h:1''], Talk ''h:3'' [''h:2''], Talk ''h:3'' [],
      Thread ''h:1'', Idle ''h:1'', Listen ''h:1'' ''h:3'', Thread ''h:1'',
      Talk ''h:1'' [], Talk ''h:1'' [], Talk ''h:1'' [''h:3''], Listen ''h:3'' ''h:1'',
      Listen ''h:2'' ''h:3'', Thread ''h:2'', Talk ''h:2'' [''h:3''], Listen ''h:3'' ''h:2'',
      Thread ''h:3'', Thread ''h:3'']"

definition in_office :: system where
  "in_office = fold play (butlast campaign) (scene patient patient prompt)"

lemma settled_in_office: "settled [''h:1'', ''h:2'', ''h:3''] ''h:3'' in_office"
  unfolding in_office_def campaign_def
  by (simp add: execute del: jsonify.simps replicate.simps cong: if_weak_cong)
     (simp add: settled_def flight_def floor_division_def leads_def log_matching_def agree_def)

definition committed_scene :: "system option \<Rightarrow> bool" where
  "committed_scene r =
     (case r of
        None \<Rightarrow> False
      | Some s \<Rightarrow> commit_index (nodes s ''h:3'') = 1 \<and> length (rlog (nodes s ''h:3'')) = 2)"

lemmas execute_leader =
  execute fun_cong [OF leader_iteration_def] fun_cong [OF leader_send_heartbeat_if_due_def]
  fun_cong [OF leader_round_def] fun_cong [OF leader_resend_node_def] fun_cong [OF leader_handle_def]
  fun_cong [OF leader_acknowledge_def] fun_cong [OF leader_acknowledge_pending_def]
  fun_cong [OF leader_send_next_def] fun_cong [OF leader_commit_rule_def]
  fun_cong [OF broadcast_commit_entries_def] fun_cong [OF broadcast_commit_node_def]
  fun_cong [OF commit_entry_def] fun_cong [OF send_committal_def] fun_cong [OF send_acknowledge_def]
  fun_cong [OF get_client_request_def] fun_cong [OF follower_append_entries_def]
  fun_cong [OF verify_entry_def] fun_cong [OF follower_heartbeat_def] fun_cong [OF leader_request_votes_def]
  fun_cong [OF send_client_request_def] entry_of_py_def py_subscript_def queue_get_nowait_def
  ack_next_index_def max_committable_index_def replicated_on_def

lemma run_in_office:
  "committed_scene (watched (governs [''h:1'', ''h:2'', ''h:3''] ''h:3'') first_round (thread_move ''h:3'' in_office))"
  unfolding in_office_def campaign_def first_round_def
  by (simp add: execute_leader governs_def calm_def leads_def del: jsonify.simps replicate.simps cong: if_weak_cong)
     (simp add: committed_scene_def)

lemma leads_in_office: "\<exists>m. threads (thread_move ''h:3'' in_office) ''h:3'' = InLeader m"
  unfolding in_office_def campaign_def
  by (simp add: execute del: jsonify.simps replicate.simps cong: if_weak_cong)

text \<open>Nobody leads before node 3 does, whose reign is the first.\<close>

definition no_leader :: "string \<Rightarrow> system \<Rightarrow> bool" where
  "no_leader i s \<longleftrightarrow> (case threads (thread_move i s) i of InLeader m \<Rightarrow> False | _ \<Rightarrow> True)"

lemma campaign_leaderless: "watched no_leader (butlast campaign) (scene patient patient prompt) \<noteq> None"
  unfolding campaign_def
  by (simp add: execute no_leader_def del: jsonify.simps replicate.simps cong: if_weak_cong)

lemma watched_leaderless:
  assumes "watched no_leader ms s = Some t" and "leaderless json_norm ab s" and "list_all (move_ok (member_addresses ab)) ms"
  shows "leaderless json_norm ab t"
  using assms
  by (rule watched_keeps) (auto simp: no_leader_def intro: leaderless.intros)

lemma in_office_leaderless: "leaderless json_norm trio in_office"
proof -
  obtain s where s: "watched no_leader (butlast campaign) (scene patient patient prompt) = Some s"
    using campaign_leaderless by blast
  have "leaderless json_norm trio s"
    by (rule watched_leaderless [OF s leaderless.start [OF started_scene]]) (simp add: campaign_def)
  with watched_fold [OF s] show ?thesis
    by (simp add: in_office_def)
qed

lemma reachable_in_office: "reachable json_norm trio in_office"
  unfolding in_office_def
  by (rule play_reachable [OF reachable.start [OF started_scene]]) (simp add: campaign_def)

theorem committed_entries_are_everywhere_witness:
  "\<exists>s. reign json_norm (member_addresses trio) ''h:3'' s \<and> commit_index (nodes s ''h:3'') = 1
     \<and> take 2 (rlog (nodes s ''h:1'')) = rlog (nodes s ''h:3'')"
proof -
  obtain m where m: "threads (thread_move ''h:3'' in_office) ''h:3'' = InLeader m"
    using leads_in_office by blast
  have "reign json_norm (member_addresses trio) ''h:3'' (thread_move ''h:3'' in_office)"
    using reign.begin_reign [OF reachable_ok [OF reachable_in_office json_wire_norm] _ m] settled_in_office by simp
  moreover obtain s where s: "watched (governs (member_addresses trio) ''h:3'') first_round (thread_move ''h:3'' in_office) = Some s"
    and scene: "commit_index (nodes s ''h:3'') = 1" "length (rlog (nodes s ''h:3'')) = 2"
    using run_in_office by (auto simp: committed_scene_def split: option.splits)
  ultimately have run: "reign json_norm (member_addresses trio) ''h:3'' s"
    using watched_reign [OF s] by (simp add: first_round_def)
  from committed_entries_are_everywhere [OF run json_wire_norm, of "''h:1''"] scene
  have "take 2 (rlog (nodes s ''h:1'')) = rlog (nodes s ''h:3'')"
    by simp
  with run scene show ?thesis
    by blast
qed

end
