(* ===== verification/Raft_Validity.thy ===== *)
theory Raft_Validity
  imports Raft_Reign
begin

text \<open>
  Validity of the consensus: nothing is ever in a log, and so nothing is ever committed,
  that is not one of the two entries the program makes itself or a value some client has
  asked for. No message, exception or interleaving makes up a value.
\<close>

section \<open>The values a node holds\<close>

text \<open>The value of the entry a message carries, if it carries one.\<close>

definition payload :: "message \<Rightarrow> pyval set" where
  "payload m =
     (case rbind (append_entries_attr ''entries'' m_entries m) entry_of_py of
        Inl _ \<Rightarrow> {}
      | Inr e \<Rightarrow> {e_value e})"

definition carried :: "pyval \<Rightarrow> pyval set" where
  "carried x = (case parse_json_message x of Inr (Some m) \<Rightarrow> payload m | _ \<Rightarrow> {})"

lemma carried_sent [simp]:
  "carried (jsonify (heartbeat_message s)) = {}"
  "carried (jsonify (vote_message c g s)) = {}"
  "carried (jsonify (request_vote_message r s)) = {}"
  "carried (jsonify (append_message i t e r s)) = {e_value e}"
  "carried (jsonify (committal_message r s)) = {}"
  "carried (jsonify (ack_message r g s)) = {}"
  "carried (jsonify (forward_message r e s)) = {e_value e}"
  by (simp_all add: carried_def parse_sent)
     (simp_all add: payload_def message_defs, simp_all add: entry_of_py_def py_subscript_def)

definition held :: "raft_node \<Rightarrow> pyval set" where
  "held n =
     e_value ` (set (rlog n) \<union> set (client_queue n) \<union> ran (log_hash n))
     \<union> \<Union> (carried ` (set (inbox n) \<union> set (outbox n)))"

lemma held_subset:
  "held n \<subseteq> V \<longleftrightarrow>
     e_value ` set (rlog n) \<subseteq> V \<and> e_value ` set (client_queue n) \<subseteq> V \<and> e_value ` ran (log_hash n) \<subseteq> V
     \<and> (\<forall>x \<in> set (inbox n) \<union> set (outbox n). carried x \<subseteq> V)"
  unfolding held_def by blast

text \<open>A computation keeps to \<open>V\<close> if it adds no value that is not in \<open>V\<close>.\<close>

abbreviation keeps_to :: "pyval set \<Rightarrow> raft_node \<Rightarrow> raft_node \<Rightarrow> bool" where
  "keeps_to V \<equiv> preserving (\<lambda>n. held n \<subseteq> V)"

lemma keeps_bnd_lift:
  "(\<And>a. r = Inr a \<Longrightarrow> always (keeps_to V) (f a)) \<Longrightarrow> always (keeps_to V) (bnd (lift_result r) f)"
  by (intro preserving_bnd) (auto simp: wp)

lemma keeps_get_message:
  assumes "always (keeps_to V) (f None)" and "\<And>m. payload m \<subseteq> V \<Longrightarrow> always (keeps_to V) (f (Some m))"
  shows "always (keeps_to V) (bnd get_message f)"
proof (rule preserving_bnd)
  fix s
  assume V: "held s \<subseteq> V"
  have "held (received q s) \<subseteq> V" and "carried x \<subseteq> V" if "inbox s = x # q" for x q
    using V that by (auto simp: held_def)
  with V assms show "wp get_message (\<lambda>a t. held t \<subseteq> V \<and> always (keeps_to V) (f a)) (\<lambda>_ t. held t \<subseteq> V) s"
    by (auto simp: wp_get_message carried_def split: option.splits)
qed

lemma keeps_get_client_request:
  assumes "always (keeps_to V) (f None)" and "\<And>e. e_value e \<in> V \<Longrightarrow> always (keeps_to V) (f (Some e))"
  shows "always (keeps_to V) (bnd get_client_request f)"
proof (rule preserving_bnd)
  fix s
  assume V: "held s \<subseteq> V"
  have "held (s\<lparr>client_queue := q\<rparr>) \<subseteq> V" and "e_value e \<in> V" if "client_queue s = e # q" for e q
    using V that by (auto simp: held_def)
  with V assms show "wp get_client_request (\<lambda>a t. held t \<subseteq> V \<and> always (keeps_to V) (f a)) (\<lambda>_ t. held t \<subseteq> V) s"
    by (auto simp: wp_get_client_request)
qed

section \<open>Every method keeps to what there is\<close>

lemma py_getitem_mem: "py_getitem xs i = Inr x \<Longrightarrow> x \<in> set xs"
  by (auto simp: py_getitem_def Let_def split: if_splits)

lemma py_take_subset: "set (py_take i xs) \<subseteq> set xs"
  by (auto simp: py_take_def dest: in_set_takeD)

lemma keeps_small:
  "always (keeps_to V) time_time" "always (keeps_to V) check_role"
  "always (keeps_to V) (increment_term tm)" "always (keeps_to V) (set_current_role r)"
  "always (keeps_to V) (commit_entry i j)" "always (keeps_to V) (get_node_index a)"
  "always (keeps_to V) (send_vote c g)" "always (keeps_to V) (send_request_vote c)"
  "always (keeps_to V) send_heartbeat" "always (keeps_to V) (send_committal i c)"
  "always (keeps_to V) (send_acknowledge c g)"
  "e_value e \<in> V \<Longrightarrow> always (keeps_to V) (send_append_entries i t e c)"
  "e_value e \<in> V \<Longrightarrow> always (keeps_to V) (send_client_request c e)"
  by (auto simp: always_def wp preserving_def held_def simp del: jsonify.simps)

lemma keeps_modify:
  "always (keeps_to V) (modify (\<lambda>s. s\<lparr>leader_id := l s\<rparr>))"
  "always (keeps_to V) (modify (\<lambda>s. s\<lparr>next_index := n s\<rparr>))"
  "always (keeps_to V) (modify (\<lambda>s. s\<lparr>match_index := m s\<rparr>))"
  "always (keeps_to V) (modify (\<lambda>s. s\<lparr>heard_from := h s\<rparr>))"
  "always (keeps_to V) (\<lambda>s. (Inr (), s\<lparr>heard_from := h s, ticks := k s\<rparr>))"
  by (simp_all add: always_def wp preserving_def held_def)

lemma keeps_append_entry:
  assumes "e_value e \<in> V"
  shows "always (keeps_to V) (append_entry e c p)"
proof -
  have "always (keeps_to V) (modify (\<lambda>s. s\<lparr>rlog := py_take i (rlog s)\<rparr>))" for i
    using py_take_subset by (fastforce simp: always_def wp preserving_def held_def)
  moreover have "always (keeps_to V) (modify (\<lambda>s. s\<lparr>rlog := rlog s @ [e]\<rparr>))"
    using assms by (auto simp: always_def wp preserving_def held_def)
  moreover have "always (keeps_to V) (modify (\<lambda>s. s\<lparr>log_hash := (log_hash s)(k \<mapsto> e)\<rparr>))" for k
    using assms by (auto simp: always_def wp preserving_def held_def ran_def split: if_splits)
  ultimately show ?thesis
    unfolding append_entry_def by (intro preserving.frame_intros keeps_small)
qed

lemma keeps_leader_send_next: "always (keeps_to V) (leader_send_next k r)"
proof (rule alwaysI)
  fix s
  have "keeps_to V s (sent (append_message i t e r s) s)" if "e \<in> set (rlog s)" for i t e
    using that by (auto simp: preserving_def held_def simp del: jsonify.simps)
  then show "wp (leader_send_next k r) (\<lambda>_. keeps_to V s) (\<lambda>_. keeps_to V s) s"
    by (auto simp: leader_send_next_def wp preserving.frame_refl dest: py_getitem_mem)
qed

lemma keeps_broadcast_append_entries: "e_value e \<in> V \<Longrightarrow> always (keeps_to V) (broadcast_append_entries e)"
  unfolding broadcast_append_entries_def broadcast_append_node_def update_own_indices_def
  by (intro preserving.frame_intros keeps_small keeps_modify keeps_append_entry)

lemma keeps_commit_rule: "always (keeps_to V) leader_commit_rule"
  unfolding leader_commit_rule_def broadcast_commit_entries_def broadcast_commit_node_def
  by (intro preserving.frame_intros keeps_small)

lemma keeps_acknowledge: "always (keeps_to V) (leader_acknowledge m)"
proof -
  have "always (keeps_to V) (leader_acknowledge_pending m i k)" for i k
    unfolding leader_acknowledge_pending_def
    by (intro preserving.frame_intros keeps_modify keeps_leader_send_next keeps_commit_rule)
  moreover have "always (keeps_to V) (case msg_sender m of PyStr a \<Rightarrow> get_node_index a | _ \<Rightarrow> raise ValueError)"
    by (cases "msg_sender m") (auto intro: keeps_small preserving.raise_frame)
  ultimately show ?thesis
    unfolding leader_acknowledge_def by (intro preserving.frame_intros keeps_small keeps_modify)
qed

lemma keeps_flow:
  "always (keeps_to V) m \<Longrightarrow> (\<And>l. always (keeps_to V) (f l)) \<Longrightarrow>
     always (keeps_to V) (case fl of Return \<Rightarrow> m | Continue l \<Rightarrow> f l)"
  by (cases fl) simp_all

lemma payload_entry:
  "payload m \<subseteq> V \<Longrightarrow> rbind (append_entries_attr ''entries'' m_entries m) entry_of_py = Inr e \<Longrightarrow> e_value e \<in> V"
  by (simp add: payload_def)

lemma keeps_leader_handle:
  assumes "payload m \<subseteq> V"
  shows "always (keeps_to V) (leader_handle m)"
  unfolding leader_handle_def leader_request_votes_def
  by (intro preserving.if_frame keeps_bnd_lift preserving.frame_intros keeps_small keeps_acknowledge
        keeps_broadcast_append_entries payload_entry [OF assms])

lemma keeps_leader_round: "always (keeps_to V) (leader_round mrh)"
proof -
  have next_request: "always (keeps_to V) (bnd get_client_request (\<lambda>cr.
      seq (case cr of None \<Rightarrow> ret () | Some e \<Rightarrow> broadcast_append_entries e) (ret (Continue mrh :: rat flow))))"
    by (rule keeps_get_client_request) (auto intro!: preserving.frame_intros keeps_broadcast_append_entries)
  let ?f = "\<lambda>im. bnd (case im of None \<Rightarrow> ret (Continue ()) | Some m \<Rightarrow> leader_handle m) (\<lambda>fl.
      case fl of Return \<Rightarrow> ret Return | Continue _ \<Rightarrow> bnd get_client_request (\<lambda>cr.
        seq (case cr of None \<Rightarrow> ret () | Some e \<Rightarrow> broadcast_append_entries e) (ret (Continue mrh))))"
  have "always (keeps_to V) (?f im)" if "\<And>m. im = Some m \<Longrightarrow> payload m \<subseteq> V" for im
    using that by (cases im) (auto intro!: preserving.frame_intros keeps_leader_handle keeps_flow next_request)
  then have "always (keeps_to V) (bnd get_message ?f)"
    by (intro keeps_get_message) blast+
  moreover have "always (keeps_to V) (leader_resend_node i)" for i
    unfolding leader_resend_node_def by (intro preserving.frame_intros keeps_small keeps_modify keeps_leader_send_next)
  ultimately show ?thesis
    unfolding leader_round_def
    by - (rule preserving.bnd_frame, auto intro: preserving.gets_frame preserving.seq_frame preserving.for_each_frame)
qed

lemma keeps_leader_iteration: "always (keeps_to V) (leader_iteration mrh)"
  unfolding leader_iteration_def leader_send_heartbeat_if_due_def
  by (intro preserving.frame_intros keeps_small keeps_leader_round)

lemma keeps_leader_start:
  assumes "PyStr ''Leader Entry'' \<in> V"
  shows "always (keeps_to V) leader_start"
proof -
  have first: "always (keeps_to V) (bnd (gets (\<lambda>s. \<lparr>e_term = current_term s, e_value = PyStr ''Leader Entry'', e_id = PyInt (- 1)\<rparr>)) (\<lambda>e.
      seq (broadcast_append_entries e) (ret (r :: rat))))" for r
    using assms by (intro preserving_bnd)
      (auto simp: wp intro!: preserving.frame_intros keeps_broadcast_append_entries)
  show ?thesis
    unfolding leader_start_def leader_take_over_def
    by (intro first preserving.frame_intros keeps_small keeps_modify)
qed

lemma keeps_follower_handle:
  assumes "payload m \<subseteq> V"
  shows "always (keeps_to V) (follower_handle mrh m)"
proof -
  have forward: "always (keeps_to V) (bnd get_client_request (\<lambda>cr.
      case cr of None \<Rightarrow> ret () | Some e \<Rightarrow> send_client_request l e))" for l
    by (rule keeps_get_client_request) (auto intro!: preserving.frame_intros keeps_small)
  have "always (keeps_to V) (follower_heartbeat m)"
    unfolding follower_heartbeat_def by (intro forward preserving.frame_intros keeps_small keeps_modify)
  moreover have "always (keeps_to V) (follower_append_entries m)"
    unfolding follower_append_entries_def verify_entry_def
    by (intro preserving.if_frame keeps_bnd_lift preserving.frame_intros keeps_small
        keeps_append_entry payload_entry [OF assms])
  moreover have "always (keeps_to V) (follower_request_votes m)" "always (keeps_to V) (follower_committal m)"
    unfolding follower_request_votes_def follower_committal_def vote_test_def
    by (intro preserving.frame_intros keeps_small)+
  ultimately show ?thesis
    unfolding follower_handle_def by (intro preserving.frame_intros)
qed

lemma keeps_follower_iteration: "always (keeps_to V) (follower_iteration mrh)"
  unfolding follower_iteration_def
  by (rule keeps_get_message) (auto intro!: preserving.frame_intros keeps_small keeps_follower_handle)

lemma keeps_candidate: "always (keeps_to V) candidate_start" "always (keeps_to V) (candidate_iteration el)"
proof -
  show "always (keeps_to V) candidate_start"
    unfolding candidate_start_def by (intro preserving.frame_intros keeps_small)
  have "always (keeps_to V) (candidate_handle el m)" for m
    unfolding candidate_handle_def candidate_vote_def candidate_request_votes_def candidate_heartbeat_def
    by (intro preserving.frame_intros keeps_small keeps_modify)
  then show "always (keeps_to V) (candidate_iteration el)"
    unfolding candidate_iteration_def
    by (intro keeps_get_message) (auto intro!: preserving.frame_intros keeps_small keeps_flow)
qed

lemma keeps_run_step:
  assumes "PyStr ''Leader Entry'' \<in> V"
  shows "always (keeps_to V) (run_step c)"
proof -
  have "always (keeps_to V) run_dispatch"
    unfolding run_dispatch_def
  proof (intro preserving.bnd_frame preserving.if_frame)
    fix r
    show "always (keeps_to V) (case r of Leader \<Rightarrow> bnd leader_start (\<lambda>mrh. ret (InLeader mrh))
        | Follower \<Rightarrow> bnd time_time (\<lambda>now. ret (InFollower now))
        | Candidate \<Rightarrow> bnd candidate_start (\<lambda>el. ret (InCandidate el)) | Paused \<Rightarrow> ret Dispatch)"
      by (cases r) (auto intro!: preserving.frame_intros keeps_small keeps_candidate keeps_leader_start assms)
  qed (intro preserving.frame_intros keeps_small)+
  then show ?thesis
    by (cases c) (auto simp: in_role_def after_iteration_def intro!: preserving.frame_intros keeps_follower_iteration
        keeps_candidate keeps_leader_iteration)
qed

lemma held_thread_step:
  assumes "thread_step (c, n) = (c', n')"
  shows "held n' \<subseteq> insert (PyStr ''Leader Entry'') (held n)"
proof -
  let ?V = "insert (PyStr ''Leader Entry'') (held n)"
  obtain r where "run_step c n = (r, n')"
    using assms by (auto simp: thread_step_def split: prod.splits sum.splits)
  from always_run [OF keeps_run_step [of ?V] this] show ?thesis
    by (auto simp: preserving_def)
qed

section \<open>The group\<close>

definition circulating :: "string list \<Rightarrow> system \<Rightarrow> pyval set" where
  "circulating ids s =
     (\<Union>i \<in> set ids. held (nodes s i) \<union> (\<Union>j \<in> set ids. \<Union> (carried ` set (wires s i j))))"

lemma circulating_node: "i \<in> set ids \<Longrightarrow> held (nodes s i) \<subseteq> circulating ids s"
  by (auto simp: circulating_def)

lemma circulating_wire: "i \<in> set ids \<Longrightarrow> j \<in> set ids \<Longrightarrow> x \<in> set (wires s i j) \<Longrightarrow> carried x \<subseteq> circulating ids s"
  by (auto simp: circulating_def)

lemma circulatingI:
  assumes "\<And>i. i \<in> set ids \<Longrightarrow> held (nodes s i) \<subseteq> V"
    and "\<And>i j x. i \<in> set ids \<Longrightarrow> j \<in> set ids \<Longrightarrow> x \<in> set (wires s i j) \<Longrightarrow> carried x \<subseteq> V"
  shows "circulating ids s \<subseteq> V"
  using assms unfolding circulating_def by blast

lemma circulating_thread:
  assumes i: "i \<in> set ids"
  shows "circulating ids (thread_move i s) \<subseteq> insert (PyStr ''Leader Entry'') (circulating ids s)"
proof -
  obtain c n where step: "thread_step (threads s i, nodes s i) = (c, n)"
    by force
  note moved = thread_move_simps [OF step]
  show ?thesis
  proof (rule circulatingI)
    show "held (nodes (thread_move i s) j) \<subseteq> insert (PyStr ''Leader Entry'') (circulating ids s)" if "j \<in> set ids" for j
      using held_thread_step [OF step] circulating_node [OF that, of s] by (auto simp: moved)
    show "carried x \<subseteq> insert (PyStr ''Leader Entry'') (circulating ids s)"
      if "j \<in> set ids" "k \<in> set ids" "x \<in> set (wires (thread_move i s) j k)" for j k x
      using circulating_wire [of j ids k x s] that by (auto simp: moved)
  qed
qed

text \<open>The processes and clients leave the log alone; only a request adds to the queue.\<close>

lemma env_step_logs:
  "env_step tr ids s t \<Longrightarrow> rlog (nodes t v) = rlog (nodes s v) \<and> log_hash (nodes t v) = log_hash (nodes s v)"
  by (induction rule: env_step.induct)
     (auto simp: set_node_def client_request_def pause_def un_pause_def set_current_role_def
        check_role_def RaftNode_stop_def py_run)

lemma circulating_env:
  assumes step: "env_step tr ids s t" and ok: "sys_ok ids s" and tr: "json_wire tr"
    and queues: "\<And>v. v \<in> set ids \<Longrightarrow> e_value ` set (client_queue (nodes t v)) \<subseteq> V" and V: "circulating ids s \<subseteq> V"
  shows "circulating ids t \<subseteq> V"
proof (rule circulatingI)
  have boxes: "carried x \<subseteq> V" if "v \<in> set ids" "x \<in> set (inbox (nodes s v)) \<union> set (outbox (nodes s v))" for v x
    using circulating_node [OF that(1), of s] that(2) V unfolding held_def by blast
  have wires: "carried x \<subseteq> V" if "v \<in> set ids" "w \<in> set ids" "x \<in> set (wires s v w)" for v w x
    using circulating_wire [OF that] V by blast
  have now: "(\<forall>v \<in> set ids. \<forall>x \<in> set (inbox (nodes t v)) \<union> set (outbox (nodes t v)). carried x \<subseteq> V)
      \<and> (\<forall>v \<in> set ids. \<forall>w \<in> set ids. \<forall>x \<in> set (wires t v w). carried x \<subseteq> V)"
    using step ok tr
  proof (cases rule: env_boxes)
    case (talk i m rest D)
    have "carried m \<subseteq> V"
      using talk(1,2) by (intro boxes) auto
    with talk show ?thesis
      by (auto simp: boxes wires split: if_splits del: subsetI)
  next
    case (listen i j m q got)
    have "carried m \<subseteq> V"
      using listen(1-3) by (intro wires [of j i]) auto
    with listen show ?thesis
      by (auto simp: boxes wires split: if_splits del: subsetI)
  next
    case quiet
    with boxes wires show ?thesis
      by auto
  qed
  show "held (nodes t v) \<subseteq> V" if "v \<in> set ids" for v
    using now that queues [OF that] circulating_node [OF that, of s] V env_step_logs [OF step, of v]
    by (auto simp: held_subset image_subset_iff del: subsetI)
  show "carried x \<subseteq> V" if "v \<in> set ids" "w \<in> set ids" "x \<in> set (wires t v w)" for v w x
    using now that by blast
qed

section \<open>Runs and their requests\<close>

text \<open>The runs in which every client asks for values of \<open>R\<close> only.\<close>

inductive asked :: "(pyval \<Rightarrow> pyval) \<Rightarrow> address_book \<Rightarrow> pyval set \<Rightarrow> system \<Rightarrow> bool" for tr ab R where
  start: "started ab s \<Longrightarrow> asked tr ab R s"
| thread: "asked tr ab R s \<Longrightarrow> i \<in> set (member_addresses ab) \<Longrightarrow> asked tr ab R (thread_move i s)"
| request: "asked tr ab R s \<Longrightarrow> i \<in> set (member_addresses ab) \<Longrightarrow> plain_request x k \<Longrightarrow> x \<in> R \<Longrightarrow>
    asked tr ab R (set_node i (snd (client_request x k (nodes s i))) s)"
| env: "asked tr ab R s \<Longrightarrow> env_step tr (member_addresses ab) s t \<Longrightarrow>
    (\<And>v. client_queue (nodes t v) = client_queue (nodes s v)) \<Longrightarrow> asked tr ab R t"

lemma asked_reachable: "asked tr ab R s \<Longrightarrow> reachable tr ab s"
  by (induction rule: asked.induct) (blast intro: reachable.intros sys_step.intros env_step.intros)+

text \<open>Every run is one of them.\<close>

lemma env_step_queues:
  assumes "env_step tr ids s t"
  obtains (same) "\<And>v. client_queue (nodes t v) = client_queue (nodes s v)"
    | (request) i x k where "i \<in> set ids" "plain_request x k" "t = set_node i (snd (client_request x k (nodes s i))) s"
  using assms
  by cases (auto simp: set_node_def pause_def un_pause_def set_current_role_def check_role_def RaftNode_stop_def py_run)

lemma reachable_asked: "reachable tr ab s \<Longrightarrow> asked tr ab UNIV s"
proof (induction rule: reachable.induct)
  case (step s t)
  from step(2) show ?case
  proof cases
    case (env)
    then show ?thesis
    proof (cases rule: env_step_queues)
      case same
      with step.IH env show ?thesis
        by (blast intro: asked.env)
    next
      case request
      with step.IH show ?thesis
        by (blast intro: asked.request)
    qed
  qed (use step.IH in \<open>blast intro: asked.intros\<close>)
qed (blast intro: asked.intros)

definition own_values :: "pyval set" where
  "own_values = {PyStr ''Init Entry'', PyStr ''Leader Entry''}"

lemma constructed_held:
  assumes "RaftNode_init files (ConfigDict ab) name r draw clk od = Inr n"
  shows "held n \<subseteq> own_values"
  using assms by (auto simp: RaftNode_init_def Let_def held_subset own_values_def init_entry_def
      Talker_init_def Listener_init_def split: option.splits)

lemma asked_circulating:
  assumes "asked tr ab R s" and tr: "json_wire tr"
  shows "circulating (member_addresses ab) s \<subseteq> own_values \<union> R"
  using assms(1)
proof induction
  case (start s)
  have "held (nodes s i) \<subseteq> own_values" if "i \<in> set (member_addresses ab)" for i
    using start that constructed_held by (fastforce simp: started_def)
  with start show ?case
    by (intro circulatingI) (auto simp: started_def)
next
  case (thread s i)
  then show ?case
    using circulating_thread [of i "member_addresses ab" s] by (auto simp: own_values_def)
next
  case (request s i x k)
  let ?t = "set_node i (snd (client_request x k (nodes s i))) s"
  have sys: "sys_ok (member_addresses ab) s"
    by (rule reachable_ok [OF asked_reachable [OF request(1)] tr])
  have "e_value ` set (client_queue (nodes ?t v)) \<subseteq> own_values \<union> R" if "v \<in> set (member_addresses ab)" for v
    using circulating_node [OF that, of s] request(4,5)
    by (auto simp: set_node_def client_request_def queue_put_def py_run held_subset)
  moreover have "env_step tr (member_addresses ab) s ?t"
    using request(2,3) by (rule env_step.request)
  ultimately show ?case
    using circulating_env [OF _ sys tr] request(5) by blast
next
  case (env s t)
  have sys: "sys_ok (member_addresses ab) s"
    by (rule reachable_ok [OF asked_reachable [OF env(1)] tr])
  have "e_value ` set (client_queue (nodes t v)) \<subseteq> own_values \<union> R" if "v \<in> set (member_addresses ab)" for v
    using circulating_node [OF that, of s] env(3,4) by (auto simp: held_subset)
  then show ?case
    by (rule circulating_env [OF env(2) sys tr _ env(4)])
qed

lemma asked_committed:
  assumes "asked tr ab R s" and "json_wire tr" and "i \<in> set (member_addresses ab)"
    and "check_committed_entry PyNone (nodes s i) = (Inr v, n)"
  shows "v \<in> own_values \<union> R"
proof -
  have "v \<in> e_value ` set (rlog (nodes s i))"
    using assms(4) py_getitem_mem [of "rlog (nodes s i)" "commit_index (nodes s i)"]
    by (auto simp: check_committed_entry_def py_run split: sum.splits)
  then show ?thesis
    using asked_circulating [OF assms(1,2)] circulating_node [OF assms(3), of s] by (auto simp: held_subset)
qed

section \<open>Properties\<close>

text \<open>
  C7. Validity: in every state the group can reach, whatever is lost, delayed or
  interleaved, the value of every entry in the log of a member, in its table of entries by id
  and in its queue of requests, and of every entry in a message of its outbox, of its inbox
  or on a connection between two members, is that of the initial entry, that of a leader's
  first entry or one that a client asked for; and so is whatever
  \<open>check_committed_entry()\<close> returns.
\<close>

theorem logged_values_were_requested:
  assumes "asked tr ab R s" and "json_wire tr" and "i \<in> set (member_addresses ab)" and "j \<in> set (member_addresses ab)"
  shows "e_value ` (set (rlog (nodes s i)) \<union> ran (log_hash (nodes s i)) \<union> set (client_queue (nodes s i)))
      \<union> \<Union> (carried ` (set (inbox (nodes s i)) \<union> set (outbox (nodes s i)) \<union> set (wires s i j)))
      \<subseteq> {PyStr ''Init Entry'', PyStr ''Leader Entry''} \<union> R
    \<and> (\<forall>v n. check_committed_entry PyNone (nodes s i) = (Inr v, n) \<longrightarrow>
         v \<in> {PyStr ''Init Entry'', PyStr ''Leader Entry''} \<union> R)"
proof -
  have "held (nodes s i) \<subseteq> own_values \<union> R" and "\<Union> (carried ` set (wires s i j)) \<subseteq> own_values \<union> R"
    using asked_circulating [OF assms(1,2)] circulating_node [OF assms(3), of s] circulating_wire [OF assms(3,4), of _ s]
    by blast+
  then have "e_value ` (set (rlog (nodes s i)) \<union> ran (log_hash (nodes s i)) \<union> set (client_queue (nodes s i)))
      \<union> \<Union> (carried ` (set (inbox (nodes s i)) \<union> set (outbox (nodes s i)) \<union> set (wires s i j))) \<subseteq> own_values \<union> R"
    unfolding held_def by blast
  with asked_committed [OF assms(1-3)] show ?thesis
    unfolding own_values_def by blast
qed

end
