(* ===== verification/Raft_Requests.thy ===== *)
theory Raft_Requests
  imports Raft_Validity Raft_Scenarios
begin

text \<open>Schedules as runs whose requests are known.\<close>

definition wishes :: "move list \<Rightarrow> pyval set" where
  "wishes ms = {x. \<exists>i k. Ask i x k \<in> set ms}"

lemma play_queues:
  "\<not> is_thread m \<Longrightarrow> wishes [m] = {} \<Longrightarrow> client_queue (nodes (play m s) v) = client_queue (nodes s v)"
  by (cases m) (auto simp: wishes_def set_node_def split: prod.split list.split)

lemma asked_quietly:
  assumes "asked json_norm ab R s" and "move_ok (member_addresses ab) m" and "\<not> is_thread m" and "wishes [m] = {}"
  shows "asked json_norm ab R (play m s)"
  using play_env [OF assms(2,3), of s] assms(1) play_queues [OF assms(3,4), of s] by (auto intro: asked.env)

lemma play_asked_step:
  assumes "asked json_norm ab R s" and "move_ok (member_addresses ab) m" and "wishes [m] \<subseteq> R"
  shows "asked json_norm ab R (play m s)"
proof (cases m)
  case (Ask i x k)
  with assms show ?thesis
    by (auto simp: wishes_def intro: asked.request)
next
  case (Thread i)
  with assms show ?thesis
    by (auto intro: asked.thread)
qed (use asked_quietly [OF assms(1,2)] in \<open>simp_all add: wishes_def\<close>)

lemma play_asked:
  assumes "asked json_norm ab R s" and "list_all (move_ok (member_addresses ab)) ms" and "wishes ms \<subseteq> R"
  shows "asked json_norm ab R (fold play ms s)"
  using assms
proof (induction ms arbitrary: s)
  case (Cons m ms)
  then have "wishes [m] \<subseteq> R" and "wishes ms \<subseteq> R"
    by (auto simp: wishes_def)
  with Cons play_asked_step [of ab R s m] show ?case
    by simp
qed simp

text \<open>The moves of a schedule that are moves of the group, with requests from \<open>R\<close>.\<close>

definition allowed :: "address_book \<Rightarrow> pyval set \<Rightarrow> move \<Rightarrow> bool" where
  "allowed ab R m \<longleftrightarrow> move_ok (member_addresses ab) m \<and> (case m of Ask i x k \<Rightarrow> x \<in> R | _ \<Rightarrow> True)"

lemma play_allowed: "asked json_norm ab R s \<Longrightarrow> asked json_norm ab R (fold play (filter (allowed ab R) ms) s)"
  by (erule play_asked) (auto simp: allowed_def wishes_def list_all_iff)

end
