(* ===== verification/Raft_Lost_Commit.thy ===== *)
theory Raft_Lost_Commit
  imports Raft_Stable_Run Raft_Requests
begin

text \<open>
  A run of the three-member group in which the leader repeats an offer while the first is
  alive: a client's value is committed, and lost with the next leader.
\<close>

section \<open>An offer repeated too early\<close>

text \<open>Clocks: node 3 lets three seconds pass after it has made its first offers.\<close>

definition dawdling :: "nat \<Rightarrow> rat" where
  "dawdling k = (if k < 1 then 0 else if k < 14 then 1 else 4)"

definition lagging :: "nat \<Rightarrow> rat" where
  "lagging k = (if k < 7 then 0 else 1)"

text \<open>
  Node 3 is elected, a client asks for \<open>x\<close>, and the offers of the first entry are repeated.
  Node 1 receives that entry twice and answers twice; the second answer is taken for the
  entry \<open>x\<close>, which never reaches node 1 but is committed when node 2 has it as well.
\<close>

definition twice_offered :: "move list" where
  "twice_offered = butlast campaign @
     [Thread ''h:3'', Ask ''h:3'' (PyStr ''x'') (PyInt 7), Thread ''h:3'',
      Talk ''h:3'' [''h:1''], Talk ''h:3'' [''h:1''], Talk ''h:3'' [''h:2''], Talk ''h:3'' [],
      Talk ''h:3'' [], Talk ''h:3'' [''h:1''], Talk ''h:3'' [], Talk ''h:3'' [],
      Thread ''h:1'', Idle ''h:1'', Listen ''h:1'' ''h:3'', Listen ''h:1'' ''h:3'', Listen ''h:1'' ''h:3'',
      Thread ''h:1'', Thread ''h:1'', Thread ''h:1'',
      Talk ''h:1'' [], Talk ''h:1'' [], Talk ''h:1'' [''h:3''], Talk ''h:1'' [''h:3''],
      Listen ''h:3'' ''h:1'', Listen ''h:3'' ''h:1'',
      Listen ''h:2'' ''h:3'', Thread ''h:2'', Talk ''h:2'' [''h:3''], Listen ''h:3'' ''h:2'',
      Thread ''h:3'', Thread ''h:3'', Thread ''h:3'',
      Talk ''h:3'' [], Talk ''h:3'' [''h:2''], Talk ''h:3'' [], Talk ''h:3'' [], Talk ''h:3'' [],
      Listen ''h:2'' ''h:3'', Thread ''h:2'', Talk ''h:2'' [''h:3''], Listen ''h:3'' ''h:2'', Thread ''h:3'']"

text \<open>
  Node 1 then times out, is elected with the vote of node 3, and offers its own first entry,
  which node 3 takes in the place of \<open>x\<close>.
\<close>

definition overthrow :: "move list" where
  "overthrow =
     [Thread ''h:1'', Thread ''h:1'', Talk ''h:1'' [''h:3''], Talk ''h:1'' [''h:1''],
      Listen ''h:3'' ''h:1'', Thread ''h:3'', Talk ''h:3'' [], Talk ''h:3'' [], Talk ''h:3'' [], Talk ''h:3'' [''h:1''],
      Listen ''h:1'' ''h:1'', Listen ''h:1'' ''h:3'', Thread ''h:1'', Thread ''h:1'', Thread ''h:1'',
      Talk ''h:1'' [], Talk ''h:1'' [], Talk ''h:1'' [], Talk ''h:1'' [''h:3''],
      Listen ''h:3'' ''h:1'', Thread ''h:3'', Thread ''h:3'']"

definition committed_at :: "string \<Rightarrow> int \<Rightarrow> pyval \<Rightarrow> system \<Rightarrow> bool" where
  "committed_at i k x s \<longleftrightarrow>
     commit_index (nodes s i) = k \<and> fst (check_committed_entry PyNone (nodes s i)) = Inr x"

definition before_and_after :: "(system \<Rightarrow> bool) \<Rightarrow> move list \<Rightarrow> (system \<Rightarrow> bool) \<Rightarrow> system \<Rightarrow> bool" where
  "before_and_after P ms Q s \<longleftrightarrow> P s \<and> Q (fold play ms s)"

lemma overwritten_run:
  "before_and_after (committed_at ''h:3'' 2 (PyStr ''x'')) overthrow (committed_at ''h:3'' 2 (PyStr ''Leader Entry''))
     (fold play twice_offered (scene lagging patient dawdling))"
  unfolding twice_offered_def campaign_def overthrow_def
  by (simp add: execute_leader dawdling_def lagging_def client_request_def before_and_after_def del: jsonify.simps replicate.simps cong: if_weak_cong)
    (simp add: committed_at_def check_committed_entry_def monad_apply py_getitem_def py_norm_index_def)

lemma twice_offered_reachable:
  "reachable json_norm trio (fold play twice_offered (scene lagging patient dawdling))"
  by (rule play_reachable [OF reachable.start [OF started_scene]]) (simp add: twice_offered_def campaign_def plain_request_def)

lemma overthrow_steps:
  "(sys_step json_norm [''h:1'', ''h:2'', ''h:3''])\<^sup>*\<^sup>* s (fold play overthrow s)"
  by (rule play_steps) (simp add: overthrow_def)

text \<open>
  C8. The code's replication does not keep a committed entry. In a group of three a state can
  be reached in which the last committed entry of node 3, at index 2, is a client's entry
  \<open>x\<close>, and the program can go on from there to a state in which it is another entry, the
  first one of the next leader. An acknowledgement carries no index (the leader credits it
  to the next index it holds for the node), so that the answers of node 1 to an offer and to
  its repetition count as two entries, and \<open>x\<close> is committed with node 1 not having it.
\<close>

theorem committed_entry_is_overwritten:
  "\<exists>s t. reachable json_norm trio s \<and> (sys_step json_norm (member_addresses trio))\<^sup>*\<^sup>* s t
     \<and> committed_at ''h:3'' 2 (PyStr ''x'') s \<and> committed_at ''h:3'' 2 (PyStr ''Leader Entry'') t"
  using twice_offered_reachable overthrow_steps overwritten_run
  by (auto simp: before_and_after_def)

section \<open>A value that was asked for\<close>

theorem logged_values_were_requested_witness:
  "\<exists>s. asked json_norm trio {PyStr ''x''} s \<and> committed_at ''h:3'' 2 (PyStr ''x'') s
     \<and> e_value ` set (rlog (nodes s ''h:1'')) \<subseteq> {PyStr ''Init Entry'', PyStr ''Leader Entry'', PyStr ''x''}"
proof -
  let ?s = "fold play twice_offered (scene lagging patient dawdling)"
  have run: "asked json_norm trio {PyStr ''x''} ?s"
    by (rule play_asked [OF asked.start [OF started_scene]])
       (auto simp: twice_offered_def campaign_def plain_request_def wishes_def)
  from logged_values_were_requested [OF this json_wire_norm, of "''h:1''" "''h:3''"] run overwritten_run show ?thesis
    by (intro exI [of _ ?s]) (auto simp: before_and_after_def)
qed

end
