(* ===== verification/Raft_Early_Commit.thy ===== *)
theory Raft_Early_Commit
  imports Raft_Lost_Commit
begin

text \<open>
  A run of the three-member group in which nobody hurries and only messages are lost: a
  follower commits an entry that its leader has not committed, and loses it.
\<close>

section \<open>What a follower commits\<close>

text \<open>
  Node 3 is elected and offers its first entry to the others. Node 1 answers and is offered
  \<open>x\<close>, which it has before node 2 has the first entry. When node 2 answers, the first entry
  is committed; the message that says so does not reach node 1, but the next offer tells it
  that the leader's commit index is higher than its own, and it commits the entry before the
  offered one, which is \<open>x\<close>.
\<close>

definition office :: system where
  "office = fold play (butlast campaign) (scene patient lagging prompt)"

definition ahead :: "move list" where
  "ahead =
     [Talk ''h:3'' [], Talk ''h:3'' [''h:1''], Talk ''h:3'' [''h:2''], Talk ''h:3'' [],
      Thread ''h:1'', Idle ''h:1'', Listen ''h:1'' ''h:3'', Thread ''h:1'',
      Talk ''h:1'' [], Talk ''h:1'' [], Talk ''h:1'' [''h:3''], Listen ''h:3'' ''h:1'',
      Ask ''h:3'' (PyStr ''x'') (PyInt 7), Thread ''h:3'', Talk ''h:3'' [''h:1''], Talk ''h:3'' [],
      Listen ''h:1'' ''h:3'', Thread ''h:1'', Talk ''h:1'' [''h:3''], Listen ''h:3'' ''h:1'',
      Listen ''h:2'' ''h:3'', Thread ''h:2'', Talk ''h:2'' [''h:3''], Listen ''h:3'' ''h:2'',
      Thread ''h:3'', Ask ''h:3'' (PyStr ''y'') (PyInt 8), Thread ''h:3'',
      Talk ''h:3'' [], Talk ''h:3'' [], Talk ''h:3'' [''h:2''], Talk ''h:3'' [], Talk ''h:3'' [''h:1''], Talk ''h:3'' [],
      Listen ''h:1'' ''h:3'', Thread ''h:1'', Listen ''h:2'' ''h:3'', Thread ''h:2'']"

text \<open>
  Node 2 times out and is elected with the vote of node 3; node 1 takes its first entry in
  the place of \<open>x\<close>.
\<close>

definition succession :: "move list" where
  "succession =
     [Thread ''h:2'', Thread ''h:2'', Talk ''h:2'' [''h:3''], Talk ''h:2'' [''h:2''],
      Listen ''h:3'' ''h:2'', Thread ''h:3'', Talk ''h:3'' [''h:2''],
      Listen ''h:2'' ''h:2'', Listen ''h:2'' ''h:3'', Thread ''h:2'', Thread ''h:2'', Thread ''h:2'',
      Talk ''h:2'' [], Talk ''h:2'' [''h:1''], Listen ''h:1'' ''h:2'', Thread ''h:1'']"

definition ahead_scene :: "system option \<Rightarrow> bool" where
  "ahead_scene r =
     (case r of
        None \<Rightarrow> False
      | Some s \<Rightarrow>
          committed_at ''h:1'' 2 (PyStr ''x'') s \<and> commit_index (nodes s ''h:3'') = 1
          \<and> length (rlog (nodes s ''h:2'')) = 2
          \<and> committed_at ''h:1'' 2 (PyStr ''Leader Entry'') (fold play succession s))"

lemma settled_office: "settled [''h:1'', ''h:2'', ''h:3''] ''h:3'' office"
  unfolding office_def campaign_def
  by (simp add: execute lagging_def del: jsonify.simps replicate.simps cong: if_weak_cong)
     (simp add: settled_def flight_def floor_division_def leads_def log_matching_def agree_def)

lemma leads_office: "\<exists>m. threads (thread_move ''h:3'' office) ''h:3'' = InLeader m"
  unfolding office_def campaign_def
  by (simp add: execute lagging_def del: jsonify.simps replicate.simps cong: if_weak_cong)

lemma reachable_office: "reachable json_norm trio office"
  unfolding office_def
  by (rule play_reachable [OF reachable.start [OF started_scene]]) (simp add: campaign_def)

lemma office_reign: "reign json_norm (member_addresses trio) ''h:3'' (thread_move ''h:3'' office)"
  using leads_office reign.begin_reign [OF reachable_ok [OF reachable_office json_wire_norm]] settled_office by auto

lemmas execute_member = execute_leader fun_cong [OF follower_committal_def] lagging_def

lemma ahead_run:
  "ahead_scene (watched (governs [''h:1'', ''h:2'', ''h:3''] ''h:3'') ahead (thread_move ''h:3'' office))"
  unfolding office_def campaign_def ahead_def
  by (simp add: execute_member client_request_def governs_def calm_def leads_def del: jsonify.simps replicate.simps cong: if_weak_cong,
      simp add: ahead_scene_def succession_def execute_member del: jsonify.simps replicate.simps cong: if_weak_cong)
     (simp add: committed_at_def check_committed_entry_def monad_apply py_getitem_def py_norm_index_def)

lemma succession_steps:
  "(sys_step json_norm [''h:1'', ''h:2'', ''h:3''])\<^sup>*\<^sup>* s (fold play succession s)"
  by (rule play_steps) (simp add: succession_def)

text \<open>
  C9. A follower can commit what its leader has not. In a reign, with no offer ever repeated,
  a state is reached in which node 1 reports \<open>x\<close> at index 2 as its last committed entry while
  the leader has committed index 1 only and node 2 has no entry at index 2; and the program
  can go on from there to a state in which the entry node 1 reports at that index is the
  first one of the next leader. The code commits the index before the offered entry instead
  of the leader's commit index.
\<close>

theorem follower_commits_ahead_of_the_leader:
  "\<exists>s t. reign json_norm (member_addresses trio) ''h:3'' s \<and> reachable json_norm trio s
     \<and> committed_at ''h:1'' 2 (PyStr ''x'') s \<and> commit_index (nodes s ''h:3'') = 1
     \<and> length (rlog (nodes s ''h:2'')) = 2
     \<and> (sys_step json_norm (member_addresses trio))\<^sup>*\<^sup>* s t \<and> committed_at ''h:1'' 2 (PyStr ''Leader Entry'') t"
proof -
  obtain s where s: "watched (governs (member_addresses trio) ''h:3'') ahead (thread_move ''h:3'' office) = Some s"
    and scene: "committed_at ''h:1'' 2 (PyStr ''x'') s" "commit_index (nodes s ''h:3'') = 1" "length (rlog (nodes s ''h:2'')) = 2"
      "committed_at ''h:1'' 2 (PyStr ''Leader Entry'') (fold play succession s)"
    using ahead_run by (auto simp: ahead_scene_def split: option.splits)
  have ok: "list_all (move_ok (member_addresses trio)) ([Thread ''h:3''] @ ahead)"
    by (simp add: ahead_def plain_request_def)
  have "reign json_norm (member_addresses trio) ''h:3'' s"
    using watched_reign [OF s office_reign] ok by simp
  moreover have "reachable json_norm trio s"
    using play_reachable [OF reachable_office ok] watched_fold [OF s] by simp
  ultimately show ?thesis
    using scene succession_steps [of s] by auto
qed

end
