(* ===== verification/Raft_Shared_Log.thy ===== *)
theory Raft_Shared_Log
  imports Raft_Stable_Run
begin

text \<open>
  What the replication is for: one log that the group shares. The specification has a list
  of proposed entries of which the first so many are decided; the group under a leader
  refines it, with every member a replica of the decided entries.
\<close>

section \<open>The specification\<close>

record shared_log =
  proposed :: "entry list"
  decided :: nat

inductive log_step :: "shared_log \<Rightarrow> shared_log \<Rightarrow> bool" where
  propose: "log_step a (a\<lparr>proposed := proposed a @ [e]\<rparr>)"
| decide: "decided a \<le> d \<Longrightarrow> d \<le> length (proposed a) \<Longrightarrow> log_step a (a\<lparr>decided := d\<rparr>)"

definition decision :: "shared_log \<Rightarrow> entry list" where
  "decision a = take (decided a) (proposed a)"

lemma log_steps_propose: "log_step\<^sup>*\<^sup>* a (a\<lparr>proposed := proposed a @ es\<rparr>)"
proof (induction es arbitrary: a)
  case Nil
  then show ?case by simp
next
  case (Cons e es)
  have "log_step a (a\<lparr>proposed := proposed a @ [e]\<rparr>)"
    by (rule log_step.propose)
  moreover have "log_step\<^sup>*\<^sup>* (a\<lparr>proposed := proposed a @ [e]\<rparr>) (a\<lparr>proposed := proposed a @ e # es\<rparr>)"
    using Cons [of "a\<lparr>proposed := proposed a @ [e]\<rparr>"] by simp
  ultimately show ?case
    by (rule converse_rtranclp_into_rtranclp)
qed

text \<open>A decision is final.\<close>

lemma log_step_final: "log_step a b \<Longrightarrow> decided a \<le> length (proposed a) \<Longrightarrow>
    decided b \<le> length (proposed b) \<and> decided a \<le> decided b \<and> take (decided a) (proposed b) = decision a"
  by (induction rule: log_step.induct) (simp_all add: decision_def)

lemma log_steps_final:
  assumes "log_step\<^sup>*\<^sup>* a b" and "decided a \<le> length (proposed a)"
  shows "decided b \<le> length (proposed b) \<and> decided a \<le> decided b \<and> take (decided a) (proposed b) = decision a"
  using assms(1)
proof (induction rule: rtranclp_induct)
  case base
  then show ?case
    using assms(2) by (simp add: decision_def)
next
  case (step b c)
  then have c: "decided c \<le> length (proposed c)" "decided b \<le> decided c" "take (decided b) (proposed c) = decision b"
    using log_step_final [OF step.hyps(2)] by simp_all
  have "take (decided a) (proposed c) = take (decided a) (take (decided b) (proposed c))"
    using step.IH by (simp add: min_absorb1)
  also have "\<dots> = take (decided a) (proposed b)"
    using step.IH c(3) by (simp add: decision_def min_absorb1)
  finally show ?case
    using step.IH c by simp
qed

section \<open>The group under a leader\<close>

text \<open>The steps of a reign: those that \<open>reign\<close> is made of.\<close>

inductive reign_step :: "(pyval \<Rightarrow> pyval) \<Rightarrow> string list \<Rightarrow> string \<Rightarrow> system \<Rightarrow> system \<Rightarrow> bool" for tr ids ld where
  lead: "unhurried ids ld s \<Longrightarrow> threads (thread_move ld s) ld = InLeader m \<Longrightarrow>
    reign_step tr ids ld s (thread_move ld s)"
| follow: "v \<in> set ids \<Longrightarrow> v \<noteq> ld \<Longrightarrow> \<not> leads (threads (thread_move v s) v) (nodes (thread_move v s) v) \<Longrightarrow>
    reign_step tr ids ld s (thread_move v s)"
| env: "env_step tr ids s t \<Longrightarrow> reign_step tr ids ld s t"

lemma reign_step_reign: "reign_step tr ids ld s t \<Longrightarrow> reign tr ids ld s \<Longrightarrow> reign tr ids ld t"
  by (induction rule: reign_step.induct) (auto intro: reign.intros)

lemma reign_steps_reign:
  assumes "(reign_step tr ids ld)\<^sup>*\<^sup>* s t" and "reign tr ids ld s"
  shows "reign tr ids ld t"
  using assms by (induction rule: rtranclp_induct) (auto intro: reign_step_reign)

text \<open>The log the leader keeps for the group, and what a member has of it.\<close>

definition board :: "string \<Rightarrow> system \<Rightarrow> shared_log" where
  "board ld s = \<lparr>proposed = rlog (nodes s ld), decided = nat (commit_index (nodes s ld) + 1)\<rparr>"

definition replica :: "string \<Rightarrow> shared_log \<Rightarrow> string \<Rightarrow> system \<Rightarrow> bool" where
  "replica ld a v s \<longleftrightarrow> take (decided a) (rlog (nodes s v)) = decision a"

lemma leader_step_grows:
  assumes "thread_step (InLeader mrh, n) = (c, n')"
  shows "\<exists>es. rlog n' = rlog n @ es" and "commit_index n \<le> commit_index n'"
proof -
  have "always log_extends (run_step (InLeader mrh))" "always commit_grows (run_step (InLeader mrh))"
    by (auto simp: in_role_def after_iteration_def intro!: grow.frame_intros grow.leader_iteration
        commits.frame_intros commits.leader_iteration)
  then have "log_extends n n'" "commit_grows n n'"
    using assms by (auto simp: thread_step_def split: prod.splits sum.splits dest: always_run)
  then show "\<exists>es. rlog n' = rlog n @ es" and "commit_index n \<le> commit_index n'"
    by (simp_all add: log_extends_def commit_grows_def)
qed

lemma reign_agrees:
  assumes ok: "reign_ok ids ld T s" and ld: "ld \<in> set ids" and v: "v \<in> set ids" "v \<noteq> ld"
  shows "decided (board ld s) \<le> length (proposed (board ld s))" and "replica ld (board ld s) v s"
proof -
  obtain j where j: "j < length ids" "ids ! j = v"
    using v(1) by (auto simp: in_set_conv_nth)
  then have agree: "agree (match_index (nodes s ld) ! j) (rlog (nodes s ld)) (rlog (nodes s v))"
    and le: "commit_index (nodes s ld) \<le> match_index (nodes s ld) ! j" and pos: "0 \<le> commit_index (nodes s ld)"
    using ok ld v sys_ok_node [of ids s ld]
    by (auto simp: reign_ok_def serves_at tracks_def node_sound_def thread_ok_def node_ok_def)
  from agree_down [OF agree pos le] pos show "decided (board ld s) \<le> length (proposed (board ld s))" "replica ld (board ld s) v s"
    by (auto simp: agree_def board_def replica_def decision_def)
qed

lemma leader_refines:
  assumes ok: "reign_ok ids ld T s" "reign_ok ids ld T t" and ld: "ld \<in> set ids" and v: "v \<in> set ids" "v \<noteq> ld"
    and t: "t = thread_move ld s"
  shows "log_step\<^sup>*\<^sup>* (board ld s) (board ld t)"
proof -
  obtain mrh c n where "threads s ld = InLeader mrh" and "thread_step (InLeader mrh, nodes s ld) = (c, n)"
    using ok(1) by (metis prod.collapse reign_ok_def)
  with leader_step_grows obtain es where es: "rlog (nodes t ld) = rlog (nodes s ld) @ es"
    and "commit_index (nodes s ld) \<le> commit_index (nodes t ld)"
    by (metis fun_upd_same t thread_move_simps(2))
  then have "log_step (board ld s\<lparr>proposed := proposed (board ld s) @ es\<rparr>) (board ld t)"
    using log_step.decide [of "board ld s\<lparr>proposed := proposed (board ld s) @ es\<rparr>" "decided (board ld t)"]
      reign_agrees(1) [OF ok(2) ld v] by (simp add: board_def)
  with log_steps_propose show ?thesis
    by (rule rtranclp.rtrancl_into_rtrancl)
qed

lemma reign_step_refines:
  assumes run: "reign tr ids ld s" "reign_step tr ids ld s t" and tr: "json_wire tr" and ids: "distinct ids" "ld \<in> set ids"
    and v: "v \<in> set ids" "v \<noteq> ld"
  shows "log_step\<^sup>*\<^sup>* (board ld s) (board ld t)"
proof -
  obtain T where ok: "reign_ok ids ld T s"
    using reign_keeps [OF run(1) tr ids] by blast
  from run(2) show ?thesis
  proof cases
    case (lead m)
    with reign_lead [OF ok ids] leader_refines [OF ok _ ids(2) v] show ?thesis
      by simp
  next
    case (follow w)
    then have "nodes t ld = nodes s ld"
      using thread_move_simps(2) [of s w] by (metis fun_upd_other prod.collapse)
    then show ?thesis
      by (simp add: board_def)
  next
    case env
    then have "same_replica (nodes s ld) (nodes t ld)"
      by (rule env_step_replica)
    then show ?thesis
      by (simp add: board_def same_replica_def)
  qed
qed

lemma reign_steps_refine:
  assumes "(reign_step tr ids ld)\<^sup>*\<^sup>* s t" and "reign tr ids ld s" and "json_wire tr" and "distinct ids" "ld \<in> set ids"
    and "v \<in> set ids" "v \<noteq> ld"
  shows "log_step\<^sup>*\<^sup>* (board ld s) (board ld t)"
  using assms(1)
proof (induction rule: rtranclp_induct)
  case (step t u)
  with reign_steps_reign [OF step.hyps(1) assms(2)] have "log_step\<^sup>*\<^sup>* (board ld t) (board ld u)"
    by (intro reign_step_refines [OF _ step.hyps(2) assms(3-7)])
  with step.IH show ?case
    by (rule rtranclp_trans)
qed simp

text \<open>
  C6. Under a leader the group refines the shared log: any run of a reign, with its lost
  messages and interleavings, is a run of proposals and decisions on the leader's log, in
  which what was decided once stays decided, at its place and at every member.
\<close>

theorem reign_refines_shared_log:
  assumes "reign tr ids ld s" and "(reign_step tr ids ld)\<^sup>*\<^sup>* s t" and "json_wire tr" and "distinct ids"
    and "ld \<in> set ids" and "v \<in> set ids" and "v \<noteq> ld"
  shows "log_step\<^sup>*\<^sup>* (board ld s) (board ld t)
     \<and> replica ld (board ld s) v s \<and> replica ld (board ld t) v t \<and> replica ld (board ld s) v t
     \<and> replica ld (board ld s) ld t"
proof -
  have refines: "log_step\<^sup>*\<^sup>* (board ld s) (board ld t)"
    by (rule reign_steps_refine [OF assms(2,1,3-7)])
  obtain T T' where ok: "reign_ok ids ld T s" "reign_ok ids ld T' t"
    using reign_keeps [OF assms(1,3-5)] reign_keeps [OF reign_steps_reign [OF assms(2,1)] assms(3-5)] by blast
  note at_s = reign_agrees [OF ok(1) assms(5-7)] and at_t = reign_agrees [OF ok(2) assms(5-7)]
  have final: "decided (board ld s) \<le> decided (board ld t)" "take (decided (board ld s)) (proposed (board ld t)) = decision (board ld s)"
    using log_steps_final [OF refines at_s(1)] by simp_all
  have "take (decided (board ld s)) (rlog (nodes t v)) = take (decided (board ld s)) (take (decided (board ld t)) (rlog (nodes t v)))"
    using final(1) by (simp add: min_absorb1)
  also have "\<dots> = take (decided (board ld s)) (proposed (board ld t))"
    using at_t(2) final(1) by (simp add: replica_def decision_def min_absorb1)
  finally show ?thesis
    using refines at_s(2) at_t(2) final(2) by (simp add: replica_def board_def)
qed

lemma watched_reign_steps:
  assumes "watched (governs ids ld) ms s = Some t" and "list_all (move_ok ids) ms"
  shows "(reign_step json_norm ids ld)\<^sup>*\<^sup>* s t"
  using assms(1) rtranclp.rtrancl_refl assms(2)
  by (rule watched_keeps)
     (auto simp: governs_def intro: reign_step.intros calm_unhurried rtranclp.rtrancl_into_rtrancl split: if_splits)

theorem reign_refines_shared_log_witness:
  "\<exists>t. (reign_step json_norm (member_addresses trio) ''h:3'')\<^sup>*\<^sup>* (thread_move ''h:3'' in_office) t
     \<and> log_step\<^sup>*\<^sup>* (board ''h:3'' (thread_move ''h:3'' in_office)) (board ''h:3'' t)
     \<and> decided (board ''h:3'' t) = 2 \<and> replica ''h:3'' (board ''h:3'' t) ''h:1'' t"
proof -
  obtain m where m: "threads (thread_move ''h:3'' in_office) ''h:3'' = InLeader m"
    using leads_in_office by blast
  have reign: "reign json_norm (member_addresses trio) ''h:3'' (thread_move ''h:3'' in_office)"
    using reign.begin_reign [OF reachable_ok [OF reachable_in_office json_wire_norm] _ m] settled_in_office by simp
  obtain t where t: "watched (governs (member_addresses trio) ''h:3'') first_round (thread_move ''h:3'' in_office) = Some t"
    and "commit_index (nodes t ''h:3'') = 1"
    using run_in_office by (auto simp: committed_scene_def split: option.splits)
  then have "decided (board ''h:3'' t) = 2"
    by (simp add: board_def)
  moreover have steps: "(reign_step json_norm (member_addresses trio) ''h:3'')\<^sup>*\<^sup>* (thread_move ''h:3'' in_office) t"
    by (rule watched_reign_steps [OF t]) (simp add: first_round_def)
  ultimately show ?thesis
    using reign_refines_shared_log [OF reign steps json_wire_norm, of "''h:1''"] by auto
qed

section \<open>From the start of the group\<close>

text \<open>
  C5. The first leader reigns: when, in a run in which no thread has led before, a thread
  enters the leader's loop and no other node is about to, then in every later state, for as
  long as it leads, no other node becomes a leader and it repeats no offer while the first or
  its answer is under way, the entries of the leader up to its commit index are the first
  entries of the log of every other member. No condition is put on the logs or on the
  messages under way when it takes over.
\<close>

theorem first_leader_reigns:
  assumes "leaderless tr ab s" and "json_wire tr" and "distinct (member_addresses ab)" and "ld \<in> set (member_addresses ab)"
    and "threads (thread_move ld s) ld = InLeader m" and "floor_division (lib_old_div (nodes s ld))"
    and "\<forall>v \<in> set (member_addresses ab). v \<noteq> ld \<longrightarrow> current_role (nodes s v) \<noteq> Leader"
    and "(reign_step tr (member_addresses ab) ld)\<^sup>*\<^sup>* (thread_move ld s) t"
    and "v \<in> set (member_addresses ab)" and "v \<noteq> ld"
  shows "0 \<le> commit_index (nodes t ld) \<and> commit_index (nodes t ld) < int (length (rlog (nodes t v)))
    \<and> take (nat (commit_index (nodes t ld) + 1)) (rlog (nodes t v))
      = take (nat (commit_index (nodes t ld) + 1)) (rlog (nodes t ld))"
proof -
  have "reign tr (member_addresses ab) ld (thread_move ld s)"
    by (rule first_reign_begins [OF assms(1,2,4-7)])
  with assms(8) have "reign tr (member_addresses ab) ld t"
    by (rule reign_steps_reign)
  then obtain T where ok: "reign_ok (member_addresses ab) ld T t"
    using reign_keeps [OF _ assms(2-4)] by blast
  then have "0 \<le> commit_index (nodes t ld)"
    using assms(4) sys_ok_node [of "member_addresses ab" t ld]
    by (auto simp: reign_ok_def node_sound_def thread_ok_def node_ok_def)
  with reign_agrees [OF ok assms(4,9,10)] show ?thesis
    by (auto simp: board_def replica_def decision_def dest!: arg_cong [of _ _ length])
qed

theorem first_leader_reigns_witness:
  "\<exists>t. (reign_step json_norm (member_addresses trio) ''h:3'')\<^sup>*\<^sup>* (thread_move ''h:3'' in_office) t
     \<and> commit_index (nodes t ''h:3'') = 1 \<and> take 2 (rlog (nodes t ''h:1'')) = take 2 (rlog (nodes t ''h:3''))"
proof -
  obtain m where m: "threads (thread_move ''h:3'' in_office) ''h:3'' = InLeader m"
    using leads_in_office by blast
  obtain t where t: "watched (governs (member_addresses trio) ''h:3'') first_round (thread_move ''h:3'' in_office) = Some t"
    and commit: "commit_index (nodes t ''h:3'') = 1"
    using run_in_office by (auto simp: committed_scene_def split: option.splits)
  have steps: "(reign_step json_norm (member_addresses trio) ''h:3'')\<^sup>*\<^sup>* (thread_move ''h:3'' in_office) t"
    by (rule watched_reign_steps [OF t]) (simp add: first_round_def)
  have "take (nat (commit_index (nodes t ''h:3'') + 1)) (rlog (nodes t ''h:1''))
      = take (nat (commit_index (nodes t ''h:3'') + 1)) (rlog (nodes t ''h:3''))"
    using settled_in_office
    by (intro first_leader_reigns [OF in_office_leaderless json_wire_norm _ _ m _ _ steps, THEN conjunct2, THEN conjunct2])
       (auto simp: settled_def leads_def)
  with steps commit show ?thesis
    by auto
qed

end
