(* ===== verification/Raft_Races.thy ===== *)
theory Raft_Races
  imports Raft_Behaviour
begin

text \<open>
  The public methods of a node run in the threads of its clients, at the same time as the
  node's own thread. Elsewhere they fall between two passes of that thread; here they fall
  inside one, between any two of the statements that touch what the threads share: the log,
  the commit index and the role.
\<close>

section \<open>A method in parts\<close>

text \<open>The answer a client gets if its call falls after the first \<open>k\<close> parts of a method.\<close>

definition run_parts :: "unit raft list \<Rightarrow> unit raft" where
  "run_parts ms = for_each ms (\<lambda>m. m)"

definition answer_after :: "nat \<Rightarrow> unit raft list \<Rightarrow> 'a raft \<Rightarrow> raft_node \<Rightarrow> py_error + 'a" where
  "answer_after k ms ask s = fst (ask (snd (run_parts (take k ms) s)))"

lemma run_parts_simps [simp]:
  "run_parts [] = ret ()"
  "run_parts (m # ms) = seq m (run_parts ms)"
  by (simp_all add: run_parts_def)

section \<open>A client during an append\<close>

text \<open>
  \<open>_append_entry\<close> of a follower: the log is cut without the lock, the entry is appended to
  the log and entered in \<open>log_hash\<close> under it, and the commit index is set.
\<close>

definition cut_log :: "int \<Rightarrow> unit raft" where
  "cut_log prev_index = modify (\<lambda>s. s\<lparr>rlog := py_take (prev_index + 1) (rlog s)\<rparr>)"

definition add_entry :: "entry \<Rightarrow> int raft" where
  "add_entry entry =
     bnd (gets rlog) (\<lambda>l.
     bnd (lift_result (py_getitem l (- 1))) (\<lambda>e.
     seq (modify (\<lambda>s. s\<lparr>rlog := rlog s @ [entry]\<rparr>))
     (seq (if py_hashable (e_id entry)
           then modify (\<lambda>s. s\<lparr>log_hash := (log_hash s)(py_hash_key (e_id entry) \<mapsto> entry)\<rparr>)
           else raise TypeError)
     (ret (e_term e)))))"

definition append_parts :: "entry \<Rightarrow> bool \<Rightarrow> int \<Rightarrow> unit raft list" where
  "append_parts entry commit prev_index =
     [cut_log prev_index, seq (add_entry entry) (ret ()), when_py commit (commit_entry prev_index (e_term entry))]"

lemma append_entry_in_parts:
  "snd (append_entry entry commit (Some p) s) = snd (run_parts (append_parts entry commit p) s)"
  by (simp add: append_parts_def append_entry_def cut_log_def add_entry_def commit_entry_def py_run split: sum.splits)

text \<open>
  C23. What a client sees of an append. A follower that appends after the index \<open>p\<close> answers
  the question for the last committed entry, asked before its first statement, after it has
  cut its log, after it has appended, and at the end, as follows; with a commit index above
  \<open>p\<close> the question raises an \<open>IndexError\<close> while the log is cut, and goes on doing so if the
  index is above \<open>p + 1\<close>. The lock does not help, since the cut is made outside it.
\<close>

theorem client_during_an_append:
  assumes "0 \<le> p" and "p < int (length (rlog s))" and "0 \<le> commit_index s" and "commit_index s < int (length (rlog s))"
    and "py_hashable (e_id entry)"
  shows "answer_after 0 (append_parts entry c p) (check_committed_entry PyNone) s
        = Inr (e_value (rlog s ! nat (commit_index s)))
     \<and> answer_after 1 (append_parts entry c p) (check_committed_entry PyNone) s
        = (if commit_index s \<le> p then Inr (e_value (rlog s ! nat (commit_index s))) else Inl IndexError)
     \<and> answer_after 2 (append_parts entry c p) (check_committed_entry PyNone) s
        = (if commit_index s \<le> p then Inr (e_value (rlog s ! nat (commit_index s)))
           else if commit_index s = p + 1 then Inr (e_value entry) else Inl IndexError)
     \<and> answer_after 3 (append_parts entry c p) (check_committed_entry PyNone) s
        = (if c then Inr (e_value (rlog s ! nat p))
           else answer_after 2 (append_parts entry c p) (check_committed_entry PyNone) s)
     \<and> answer_after 3 (append_parts entry c p) (check_committed_entry PyNone) s
        = fst (check_committed_entry PyNone (snd (append_entry entry c (Some p) s)))"
proof -
  have cut: "nat (p + 1) \<le> length (rlog s)" "rlog s \<noteq> []" "nat (p + 1) \<noteq> 0"
    using assms(1,2) by auto
  have at_index: "py_getitem (take (nat (p + 1)) (rlog s)) i = (if i \<le> p then Inr (rlog s ! nat i) else Inl IndexError)" if "0 \<le> i" for i
    using that cut(1) assms(1) by (auto simp: py_getitem_def py_norm_index_def)
  have at_index': "py_getitem (take (nat (p + 1)) (rlog s) @ [entry]) i
      = (if i \<le> p then Inr (rlog s ! nat i) else if i = p + 1 then Inr entry else Inl IndexError)" if "0 \<le> i" for i
    using that cut(1) assms(1) by (auto simp: py_getitem_def py_norm_index_def nth_append)
  have in_front: "(take (nat (p + 1)) (rlog s) @ [entry]) ! nat p = rlog s ! nat p"
    using cut(1) assms(1) by (simp add: nth_append)
  have nonempty: "take (nat (p + 1)) (rlog s) \<noteq> []"
    using cut by simp
  note defs = answer_after_def append_parts_def cut_log_def add_entry_def check_committed_entry_def py_run commit_entry_def
  show ?thesis
    unfolding append_entry_in_parts
    using assms nonempty by (simp add: defs at_index at_index' in_front numeral_2_eq_2 numeral_3_eq_3)
qed

section \<open>A pause during a pass\<close>

text \<open>
  A pass of \<open>_follower\<close>: it takes a message, compares the time, and turns into a candidate
  if it is late. A call of another thread falls before one of these, or after the last.
\<close>

definition follower_listens :: "rat \<Rightarrow> rat raft" where
  "follower_listens mrh = bnd get_message (\<lambda>im. case im of None \<Rightarrow> ret mrh | Some m \<Rightarrow> follower_handle mrh m)"

definition follower_late :: "rat \<Rightarrow> bool raft" where
  "follower_late mrh = bnd time_time (\<lambda>now. bnd (gets election_timeout) (\<lambda>et. ret (now - mrh > et)))"

definition follower_turns :: "bool \<Rightarrow> rat \<Rightarrow> rat flow raft" where
  "follower_turns late mrh = (if late then seq (set_current_role Candidate) (ret Return) else ret (Continue mrh))"

definition follower_with :: "nat \<Rightarrow> unit raft \<Rightarrow> rat \<Rightarrow> rat flow raft" where
  "follower_with k call mrh =
     seq (when_py (k = 0) call)
     (bnd (follower_listens mrh) (\<lambda>mrh'.
     seq (when_py (k = 1) call)
     (bnd (follower_late mrh') (\<lambda>late.
     seq (when_py (k = 2) call)
     (bnd (follower_turns late mrh') (\<lambda>fl.
     seq (when_py (k = 3) call) (ret fl)))))))"

lemma follower_iteration_in_parts:
  "follower_iteration mrh =
     bnd (follower_listens mrh) (\<lambda>mrh'. bnd (follower_late mrh') (\<lambda>late. follower_turns late mrh'))"
  by (simp add: fun_eq_iff follower_iteration_def follower_listens_def follower_late_def follower_turns_def py_run
      split: prod.split sum.split option.split)

text \<open>Methods that neither look at the role nor set it.\<close>

definition blind :: "'a raft \<Rightarrow> bool" where
  "blind m \<longleftrightarrow> (\<forall>s r. m (s\<lparr>current_role := r\<rparr>) = apsnd (\<lambda>t. t\<lparr>current_role := r\<rparr>) (m s))"

lemma blind_bnd: "blind m \<Longrightarrow> (\<And>a. blind (f a)) \<Longrightarrow> blind (bnd m f)"
  by (simp add: blind_def bnd_def split: prod.split sum.split)

lemma blind_intros:
  "blind (ret a)" "blind (raise e)" "blind (lift_result x)"
  "blind m1 \<Longrightarrow> blind m2 \<Longrightarrow> blind (seq m1 m2)"
  "blind m3 \<Longrightarrow> blind (when_py b m3)"
  "blind m4 \<Longrightarrow> blind m5 \<Longrightarrow> blind (if b then m4 else m5)"
  "blind m6 \<Longrightarrow> (\<And>y. blind (g y)) \<Longrightarrow> blind (case z of None \<Rightarrow> m6 | Some y \<Rightarrow> g y)"
  by (simp_all add: seq_def blind_bnd when_py_def split: option.split) (simp_all add: blind_def py_run)

lemma blind_gets: "(\<And>s r. f (s\<lparr>current_role := r\<rparr>) = f s) \<Longrightarrow> blind (gets f)"
  by (simp add: blind_def gets_def)

lemma blind_modify: "(\<And>s r. f (s\<lparr>current_role := r\<rparr>) = (f s)\<lparr>current_role := r\<rparr>) \<Longrightarrow> blind (modify f)"
  by (simp add: blind_def modify_def)

lemma blind_small:
  "blind time_time" "blind get_message" "blind get_client_request" "blind (increment_term tm)" "blind (send_message m)"
  by (simp_all add: blind_def py_run time_time_def get_message_def get_client_request_def increment_term_def send_message_def
      split: option.split prod.split sum.split)

lemma blind_senders:
  "blind (send_vote c g)" "blind (send_acknowledge x g)" "blind (send_client_request x e)"
  unfolding send_vote_def send_acknowledge_def send_client_request_def message_timestamp_def new_append_entries_def
  by (intro blind_bnd blind_intros blind_small blind_gets blind_modify; simp)+

lemma blind_log:
  "blind (verify_entry i tm)" "blind (commit_entry i t)" "blind (append_entry e c (Some i))"
  unfolding verify_entry_def append_entry_def commit_entry_def option.case
  by (intro blind_bnd blind_intros blind_gets blind_modify; simp)+

lemma blind_follower:
  "blind (follower_request_votes m)" "blind (follower_heartbeat m)" "blind (follower_append_entries m)" "blind (follower_committal m)"
  unfolding follower_request_votes_def vote_test_def follower_heartbeat_def follower_append_entries_def follower_committal_def
  by (intro blind_bnd blind_intros blind_small blind_senders blind_log blind_gets blind_modify; simp)+

lemma blind_parts: "blind (follower_listens mrh)" "blind (follower_late mrh)"
  unfolding follower_listens_def follower_late_def follower_handle_def
  by (intro blind_bnd blind_intros blind_small blind_follower blind_gets; simp)+

lemma blind_run: "blind m \<Longrightarrow> m s = (x, t) \<Longrightarrow> m (s\<lparr>current_role := r\<rparr>) = (x, t\<lparr>current_role := r\<rparr>)"
  by (simp add: blind_def)

text \<open>
  C24. A pause is lost on a follower that stands for election in the same pass: wherever a
  pause falls inside a pass, it changes nothing of it but the role, and the role at the end
  is the candidate's if the pass ends with a timeout, unless the pause came after it; the
  node then goes on with its election, although it has been paused.
\<close>

theorem pause_is_overwritten:
  assumes "follower_iteration mrh s = (Inr fl, t)" and "k \<le> 3"
  shows "follower_with k pause mrh s
      = (Inr fl, t\<lparr>current_role := if fl = Return \<and> k < 3 then Candidate else Paused\<rparr>)
    \<and> (fl = Return \<and> k < 3 \<and> \<not> terminate t \<longrightarrow>
        (\<exists>el u. thread_steps 1 (Dispatch, snd (follower_with k pause mrh s)) = (InCandidate el, u)
           \<and> current_role u = Candidate \<and> current_term u = current_term t + 1))"
proof -
  obtain mrh' u late w where parts: "follower_listens mrh s = (Inr mrh', u)" "follower_late mrh' u = (Inr late, w)"
    and turns: "follower_turns late mrh' w = (Inr fl, t)"
    using assms(1) by (auto simp: follower_iteration_in_parts bnd_def split: prod.splits sum.splits)
  have blind: "follower_listens mrh (s\<lparr>current_role := r\<rparr>) = (Inr mrh', u\<lparr>current_role := r\<rparr>)"
    "follower_late mrh' (u\<lparr>current_role := r\<rparr>) = (Inr late, w\<lparr>current_role := r\<rparr>)" for r
    using parts blind_run blind_parts by blast+
  have turns: "fl = (if late then Return else Continue mrh')" "t = (if late then w\<lparr>current_role := Candidate\<rparr> else w)"
    "follower_turns late mrh' v = (Inr fl, if late then v\<lparr>current_role := Candidate\<rparr> else v)" for v
    using turns by (auto simp: follower_turns_def set_current_role_def py_run split: if_splits)
  have run: "follower_with k pause mrh s
      = (Inr fl, t\<lparr>current_role := if fl = Return \<and> k < 3 then Candidate else Paused\<rparr>)"
  proof -
    consider "k = 0" | "k = 1" | "k = 2" | "k = 3"
      using assms(2) by linarith
    then show ?thesis
      by cases (simp_all add: follower_with_def pause_def set_current_role_def py_run parts blind turns)
  qed
  moreover have "\<exists>el u. thread_steps 1 (Dispatch, t\<lparr>current_role := Candidate\<rparr>) = (InCandidate el, u)
      \<and> current_role u = Candidate \<and> current_term u = current_term t + 1" if "\<not> terminate t"
  proof -
    have "wp candidate_start (\<lambda>el u. current_role u = Candidate \<and> current_term u = current_term t + 1) (\<lambda>_ _. False)
        (t\<lparr>current_role := Candidate\<rparr>)"
      by (simp add: candidate_start_def wp)
    from wp_total [OF this] that show ?thesis
      by (auto simp: thread_step_def run_dispatch_def check_role_def py_run)
  qed
  ultimately show ?thesis
    by simp
qed

theorem client_during_an_append_witness:
  "answer_after 1 (append_parts init_entry False 0) (check_committed_entry PyNone)
     ((fresh_node ''node1'' ''h:1'')\<lparr>rlog := [init_entry, init_entry], commit_index := 1\<rparr>) = Inl IndexError"
  using client_during_an_append [of 0 "(fresh_node ''node1'' ''h:1'')\<lparr>rlog := [init_entry, init_entry], commit_index := 1\<rparr>"
      init_entry False]
  by (simp add: init_entry_def)

definition late_node :: raft_node where
  "late_node = (trio_node ''node1'')\<lparr>clock := \<lambda>_. 1\<rparr>"

theorem pause_is_overwritten_witness:
  "follower_with 2 pause 0 late_node = (Inr Return, late_node\<lparr>ticks := 1, current_role := Candidate\<rparr>)"
proof -
  have "follower_iteration 0 late_node = (Inr Return, late_node\<lparr>ticks := 1, current_role := Candidate\<rparr>)"
    by (subst timed_out_follower) (simp_all add: late_node_def fresh_node_def Listener_init_def)
  from pause_is_overwritten [OF this, of 2] show ?thesis
    by simp
qed

end
