(* ===== verification/Py_Text.thy ===== *)
theory Py_Text
  imports Py_Prelude "HOL-Library.Word"
begin

text \<open>
  Python's strings as the sources outside the raft package use them: decimal numerals in
  format strings, \<open>split\<close>, \<open>strip\<close>, the lines of a text file, and \<open>encode\<close> and \<open>decode\<close>.
  Characters are those of HOL, code points below 256.
\<close>

section \<open>Numerals\<close>

fun digits :: "nat \<Rightarrow> string" where
  "digits n = (if n < 10 then [char_of (48 + n)] else digits (n div 10) @ [char_of (48 + n mod 10)])"

declare digits.simps [simp del]

definition py_str_int :: "int \<Rightarrow> string" where
  "py_str_int i = (if i < 0 then CHR ''-'' # digits (nat (- i)) else digits (nat i))"

definition numeral_char :: "char \<Rightarrow> bool" where
  "numeral_char c \<longleftrightarrow> c = CHR ''-'' \<or> 48 \<le> (of_char c :: nat) \<and> (of_char c :: nat) \<le> 57"

lemma digits_numeral: "c \<in> set (digits n) \<Longrightarrow> numeral_char c"
proof (induction n rule: digits.induct)
  case (1 n)
  then show ?case
    by (subst (asm) (2) digits.simps) (auto simp: numeral_char_def split: if_splits)
qed

lemma py_str_int_numeral: "c \<in> set (py_str_int i) \<Longrightarrow> numeral_char c"
  by (auto simp: py_str_int_def numeral_char_def dest!: digits_numeral split: if_splits)

lemma digits_nonempty [simp]: "digits n \<noteq> []"
  by (subst digits.simps) simp

lemma py_str_int_nonempty [simp]: "py_str_int i \<noteq> []"
  by (simp add: py_str_int_def)

text \<open>A numeral determines its number.\<close>

definition undigits :: "string \<Rightarrow> nat" where
  "undigits s = foldl (\<lambda>acc c. 10 * acc + (of_char c - 48)) 0 s"

lemma undigits_digits [simp]: "undigits (digits n) = n"
proof (induction n rule: digits.induct)
  case (1 n)
  show ?case
  proof (cases "n < 10")
    case True
    then show ?thesis
      by (subst digits.simps) (simp add: undigits_def)
  next
    case False
    with 1 have "undigits (digits (n div 10)) = n div 10"
      by simp
    with False show ?thesis
      by (subst digits.simps) (simp add: undigits_def)
  qed
qed

lemma digits_inject [simp]: "digits m = digits n \<longleftrightarrow> m = n"
  by (metis undigits_digits)

lemma digits_no_minus: "CHR ''-'' # s \<noteq> digits n"
proof
  assume eq: "CHR ''-'' # s = digits n"
  have "48 \<le> (of_char c :: nat)" if "c \<in> set (digits m)" for c m
    using that
  proof (induction m rule: digits.induct)
    case (1 m)
    then show ?case
      by (subst (asm) (2) digits.simps) (auto split: if_splits)
  qed
  from this [of "CHR ''-''" n] show False
    by (simp flip: eq)
qed

lemma py_str_int_inject [simp]: "py_str_int i = py_str_int j \<longleftrightarrow> i = j"
  using digits_no_minus by (auto simp: py_str_int_def digits_no_minus [symmetric])

section \<open>Splitting and stripping\<close>

text \<open>\<open>s.split(c)\<close> for a one-character separator: never empty, one part more than separators.\<close>

fun py_split :: "char \<Rightarrow> string \<Rightarrow> string list" where
  "py_split c [] = [[]]"
| "py_split c (x # xs) =
     (if x = c then [] # py_split c xs
      else case py_split c xs of [] \<Rightarrow> [[x]] | y # ys \<Rightarrow> (x # y) # ys)"

lemma py_split_nonempty [simp]: "py_split c s \<noteq> []"
  by (induction s) (auto split: list.splits)

lemma py_split_parts: "length (py_split c s) = Suc (count_list s c)"
  by (induction s) (auto split: list.splits)

lemma py_split_none [simp]: "c \<notin> set s \<Longrightarrow> py_split c s = [s]"
  by (induction s) auto

lemma py_split_append [simp]: "c \<notin> set a \<Longrightarrow> py_split c (a @ c # b) = a # py_split c b"
  by (induction a) auto

text \<open>The characters \<open>str.strip\<close> removes.\<close>

definition py_space :: "char \<Rightarrow> bool" where
  "py_space c \<longleftrightarrow> (let n = (of_char c :: nat) in 9 \<le> n \<and> n \<le> 13 \<or> 28 \<le> n \<and> n \<le> 32 \<or> n = 133 \<or> n = 160)"

definition py_strip :: "string \<Rightarrow> string" where
  "py_strip s = rev (dropWhile py_space (rev (dropWhile py_space s)))"

lemma numeral_char_facts [simp]:
  "numeral_char c \<Longrightarrow> \<not> py_space c"
  "\<not> numeral_char (CHR '','')"
  "\<not> numeral_char (CHR 0x0A)"
  "\<not> numeral_char (CHR 0x0D)"
  by (auto simp: numeral_char_def py_space_def Let_def)

lemma py_str_int_no [simp]:
  "CHR '','' \<notin> set (py_str_int i)" "CHR 0x0A \<notin> set (py_str_int i)" "CHR 0x0D \<notin> set (py_str_int i)"
  using py_str_int_numeral numeral_char_facts by blast+

lemma py_strip_ends:
  assumes "a \<noteq> []" and "\<not> py_space (hd a)" and "b \<noteq> []" and "\<not> py_space (last b)" and "\<forall>c \<in> set w. py_space c"
  shows "py_strip (a @ b @ w) = a @ b"
proof -
  have "dropWhile py_space (a @ b @ w) = a @ b @ w"
    using assms(1,2) by (cases a) auto
  moreover have "dropWhile py_space (rev w @ rev b @ rev a) = rev b @ rev a"
    using assms(3,4,5) by (cases b rule: rev_cases) (auto simp: dropWhile_append)
  ultimately show ?thesis
    by (simp add: py_strip_def)
qed

section \<open>Text files\<close>

text \<open>
  Reading in text mode translates carriage returns (universal newlines); iterating over
  the file yields its lines with their newline, the last one perhaps without.
\<close>

fun universal_newlines :: "string \<Rightarrow> string" where
  "universal_newlines [] = []"
| "universal_newlines (c # cs) =
     (if c = CHR 0x0D then
        CHR 0x0A # (case cs of [] \<Rightarrow> [] | d # ds \<Rightarrow>
          if d = CHR 0x0A then universal_newlines ds else universal_newlines (d # ds))
      else c # universal_newlines cs)"

fun split_lines :: "string \<Rightarrow> string list" where
  "split_lines [] = []"
| "split_lines (c # cs) =
     (if c = CHR 0x0A then [c] # split_lines cs
      else case split_lines cs of [] \<Rightarrow> [[c]] | l # ls \<Rightarrow> (c # l) # ls)"

definition file_lines :: "string \<Rightarrow> string list" where
  "file_lines s = split_lines (universal_newlines s)"

lemma universal_newlines_plain [simp]: "CHR 0x0D \<notin> set s \<Longrightarrow> universal_newlines s = s"
  by (induction s rule: universal_newlines.induct) auto

lemma split_lines_line [simp]:
  "CHR 0x0A \<notin> set l \<Longrightarrow> split_lines (l @ CHR 0x0A # s) = (l @ [CHR 0x0A]) # split_lines s"
  by (induction l) auto

lemma split_lines_concat:
  "(\<And>l. l \<in> set ls \<Longrightarrow> CHR 0x0A \<notin> set l) \<Longrightarrow>
   split_lines (concat (map (\<lambda>l. l @ [CHR 0x0A]) ls)) = map (\<lambda>l. l @ [CHR 0x0A]) ls"
  by (induction ls) auto

section \<open>Bytes\<close>

type_synonym byte = "8 word"

text \<open>
  UTF-8 on ASCII text, one byte per character. A byte above 127 does not decode: the
  payloads the programs exchange (addresses, decimal ids, JSON, whose serialiser escapes
  everything else) are ASCII.
\<close>

definition py_ascii :: "string \<Rightarrow> bool" where
  "py_ascii s \<longleftrightarrow> (\<forall>c \<in> set s. (of_char c :: nat) < 128)"

definition py_encode :: "string \<Rightarrow> byte list" where
  "py_encode s = map (\<lambda>c. word_of_nat (of_char c)) s"

definition py_decode :: "byte list \<Rightarrow> py_error + string" where
  "py_decode bs =
     (if list_all (\<lambda>b. unat b < 128) bs then Inr (map (\<lambda>b. char_of (unat b)) bs) else Inl ValueError)"

lemma of_char_byte [simp]: "unat (word_of_nat (of_char c) :: byte) = of_char c"
proof -
  have "(of_char c :: nat) mod 256 = of_char c"
    by (rule of_char_mod_256)
  then show ?thesis
    by (simp add: unat_of_nat)
qed

text \<open>What \<open>recv(1024)\<close> and \<open>recvfrom(1024)\<close> keep of a datagram.\<close>

definition recv_1024 :: "byte list \<Rightarrow> byte list" where
  "recv_1024 data = take 1024 data"

lemma recv_1024_all [simp]: "length data \<le> 1024 \<Longrightarrow> recv_1024 data = data"
  by (simp add: recv_1024_def)

lemma decode_encode [simp]: "py_ascii s \<Longrightarrow> py_decode (py_encode s) = Inr s"
  by (auto simp: py_decode_def py_encode_def py_ascii_def list_all_iff intro: map_idI)

lemma length_encode [simp]: "length (py_encode s) = length s"
  by (simp add: py_encode_def)

lemma encode_append: "py_encode (a @ b) = py_encode a @ py_encode b"
  by (simp add: py_encode_def)

lemma encode_Nil_iff [simp]: "py_encode s = [] \<longleftrightarrow> s = []"
  by (simp add: py_encode_def)

lemma py_ascii_append [simp]: "py_ascii (a @ b) \<longleftrightarrow> py_ascii a \<and> py_ascii b"
  by (auto simp: py_ascii_def)

lemma py_ascii_Cons [simp]: "py_ascii (c # s) \<longleftrightarrow> (of_char c :: nat) < 128 \<and> py_ascii s"
  by (auto simp: py_ascii_def)

lemma py_ascii_Nil [simp]: "py_ascii []"
  by (simp add: py_ascii_def)

lemma py_ascii_int [simp]: "py_ascii (py_str_int i)"
proof -
  have "(of_char c :: nat) < 128" if "numeral_char c" for c
    using that by (auto simp: numeral_char_def)
  then show ?thesis
    using py_str_int_numeral by (auto simp: py_ascii_def)
qed

end
