(* ===== verification/Experiments.thy ===== *)
theory Experiments
  imports Raft_Validity Raft_Scenarios Py_Text
begin

text \<open>
  The experiment scripts: \<^verbatim>\<open>src/test.py\<close>, \<^verbatim>\<open>src/network_test.py\<close>, \<^verbatim>\<open>src/network_test2.py\<close>,
  \<^verbatim>\<open>src/network_test_churn.py\<close> and \<open>test_failures\<close> of \<^verbatim>\<open>src/raft/raft.py\<close>. Each one builds
  nodes, starts them and talks to them through the public interface, while the threads of
  the nodes, their processes and the network go on by themselves.
\<close>

section \<open>A script and the group\<close>

text \<open>
  What a script cannot choose: what the group does between two of its statements, in the
  \<open>k\<close>-th such moment; in which moments the user presses Ctrl-C; the random numbers; the
  clocks; and whether two equal values are the same object, which is what \<open>is\<close> asks.
\<close>

record world =
  rest :: "nat \<Rightarrow> system \<Rightarrow> system"
  interrupted :: "nat \<Rightarrow> bool"
  chance :: "nat \<Rightarrow> rat"
  system_time :: "nat \<Rightarrow> rat"
  same_object :: "nat \<Rightarrow> bool"
  timeout_draw :: "string \<Rightarrow> rat"
  node_clock :: "string \<Rightarrow> nat \<Rightarrow> rat"
  past_old_div :: "int \<Rightarrow> int \<Rightarrow> int"

datatype line = Value pyval | Time rat | Text string

record lab =
  group :: system
  moments :: nat
  book_files :: "string \<rightharpoonup> address_book"
  printed :: "line list"

type_synonym 'a script = "(lab, 'a) py"

definition meanwhile :: "world \<Rightarrow> unit script" where
  "meanwhile w =
     bnd (gets moments) (\<lambda>k.
     seq (modify (\<lambda>s. s\<lparr>group := rest w k (group s), moments := Suc k\<rparr>))
     (if interrupted w k then raise KeyboardInterrupt else ret ()))"

text \<open>A call of a method of node \<open>i\<close>.\<close>

definition on_node :: "world \<Rightarrow> string \<Rightarrow> 'a raft \<Rightarrow> 'a script" where
  "on_node w i m =
     seq (meanwhile w) (\<lambda>s. case m (nodes (group s) i) of (r, n) \<Rightarrow> (r, s\<lparr>group := set_node i n (group s)\<rparr>))"

definition print_line :: "line \<Rightarrow> unit script" where
  "print_line l = modify (\<lambda>s. s\<lparr>printed := printed s @ [l]\<rparr>)"

definition print_time :: "world \<Rightarrow> rat \<Rightarrow> unit script" where
  "print_time w unit = bnd (gets moments) (\<lambda>k. print_line (Time (system_time w k / unit)))"

text \<open>
  \<open>RaftNode(config, name)\<close> followed by \<open>start()\<close>. A thread that has been started first
  sleeps for the backoff of its listener, so it does not move before the script waits.
\<close>

definition construct :: "world \<Rightarrow> config \<Rightarrow> string \<Rightarrow> string script" where
  "construct w config name =
     (\<lambda>s. case RaftNode_init (book_files s) config name Follower (timeout_draw w name) (node_clock w name)
              (past_old_div w) of
            Inl e \<Rightarrow> (Inl e, s)
          | Inr n \<Rightarrow> (Inr (my_id n), s\<lparr>group := set_node (my_id n) n (group s)\<rparr>))"

definition start_thread :: "string \<Rightarrow> unit script" where
  "start_thread i = modify (\<lambda>s. s\<lparr>group := (group s)\<lparr>threads := (threads (group s))(i := Dispatch)\<rparr>\<rparr>)"

definition request_value :: "world \<Rightarrow> string \<Rightarrow> pyval \<Rightarrow> unit script" where
  "request_value w i v = on_node w i (client_request v (PyInt (- 1)))"

definition committed :: "world \<Rightarrow> string \<Rightarrow> pyval script" where
  "committed w i = on_node w i (check_committed_entry PyNone)"

definition stop_node :: "world \<Rightarrow> string \<Rightarrow> unit script" where
  "stop_node w i = on_node w i (modify RaftNode_stop)"

text \<open>\<open>{'val': v}\<close>\<close>

definition val_dict :: "pyval \<Rightarrow> pyval" where
  "val_dict v = PyDict [(''val'', v)]"

section \<open>The local test\<close>

definition test_book :: address_book where
  "test_book =
     [(''node0'', \<lparr>ip = ''127.0.0.1'', port = ''5567''\<rparr>), (''node1'', \<lparr>ip = ''127.0.0.1'', port = ''5566''\<rparr>),
      (''node2'', \<lparr>ip = ''127.0.0.1'', port = ''5565''\<rparr>), (''node3'', \<lparr>ip = ''127.0.0.1'', port = ''5564''\<rparr>)]"

fun launch :: "world \<Rightarrow> config \<Rightarrow> string list \<Rightarrow> string list script" where
  "launch w config [] = ret []"
| "launch w config (name # names) =
     bnd (construct w config name) (\<lambda>i. seq (start_thread i) (bnd (launch w config names) (\<lambda>is. ret (i # is))))"

definition test_script :: "world \<Rightarrow> unit script" where
  "test_script w =
     bnd (launch w (ConfigDict test_book) (map fst test_book)) (\<lambda>ns.
     seq (meanwhile w)
     (seq (for_each [0..<5] (\<lambda>val. bnd (lift_result (py_getitem ns 0)) (\<lambda>n. request_value w n (val_dict (PyInt (int val))))))
     (seq (meanwhile w)
     (seq (for_each ns (\<lambda>n. bnd (committed w n) (\<lambda>v. print_line (Value v))))
     (for_each ns (stop_node w))))))"

section \<open>The network tests\<close>

definition network_test_book :: address_book where
  "network_test_book =
     [(''01'', \<lparr>ip = ''172.22.151.96'', port = ''5567''\<rparr>), (''02'', \<lparr>ip = ''172.22.153.5'', port = ''5566''\<rparr>),
      (''03'', \<lparr>ip = ''172.22.154.232'', port = ''5565''\<rparr>), (''04'', \<lparr>ip = ''172.22.151.210'', port = ''5564''\<rparr>)]"

definition network_test :: "world \<Rightarrow> string \<Rightarrow> unit script" where
  "network_test w nm =
     seq (print_time w 1)
     (seq (print_line (Text nm))
     (bnd (construct w (ConfigDict network_test_book) nm) (\<lambda>me.
     seq (start_thread me)
     (seq (meanwhile w)
     (seq (request_value w me (val_dict (PyStr nm)))
     (seq (meanwhile w)
     (bnd (committed w me) (\<lambda>v.
     seq (print_line (Value v))
     (seq (print_time w 1)
     (stop_node w me))))))))))"

text \<open>
  \<open>while (1)\<close> with a local variable: a pass returns to leave the loop or goes on. A loop
  that is never left has no result.
\<close>

partial_function (option) while_true ::
  "('l \<Rightarrow> ('s, 'l flow) py) \<Rightarrow> 'l \<Rightarrow> 's \<Rightarrow> ((py_error + unit) \<times> 's) option" where
  "while_true body l s =
     (case body l s of
        (Inl e, t) \<Rightarrow> Some (Inl e, t)
      | (Inr Return, t) \<Rightarrow> Some (Inr (), t)
      | (Inr (Continue l'), t) \<Rightarrow> while_true body l' t)"

definition and_then ::
  "('s, 'a) py \<Rightarrow> ('a \<Rightarrow> 's \<Rightarrow> ((py_error + 'b) \<times> 's) option) \<Rightarrow> 's \<Rightarrow> ((py_error + 'b) \<times> 's) option" where
  "and_then m f s = (case m s of (Inl e, t) \<Rightarrow> Some (Inl e, t) | (Inr a, t) \<Rightarrow> f a t)"

definition on_interrupt :: "('s, 'a) py \<Rightarrow> ('s, 'a) py \<Rightarrow> ('s, 'a) py" where
  "on_interrupt m h = (\<lambda>s. case m s of (Inl KeyboardInterrupt, t) \<Rightarrow> h t | rt \<Rightarrow> rt)"

text \<open>
  \<open>last_entry\<close> is the bound method itself at first, which is no entry. Two values that are
  the same object are equal.
\<close>

definition is_not :: "world \<Rightarrow> nat \<Rightarrow> pyval \<Rightarrow> pyval option \<Rightarrow> bool" where
  "is_not w k v last_entry = (case last_entry of None \<Rightarrow> True | Some u \<Rightarrow> \<not> (same_object w k \<and> v = u))"

definition report_change :: "world \<Rightarrow> rat \<Rightarrow> string \<Rightarrow> pyval option \<Rightarrow> pyval option script" where
  "report_change w unit me last_entry =
     bnd (committed w me) (\<lambda>v.
     bnd (gets moments) (\<lambda>k.
     if is_not w k v last_entry then
       bnd (committed w me) (\<lambda>l.
       bnd (committed w me) (\<lambda>p.
       seq (print_line (Value p))
       (seq (print_time w unit)
       (ret (Some l)))))
     else ret last_entry))"

definition watch_pass :: "world \<Rightarrow> string \<Rightarrow> pyval option \<Rightarrow> pyval option flow script" where
  "watch_pass w me last_entry =
     on_interrupt
       (bnd (report_change w 1 me last_entry) (\<lambda>l. seq (meanwhile w) (ret (Continue l))))
       (seq (stop_node w me) (ret Return))"

definition churn_pass :: "world \<Rightarrow> rat \<Rightarrow> string \<Rightarrow> pyval option \<Rightarrow> pyval option flow script" where
  "churn_pass w probability me last_entry =
     on_interrupt
       (bnd (report_change w 1000000 me last_entry) (\<lambda>l.
        seq (meanwhile w)
        (bnd (gets (\<lambda>s. chance w (moments s))) (\<lambda>churn.
        seq (when_py (churn < probability)
              (seq (on_node w me pause) (seq (meanwhile w) (on_node w me un_pause))))
        (ret (Continue l))))))
       (seq (stop_node w me) (seq (print_line (Text ''KeyboardInterrupt'')) (ret Return)))"

text \<open>What the two long experiments do before their loops.\<close>

definition first_report :: "world \<Rightarrow> rat \<Rightarrow> string \<Rightarrow> string \<Rightarrow> unit script" where
  "first_report w unit nm me =
     seq (request_value w me (val_dict (PyStr nm)))
     (bnd (committed w me) (\<lambda>v.
     seq (print_line (Value v))
     (print_time w unit)))"

definition begin_watching :: "world \<Rightarrow> rat \<Rightarrow> address_book \<Rightarrow> string \<Rightarrow> string script" where
  "begin_watching w unit ab nm =
     seq (print_time w unit)
     (seq (print_line (Text nm))
     (bnd (construct w (ConfigDict ab) nm) (\<lambda>me.
     seq (start_thread me)
     (seq (first_report w unit nm me)
     (ret me)))))"

definition network_test2_book :: address_book where
  "network_test2_book =
     map (\<lambda>(n, a). (n, \<lparr>ip = a, port = ''5567''\<rparr>))
       [(''01'', ''172.22.151.96''), (''02'', ''172.22.153.5''), (''03'', ''172.22.154.232''),
        (''04'', ''172.22.151.210''), (''05'', ''172.22.151.97''), (''06'', ''172.22.153.6''),
        (''07'', ''172.22.154.233''), (''08'', ''172.22.151.211''), (''09'', ''172.22.151.98''),
        (''10'', ''172.22.153.7''), (''11'', ''172.22.154.234''), (''12'', ''172.22.151.212''),
        (''13'', ''172.22.151.99''), (''14'', ''172.22.153.8''), (''15'', ''172.22.154.235''),
        (''16'', ''172.22.151.213''), (''17'', ''172.22.151.100''), (''18'', ''172.22.153.9''),
        (''19'', ''172.22.154.236''), (''20'', ''172.22.151.214'')]"

definition network_test2 :: "world \<Rightarrow> string \<Rightarrow> lab \<Rightarrow> ((py_error + unit) \<times> lab) option" where
  "network_test2 w nm =
     and_then (begin_watching w 1 network_test2_book nm) (\<lambda>me s.
       case while_true (\<lambda>_. seq (meanwhile w) (ret (Continue ()))) () s of
         None \<Rightarrow> None
       | Some (Inl e, t) \<Rightarrow> Some (Inl e, t)
       | Some (Inr _, t) \<Rightarrow> and_then (print_time w 1000000000) (\<lambda>_. while_true (watch_pass w me) None) t)"

definition churn_book :: address_book where
  "churn_book =
     map (\<lambda>(n, a). (n, \<lparr>ip = a, port = ''5567''\<rparr>))
       [(''01'', ''172.22.151.96''), (''02'', ''172.22.153.5''), (''03'', ''172.22.154.232''),
        (''04'', ''172.22.151.210''), (''05'', ''172.22.151.97''), (''06'', ''172.22.153.6''),
        (''07'', ''172.22.154.233''), (''08'', ''172.22.151.211'')]"

definition network_test_churn :: "world \<Rightarrow> string \<Rightarrow> rat \<Rightarrow> lab \<Rightarrow> ((py_error + unit) \<times> lab) option" where
  "network_test_churn w nm probability =
     and_then (begin_watching w 1000000 churn_book nm) (\<lambda>me. while_true (churn_pass w probability me) None)"

section \<open>The test of failures\<close>

definition total_nodes :: int where "total_nodes = 1"
definition local_ip :: string where "local_ip = ''127.0.0.1''"
definition start_port :: int where "start_port = 5557"
definition address_book_fname :: string where "address_book_fname = ''address_book.json''"

definition failure_name :: "int \<Rightarrow> string" where
  "failure_name node_num = ''node'' @ py_str_int node_num"

definition failure_book :: "int \<Rightarrow> address_book" where
  "failure_book how_many =
     (''leader'', \<lparr>ip = local_ip, port = ''5553''\<rparr>)
     # map (\<lambda>k. (failure_name (k + 1), \<lparr>ip = local_ip, port = py_str_int (start_port + k)\<rparr>)) [0..how_many - 1]"

fun construct_all :: "world \<Rightarrow> config \<Rightarrow> string list \<Rightarrow> string list script" where
  "construct_all w config [] = ret []"
| "construct_all w config (name # names) =
     bnd (construct w config name) (\<lambda>i. bnd (construct_all w config names) (\<lambda>is. ret (i # is)))"

text \<open>The nodes whose role is \<open>'leader'\<close>, in order.\<close>

fun with_leader_role :: "world \<Rightarrow> string list \<Rightarrow> string list script" where
  "with_leader_role w [] = ret []"
| "with_leader_role w (n # ns) =
     bnd (on_node w n check_role) (\<lambda>r. bnd (with_leader_role w ns) (\<lambda>ls. ret (if r = Leader then n # ls else ls)))"

fun pause_some :: "world \<Rightarrow> int \<Rightarrow> string list \<Rightarrow> unit script" where
  "pause_some w num_to_kill [] = ret ()"
| "pause_some w num_to_kill (n # ns) =
     (if num_to_kill - 1 = 0 then ret ()
      else seq (on_node w n pause) (pause_some w (num_to_kill - 1) ns))"

definition test_failures :: "world \<Rightarrow> int \<Rightarrow> unit script" where
  "test_failures w how_many =
     seq (modify (\<lambda>s. s\<lparr>book_files := (book_files s)(address_book_fname \<mapsto> failure_book how_many)\<rparr>))
     (bnd (construct_all w (ConfigFile address_book_fname) (map (\<lambda>k. failure_name (k + 1)) [0..how_many - 1])) (\<lambda>ns.
     seq (for_each ns start_thread)
     (seq (meanwhile w)
     (seq (for_each [0..<10] (\<lambda>i. bnd (lift_result (py_getitem ns 0)) (\<lambda>n. request_value w n (PyInt (int i)))))
     (seq (meanwhile w)
     (bnd (with_leader_role w ns) (\<lambda>ls.
     bnd (lift_result (py_getitem ls 0)) (\<lambda>l.
     seq (on_node w l pause)
     (bnd (ret (past_old_div w how_many 2 - 1)) (\<lambda>num_to_kill.
     seq (pause_some w num_to_kill ns)
     (seq (meanwhile w)
     (seq (for_each ns (\<lambda>n. on_node w n un_pause))
     (seq (meanwhile w)
     (for_each ns (stop_node w)))))))))))))))"

end
