(* ===== verification/Experiment_Results.thy ===== *)
theory Experiment_Results
  imports Experiments Raft_Requests
begin

text \<open>
  What the experiment scripts record: whatever the group does in the meantime, a committed
  entry they print was asked for; when they end; and how many nodes \<open>test_failures\<close> pauses.
\<close>

section \<open>Scripts keep the group a group\<close>

definition lab_ok :: "(pyval \<Rightarrow> pyval) \<Rightarrow> address_book \<Rightarrow> pyval set \<Rightarrow> lab \<Rightarrow> bool" where
  "lab_ok tr ab R s \<longleftrightarrow>
     asked tr ab R (group s) \<and> (\<forall>v. Value v \<in> set (printed s) \<longrightarrow> v \<in> own_values \<union> R)"

lemma print_line_ok:
  "(\<And>v. l = Value v \<Longrightarrow> v \<in> own_values \<union> R) \<Longrightarrow> always (preserving (lab_ok tr ab R)) (print_line l)"
  by (rule preservingI) (auto simp: print_line_def wp lab_ok_def)

lemma print_time_ok: "always (preserving (lab_ok tr ab R)) (print_time w u)"
  unfolding print_time_def by (intro preserving.frame_intros print_line_ok) simp

lemma on_interrupt_frame:
  assumes "always (preserving P) m" and "always (preserving P) h"
  shows "always (preserving P) (on_interrupt m h)"
proof (rule preservingI)
  fix s
  assume "P s"
  then show "wp (on_interrupt m h) (\<lambda>_. P) (\<lambda>_. P) s"
    using always_run [OF assms(1), of s] always_run [OF assms(2)]
    by (auto simp: on_interrupt_def wp_def preserving_def split: prod.splits sum.splits py_error.splits)
qed

text \<open>
  The other devices run their own copies of a script: constructed and started, the node of
  this one completes a run of the group.
\<close>

definition joins :: "(pyval \<Rightarrow> pyval) \<Rightarrow> address_book \<Rightarrow> pyval set \<Rightarrow> world \<Rightarrow> string \<Rightarrow> lab \<Rightarrow> bool" where
  "joins tr ab R w nm s \<longleftrightarrow>
     (\<forall>n. RaftNode_init (book_files s) (ConfigDict ab) nm Follower (timeout_draw w nm) (node_clock w nm) (past_old_div w) = Inr n \<longrightarrow>
        asked tr ab R ((set_node (my_id n) n (group s))\<lparr>threads := (threads (group s))(my_id n := Dispatch)\<rparr>))"

text \<open>Every entry printed so far was asked for, whatever has become of the group.\<close>

definition valid_lines :: "pyval set \<Rightarrow> lab \<Rightarrow> bool" where
  "valid_lines R s \<longleftrightarrow> (\<forall>v. Value v \<in> set (printed s) \<longrightarrow> v \<in> own_values \<union> R)"

lemma lab_ok_valid: "lab_ok tr ab R s \<Longrightarrow> valid_lines R s"
  by (simp add: lab_ok_def valid_lines_def)

lemma lab_ok_after:
  "always (preserving (lab_ok tr ab R)) m \<Longrightarrow> lab_ok tr ab R s \<Longrightarrow>
     (\<And>a t. lab_ok tr ab R t \<Longrightarrow> Q a t) \<Longrightarrow> (\<And>e t. lab_ok tr ab R t \<Longrightarrow> E e t) \<Longrightarrow> wp m Q E s"
  by (erule wp_mono [OF alwaysD]) (auto simp: preserving_def)

lemma constructed_member:
  assumes "RaftNode_init files (ConfigDict ab) nm r draw clk od = Inr n" and "map_of ab ''leader'' = None"
  shows "my_id n \<in> set (member_addresses ab)"
  using assms map_of_SomeD [of ab nm]
  by (force simp: RaftNode_init_def Let_def member_addresses_def split: option.splits)

text \<open>A node takes part once it has been constructed and started.\<close>

lemma join_wp:
  assumes "joins tr ab R w nm s" and "map_of ab ''leader'' = None" and "valid_lines R s" and "\<And>e. E e s"
    and "\<And>me t. me \<in> set (member_addresses ab) \<Longrightarrow> lab_ok tr ab R t \<Longrightarrow> wp (f me) Q E t"
  shows "wp (bnd (construct w (ConfigDict ab) nm) (\<lambda>me. seq (start_thread me) (f me))) Q E s"
proof -
  have "wp (construct w (ConfigDict ab) nm) (\<lambda>me t. me \<in> set (member_addresses ab)
        \<and> lab_ok tr ab R (t\<lparr>group := (group t)\<lparr>threads := (threads (group t))(me := Dispatch)\<rparr>\<rparr>)) E s"
    using assms(1,3,4) constructed_member [OF _ assms(2)]
    by (auto simp: construct_def wp_def joins_def lab_ok_def valid_lines_def set_node_def split: sum.split)
  then show ?thesis
    unfolding wp_bnd by (rule wp_mono) (auto simp: start_thread_def wp intro: assms(5))
qed

text \<open>What the sources rely on: left to itself, the group makes steps of the group.\<close>

locale schedule =
  fixes tr :: "pyval \<Rightarrow> pyval" and ab :: address_book and R :: "pyval set" and w :: world
  assumes wire: "json_wire tr"
    and idle: "asked tr ab R s \<Longrightarrow> asked tr ab R (rest w k s)"
begin

lemma meanwhile_ok: "always (preserving (lab_ok tr ab R)) (meanwhile w)"
  by (rule preservingI) (auto simp: meanwhile_def wp lab_ok_def idle)

lemma on_node_ok:
  assumes "\<And>s. asked tr ab R s \<Longrightarrow> asked tr ab R (set_node i (snd (m (nodes s i))) s)"
  shows "always (preserving (lab_ok tr ab R)) (on_node w i m)"
proof -
  have "always (preserving (lab_ok tr ab R))
      (\<lambda>s. case m (nodes (group s) i) of (r, n) \<Rightarrow> (r, s\<lparr>group := set_node i n (group s)\<rparr>))"
    by (rule preservingI) (auto simp: wp_def lab_ok_def split_beta assms split: sum.splits)
  then show ?thesis
    unfolding on_node_def by (intro preserving.seq_frame meanwhile_ok)
qed

lemma quiet_on_node_ok:
  assumes "\<And>s. env_step tr (member_addresses ab) s (set_node i (snd (m (nodes s i))) s)"
    and "\<And>n. client_queue (snd (m n)) = client_queue n"
  shows "always (preserving (lab_ok tr ab R)) (on_node w i m)"
proof (rule on_node_ok)
  fix s
  assume "asked tr ab R s"
  then show "asked tr ab R (set_node i (snd (m (nodes s i))) s)"
    using assms(1) by (rule asked.env) (simp add: set_node_def assms(2))
qed

lemma stop_pause_ok:
  assumes "i \<in> set (member_addresses ab)"
  shows "always (preserving (lab_ok tr ab R)) (stop_node w i)"
    and "always (preserving (lab_ok tr ab R)) (on_node w i pause)"
    and "always (preserving (lab_ok tr ab R)) (on_node w i un_pause)"
  unfolding stop_node_def
  using assms env_step.stopping [of i _ tr] env_step.pausing [of i _ tr] env_step.unpausing [of i _ tr]
  by (intro quiet_on_node_ok;
      simp add: pause_def un_pause_def set_current_role_def check_role_def RaftNode_stop_def py_run)+

lemma request_ok:
  assumes "i \<in> set (member_addresses ab)" and "json_plain v" and "v \<in> R"
  shows "always (preserving (lab_ok tr ab R)) (request_value w i v)"
  unfolding request_value_def
  by (rule on_node_ok) (use assms in \<open>auto simp: plain_request_def intro!: asked.request\<close>)

text \<open>A committed entry that is asked for was requested, and so may be printed.\<close>

lemma committed_wp:
  assumes i: "i \<in> set (member_addresses ab)" and s: "lab_ok tr ab R s"
  shows "wp (committed w i) (\<lambda>v t. lab_ok tr ab R t \<and> v \<in> own_values \<union> R \<and> printed t = printed s)
    (\<lambda>e t. lab_ok tr ab R t \<and> (e = IndexError \<or> e = KeyboardInterrupt)) s"
proof -
  have "wp (meanwhile w) (\<lambda>_ t. lab_ok tr ab R t \<and> printed t = printed s)
      (\<lambda>e t. lab_ok tr ab R t \<and> (e = IndexError \<or> e = KeyboardInterrupt)) s"
    using s by (auto simp: meanwhile_def wp lab_ok_def idle)
  moreover have "wp (\<lambda>s. case check_committed_entry PyNone (nodes (group s) i) of
        (r, n) \<Rightarrow> (r, s\<lparr>group := set_node i n (group s)\<rparr>))
      (\<lambda>v t'. lab_ok tr ab R t' \<and> v \<in> own_values \<union> R \<and> printed t' = printed s)
      (\<lambda>e t. lab_ok tr ab R t \<and> (e = IndexError \<or> e = KeyboardInterrupt)) t"
    if t: "lab_ok tr ab R t \<and> printed t = printed s" for t
  proof -
    have "snd (check_committed_entry PyNone (nodes (group t) i)) = nodes (group t) i"
      and "fst (check_committed_entry PyNone (nodes (group t) i)) = Inl e \<Longrightarrow> e = IndexError" for e
      by (auto simp: check_committed_entry_def py_run py_getitem_def Let_def split: sum.splits if_splits)
    then show ?thesis
      using t asked_committed [of tr ab R "group t" i, OF _ wire i]
      by (auto simp: wp_def lab_ok_def set_node_def split: prod.split sum.split)
  qed
  ultimately show ?thesis
    unfolding committed_def on_node_def wp_seq by (auto elim: wp_mono)
qed

lemma committed_ok:
  assumes "i \<in> set (member_addresses ab)"
    and "\<And>v. v \<in> own_values \<union> R \<Longrightarrow> always (preserving (lab_ok tr ab R)) (f v)"
  shows "always (preserving (lab_ok tr ab R)) (bnd (committed w i) f)"
  by (rule preserving_bnd) (auto intro!: wp_mono [OF committed_wp [OF assms(1)]] assms(2))

lemma report_change_ok:
  assumes "me \<in> set (member_addresses ab)"
  shows "always (preserving (lab_ok tr ab R)) (report_change w u me l)"
  unfolding report_change_def
  by (intro committed_ok [OF assms] preserving.if_frame preserving.bnd_frame preserving.gets_frame preserving.seq_frame
        preserving.ret_frame print_time_ok print_line_ok) simp

lemma churn_pass_ok:
  assumes me: "me \<in> set (member_addresses ab)"
  shows "always (preserving (lab_ok tr ab R)) (churn_pass w p me l)"
  unfolding churn_pass_def
  by (intro on_interrupt_frame preserving.frame_intros report_change_ok stop_pause_ok meanwhile_ok print_line_ok me) simp

lemma first_report_ok:
  assumes "me \<in> set (member_addresses ab)" and "val_dict (PyStr nm) \<in> R"
  shows "always (preserving (lab_ok tr ab R)) (first_report w u nm me)"
  unfolding first_report_def using assms
  by (intro preserving.seq_frame request_ok committed_ok print_line_ok print_time_ok) (auto simp: val_dict_def)

lemma begin_watching_wp:
  assumes joins: "joins tr ab R w nm s" and book: "map_of ab ''leader'' = None" and R: "val_dict (PyStr nm) \<in> R"
    and old: "valid_lines R s"
  shows "wp (begin_watching w u ab nm) (\<lambda>me t. me \<in> set (member_addresses ab) \<and> lab_ok tr ab R t)
    (\<lambda>_. valid_lines R) s"
  unfolding begin_watching_def print_time_def print_line_def wp_seq wp_bnd [of "gets _"] wp_gets wp_modify
  by (rule join_wp)
     (use assms in \<open>auto simp: wp joins_def valid_lines_def elim: lab_ok_valid
        intro!: lab_ok_after [OF first_report_ok]\<close>)

lemma network_test_wp:
  assumes "joins tr network_test_book R w nm s" and "val_dict (PyStr nm) \<in> R" and "valid_lines R s"
    and ab: "ab = network_test_book"
  shows "wp (network_test w nm) (\<lambda>_. lab_ok tr ab R) (\<lambda>_. valid_lines R) s"
proof -
  let ?f = "\<lambda>me. seq (meanwhile w) (seq (request_value w me (val_dict (PyStr nm))) (seq (meanwhile w)
     (bnd (committed w me) (\<lambda>v. seq (print_line (Value v)) (seq (print_time w 1) (stop_node w me))))))"
  have "always (preserving (lab_ok tr ab R)) (?f me)" if "me \<in> set (member_addresses ab)" for me
    using that assms(2)
    by (intro preserving.seq_frame meanwhile_ok request_ok committed_ok print_line_ok print_time_ok stop_pause_ok)
       (auto simp: val_dict_def)
  moreover have "map_of ab ''leader'' = None"
    by (simp add: ab network_test_book_def)
  ultimately show ?thesis
    using assms(1,3) unfolding network_test_def print_time_def print_line_def wp_seq wp_bnd [of "gets _"] wp_gets wp_modify ab
    by (intro join_wp) (auto simp: joins_def valid_lines_def elim: lab_ok_valid intro!: lab_ok_after)
qed

end

section \<open>The loops\<close>

lemma while_true_preserves:
  fixes body :: "'l \<Rightarrow> ('s, 'l flow) py"
  assumes "while_true body l s = Some (r, t)" and "P s" and body: "\<And>l. always (preserving P) (body l)"
  shows "P t"
proof -
  have "while_true b l s = Some rt \<Longrightarrow> b = body \<longrightarrow> P s \<longrightarrow> P (snd rt)" for b l and s :: 's and rt
  proof (erule while_true.raw_induct [rotated], goal_cases)
    case (1 loop b l s rt)
    then show ?case
      using always_run [OF body, of l s]
      by (cases rt) (auto simp: preserving_def split: prod.splits sum.splits flow.splits)
  qed
  from this [OF assms(1)] assms(2) show ?thesis
    by simp
qed

text \<open>A loop whose passes go on only below some bound on a counter ends.\<close>

lemma while_true_ends:
  fixes count :: "'s \<Rightarrow> nat"
  assumes pass: "\<And>l s. count s \<le> k \<Longrightarrow>
      wp (body l) (\<lambda>fl t. fl = Return \<or> count s < count t \<and> count t \<le> k) (\<lambda>_ _. True) s"
    and "count s \<le> k"
  shows "\<exists>r t. while_true body l s = Some (r, t)"
  using assms(2)
proof (induction "k - count s" arbitrary: l s rule: less_induct)
  case less
  show ?case
  proof (cases "body l s")
    case (Pair r t)
    with pass [OF less.prems, of l] less.prems less.hyps [of t] show ?thesis
      by (subst while_true.simps) (auto simp: wp_def split: sum.splits flow.splits)
  qed
qed

section \<open>Moments\<close>

text \<open>If Ctrl-C is pressed in moment \<open>k\<close>, nothing returns after it.\<close>

definition timely :: "nat \<Rightarrow> 'a script \<Rightarrow> bool" where
  "timely k m \<longleftrightarrow> (\<forall>s. moments s \<le> k \<longrightarrow> wp m (\<lambda>_ t. moments s \<le> moments t \<and> moments t \<le> k) (\<lambda>_ _. True) s)"

lemma timelyD: "timely k m \<Longrightarrow> moments s \<le> k \<Longrightarrow> wp m (\<lambda>_ t. moments s \<le> moments t \<and> moments t \<le> k) (\<lambda>_ _. True) s"
  by (simp add: timely_def)

lemma timely_bnd:
  assumes "timely k m" and "\<And>a. timely k (f a)"
  shows "timely k (bnd m f)"
  unfolding timely_def wp_bnd
proof (intro allI impI)
  fix s :: lab
  assume "moments s \<le> k"
  then show "wp m (\<lambda>a. wp (f a) (\<lambda>_ t. moments s \<le> moments t \<and> moments t \<le> k) (\<lambda>_ _. True)) (\<lambda>_ _. True) s"
    by (intro wp_mono [OF timelyD [OF assms(1)]]) (auto intro: wp_mono [OF timelyD [OF assms(2)]])
qed

lemma timely_seq: "timely k m \<Longrightarrow> timely k n \<Longrightarrow> timely k (seq m n)"
  by (simp add: seq_def timely_bnd)

lemma timely_simple:
  "timely k (ret a)" "timely k (gets f)" "timely k (print_line l)" "timely k (print_time w u)"
  "timely k m \<Longrightarrow> timely k n \<Longrightarrow> timely k (if c then m else n)"
  "timely k m' \<Longrightarrow> timely k (when_py c m')"
  by (auto simp: timely_def wp print_line_def print_time_def)

lemma meanwhile_strictly:
  assumes "interrupted w k" and "moments s \<le> k"
  shows "wp (meanwhile w) (\<lambda>_ t. moments s < moments t \<and> moments t \<le> k) (\<lambda>_ _. True) s"
  using assms by (cases "moments s = k") (auto simp: meanwhile_def wp)

lemma timely_meanwhile: "interrupted w k \<Longrightarrow> timely k (meanwhile w)"
  unfolding timely_def by (auto intro: wp_mono [OF meanwhile_strictly])

lemma timely_on_node: "interrupted w k \<Longrightarrow> timely k (on_node w i m)"
  unfolding on_node_def
  by (rule timely_seq [OF timely_meanwhile]) (auto simp: timely_def wp_def split: prod.splits sum.splits)

lemma wp_on_interrupt:
  assumes "wp m Q (\<lambda>_ _. True) s" and "\<And>t. wp h Q (\<lambda>_ _. True) t"
  shows "wp (on_interrupt m h) Q (\<lambda>_ _. True) s"
proof (cases "m s")
  case (Pair r t)
  with assms(1) assms(2) [of t] show ?thesis
    by (auto simp: on_interrupt_def wp_def split: sum.split py_error.split)
qed

lemmas timely_intros = timely_bnd timely_seq timely_simple timely_meanwhile timely_on_node

lemma churn_pass_timely:
  assumes k: "interrupted w k" and "moments s \<le> k"
  shows "wp (churn_pass w p me l) (\<lambda>fl t. fl = Return \<or> moments s < moments t \<and> moments t \<le> k) (\<lambda>_ _. True) s"
proof -
  let ?rest = "\<lambda>l. bnd (gets (\<lambda>s. chance w (moments s))) (\<lambda>churn.
        seq (when_py (churn < p) (seq (on_node w me pause) (seq (meanwhile w) (on_node w me un_pause))))
        (ret (Continue l)))"
  have "wp (bnd (report_change w 1000000 me l) (\<lambda>l. seq (meanwhile w) (?rest l)))
      (\<lambda>_ t. moments s < moments t \<and> moments t \<le> k) (\<lambda>_ _. True) s"
  proof -
    have "timely k (report_change w 1000000 me l)"
      unfolding report_change_def committed_def using k by (intro timely_intros)
    moreover have "wp (?rest l') (\<lambda>_ t. moments s < moments t \<and> moments t \<le> k) (\<lambda>_ _. True) u"
      if "moments s \<le> j" "j < moments u" "moments u \<le> k" for l' j u
    proof -
      have "timely k (?rest l')"
        using k by (intro timely_intros)
      from timelyD [OF this that(3)] show ?thesis
        by (rule wp_mono) (use that(1,2) in simp_all)
    qed
    ultimately show ?thesis
      unfolding wp_bnd [of "report_change _ _ _ _"] wp_seq [of "meanwhile _"]
      by (intro wp_mono [OF timelyD [OF _ assms(2)]] wp_mono [OF meanwhile_strictly [OF k]]) auto
  qed
  then have "wp (bnd (report_change w 1000000 me l) (\<lambda>l. seq (meanwhile w) (?rest l)))
      (\<lambda>fl t. fl = Return \<or> moments s < moments t \<and> moments t \<le> k) (\<lambda>_ _. True) s"
    by (rule wp_mono) simp_all
  then show ?thesis
    unfolding churn_pass_def
    by (rule wp_on_interrupt) (simp add: wp_def seq_def bnd_def ret_def split: prod.split sum.split)
qed

lemma begin_watching_timely: "interrupted w k \<Longrightarrow> timely k (begin_watching w u ab nm)"
  unfolding begin_watching_def first_report_def request_value_def committed_def
  by (intro timely_intros) (auto simp: timely_def construct_def start_thread_def wp_def modify_def split: sum.split)

section \<open>The local test\<close>

definition launched :: "address_book \<Rightarrow> system \<Rightarrow> string \<Rightarrow> bool" where
  "launched ab g i \<longleftrightarrow>
     threads g i = Dispatch \<and> my_id (nodes g i) = i
     \<and> (\<exists>name draw clk od. name \<noteq> ''leader'' \<and>
          RaftNode_init Map.empty (ConfigDict ab) name Follower draw clk od = Inr (nodes g i))"

lemma launch_one:
  assumes "nm \<noteq> ''leader''" and "map_of ab nm = Some a"
  shows "wp (construct w (ConfigDict ab) nm) (\<lambda>i t. i = address_of a
      \<and> (\<forall>j. j = i \<or> launched ab (group s) j \<longrightarrow> launched ab ((group t)\<lparr>threads := (threads (group t))(i := Dispatch)\<rparr>) j)
      \<and> wires (group t) = wires (group s) \<and> printed t = printed s) (\<lambda>_ _. False) s"
proof -
  obtain n where n: "RaftNode_init Map.empty (ConfigDict ab) nm Follower (timeout_draw w nm) (node_clock w nm) (past_old_div w) = Inr n"
      "my_id n = address_of a"
    using assms(2) by (simp add: RaftNode_init_def Let_def)
  then have "RaftNode_init (book_files s) (ConfigDict ab) nm Follower (timeout_draw w nm) (node_clock w nm) (past_old_div w) = Inr n"
    by (simp add: RaftNode_init_def)
  then have run: "construct w (ConfigDict ab) nm s = (Inr (address_of a), s\<lparr>group := set_node (address_of a) n (group s)\<rparr>)"
    by (simp add: construct_def n(2))
  let ?g = "(set_node (address_of a) n (group s))\<lparr>threads := (threads (group s))(address_of a := Dispatch)\<rparr>"
  have "launched ab ?g (address_of a)"
    using n assms(1) by (auto simp: launched_def set_node_def)
  moreover have "launched ab ?g j" if "launched ab (group s) j" "j \<noteq> address_of a" for j
    using that by (auto simp: launched_def set_node_def)
  ultimately have "\<forall>j. j = address_of a \<or> launched ab (group s) j \<longrightarrow> launched ab ?g j"
    by blast
  then show ?thesis
    by (simp add: wp_def run set_node_def)
qed

lemma launch_wp:
  assumes "\<And>nm. nm \<in> set names \<Longrightarrow> nm \<noteq> ''leader'' \<and> map_of ab nm \<noteq> None"
  shows "wp (launch w (ConfigDict ab) names) (\<lambda>ns t. ns = map (\<lambda>nm. address_of (the (map_of ab nm))) names
      \<and> (\<forall>j. j \<in> set ns \<or> launched ab (group s) j \<longrightarrow> launched ab (group t) j)
      \<and> wires (group t) = wires (group s) \<and> printed t = printed s) (\<lambda>_ _. False) s"
  using assms
proof (induction names arbitrary: s)
  case (Cons nm names)
  then obtain a where nm: "nm \<noteq> ''leader''" "map_of ab nm = Some a"
    by auto
  show ?case
    unfolding launch.simps wp_bnd [of "construct _ _ _"] wp_seq start_thread_def wp_modify
    by (rule wp_mono [OF launch_one [OF nm, of w s]])
       (use nm Cons.prems in \<open>auto simp: wp_bnd wp_ret intro!: wp_mono [OF Cons.IH]\<close>)
qed (simp add: wp)

text \<open>
  A computation that prints \<open>k\<close> lines, unless Ctrl-C or the \<open>IndexError\<close> of a node without a
  committed entry ends it.
\<close>

definition prints :: "(pyval \<Rightarrow> pyval) \<Rightarrow> address_book \<Rightarrow> pyval set \<Rightarrow> nat \<Rightarrow> unit script \<Rightarrow> bool" where
  "prints tr ab R k m \<longleftrightarrow>
     (\<forall>s. lab_ok tr ab R s \<longrightarrow>
        wp m (\<lambda>_ t. lab_ok tr ab R t \<and> length (printed t) = length (printed s) + k)
          (\<lambda>e t. lab_ok tr ab R t \<and> (e = IndexError \<or> e = KeyboardInterrupt)) s)"

lemma printsD:
  "prints tr ab R k m \<Longrightarrow> lab_ok tr ab R s \<Longrightarrow>
     wp m (\<lambda>_ t. lab_ok tr ab R t \<and> length (printed t) = length (printed s) + k)
       (\<lambda>e t. lab_ok tr ab R t \<and> (e = IndexError \<or> e = KeyboardInterrupt)) s"
  by (simp add: prints_def)

lemma prints_seq:
  assumes "prints tr ab R j m" and "prints tr ab R k m'"
  shows "prints tr ab R (j + k) (seq m m')"
  unfolding prints_def wp_seq
  by (intro allI impI, rule wp_mono [OF printsD [OF assms(1)]], assumption)
     (auto intro!: wp_mono [OF printsD [OF assms(2)]])

lemma prints_loop:
  "(\<And>x. x \<in> set xs \<Longrightarrow> prints tr ab R k (f x)) \<Longrightarrow> prints tr ab R (length xs * k) (for_each xs f)"
proof (induction xs)
  case (Cons x xs)
  then show ?case
    using prints_seq [of tr ab R k "f x" "length xs * k" "for_each xs f"] by simp
qed (simp add: prints_def wp)

lemma prints_node:
  assumes "always (preserving (lab_ok tr ab R)) (on_node w i m)" and "\<And>n. \<exists>a n'. m n = (Inr a, n')"
  shows "prints tr ab R 0 (on_node w i m)"
  unfolding prints_def
proof (intro allI impI)
  fix s
  assume s: "lab_ok tr ab R s"
  obtain a n' where "m (nodes (rest w (moments s) (group s)) i) = (Inr a, n')"
    using assms(2) by blast
  then have "wp (on_node w i m) (\<lambda>_ t. printed t = printed s) (\<lambda>e _. e = KeyboardInterrupt) s"
    by (simp add: on_node_def meanwhile_def wp) (simp add: wp_def)
  with alwaysD [OF assms(1), of s]
  have "wp (on_node w i m) (\<lambda>_ t. preserving (lab_ok tr ab R) s t \<and> printed t = printed s)
      (\<lambda>e t. preserving (lab_ok tr ab R) s t \<and> e = KeyboardInterrupt) s"
    by (simp add: wp_conj)
  then show "wp (on_node w i m) (\<lambda>_ t. lab_ok tr ab R t \<and> length (printed t) = length (printed s) + 0)
      (\<lambda>e t. lab_ok tr ab R t \<and> (e = IndexError \<or> e = KeyboardInterrupt)) s"
    by (rule wp_mono) (use s in \<open>auto simp: preserving_def\<close>)
qed

lemma bnd_lift_Inr: "bnd (lift_result (Inr x)) f = f x"
  by (simp add: fun_eq_iff bnd_def lift_result_def)

context schedule
begin

lemma prints_meanwhile: "prints tr ab R 0 (meanwhile w)"
  using idle by (auto simp: prints_def meanwhile_def wp lab_ok_def)

lemma prints_request:
  assumes "i \<in> set (member_addresses ab)" and "json_plain v" and "v \<in> R"
  shows "prints tr ab R 0 (request_value w i v)"
  unfolding request_value_def
  by (rule prints_node [OF request_ok [OF assms, unfolded request_value_def]]) (simp add: client_request_def py_run)

lemma prints_stop: "i \<in> set (member_addresses ab) \<Longrightarrow> prints tr ab R 0 (stop_node w i)"
  unfolding stop_node_def
  by (rule prints_node [OF stop_pause_ok(1) [unfolded stop_node_def]]) (simp_all add: py_run)

lemma prints_committed:
  assumes "i \<in> set (member_addresses ab)"
  shows "prints tr ab R 1 (bnd (committed w i) (\<lambda>v. print_line (Value v)))"
  unfolding prints_def wp_bnd
  by (intro allI impI, rule wp_mono [OF committed_wp [OF assms]], assumption)
     (auto simp: print_line_def wp lab_ok_def)

end

lemma test_launch:
  assumes "\<forall>i j. wires (group s) i j = []" and "printed s = []"
  shows "wp (launch w (ConfigDict test_book) (map fst test_book))
    (\<lambda>ns t. ns = member_addresses test_book \<and> lab_ok tr test_book R t \<and> printed t = []) (\<lambda>_ _. False) s"
proof (rule wp_mono [OF launch_wp])
  show "nm \<noteq> ''leader'' \<and> map_of test_book nm \<noteq> None" if "nm \<in> set (map fst test_book)" for nm
    using that by (auto simp: test_book_def)
  fix ns and t :: lab
  assume t: "ns = map (\<lambda>nm. address_of (the (map_of test_book nm))) (map fst test_book)
    \<and> (\<forall>j. j \<in> set ns \<or> launched test_book (group s) j \<longrightarrow> launched test_book (group t) j)
    \<and> wires (group t) = wires (group s) \<and> printed t = printed s"
  then have "ns = member_addresses test_book"
    by (simp add: test_book_def member_addresses_def)
  moreover from this t assms(1) have "started test_book (group t)"
    by (auto simp: started_def launched_def)
  ultimately show "ns = member_addresses test_book \<and> lab_ok tr test_book R t \<and> printed t = []"
    using t assms(2) by (auto simp: lab_ok_def intro: asked.start)
qed simp

section \<open>The loop that only sleeps\<close>

lemma idle_loop_silent:
  assumes "while_true (\<lambda>_. seq (meanwhile w) (ret (Continue ()))) () s = Some rt"
  shows "\<exists>k \<ge> moments s. interrupted w k"
proof -
  have "while_true b l s = Some rt \<Longrightarrow> b = (\<lambda>_. seq (meanwhile w) (ret (Continue ()))) \<longrightarrow> (\<exists>k \<ge> moments s. interrupted w k)"
    for b l and s :: lab and rt
  proof (erule while_true.raw_induct [rotated], goal_cases)
    case (1 loop b l s rt)
    show ?case
    proof (cases "interrupted w (moments s)")
      case False
      let ?t = "s\<lparr>group := rest w (moments s) (group s), moments := Suc (moments s)\<rparr>"
      from 1(2) False have "b = (\<lambda>_. seq (meanwhile w) (ret (Continue ()))) \<Longrightarrow> loop b () ?t = Some rt"
        by (simp add: meanwhile_def py_run)
      from 1(1) [OF this] show ?thesis
        by (auto dest: Suc_leD)
    qed auto
  qed
  from this [OF assms] show ?thesis
    by simp
qed

lemma idle_loop_interrupted:
  "interrupted w k \<Longrightarrow> moments s \<le> k \<Longrightarrow>
     \<exists>t. while_true (\<lambda>_. seq (meanwhile w) (ret (Continue ()))) () s = Some (Inl KeyboardInterrupt, t) \<and> printed t = printed s"
proof (induction "k - moments s" arbitrary: s)
  case 0
  then show ?case
    by (subst while_true.simps) (simp add: meanwhile_def py_run)
next
  case (Suc d)
  let ?t = "s\<lparr>group := rest w (moments s) (group s), moments := Suc (moments s)\<rparr>"
  show ?case
  proof (cases "interrupted w (moments s)")
    case True
    then show ?thesis
      by (subst while_true.simps) (simp add: meanwhile_def py_run)
  next
    case False
    have "\<exists>t. while_true (\<lambda>_. seq (meanwhile w) (ret (Continue ()))) () ?t = Some (Inl KeyboardInterrupt, t) \<and> printed t = printed ?t"
      using Suc by (intro Suc(1)) simp_all
    then show ?thesis
      using False by (subst while_true.simps) (simp add: meanwhile_def py_run)
  qed
qed

section \<open>Schedules\<close>

text \<open>A world in which the group plays a schedule in every moment.\<close>

definition playing :: "address_book \<Rightarrow> pyval set \<Rightarrow> (nat \<Rightarrow> move list) \<Rightarrow> world \<Rightarrow> world" where
  "playing ab R plan w = w\<lparr>rest := \<lambda>k. fold play (filter (allowed ab R) (plan k))\<rparr>"

interpretation played: schedule json_norm ab R "playing ab R plan w" for ab R plan w
  by standard (simp_all add: playing_def json_wire_norm play_allowed)

text \<open>A world in which nothing happens but an interrupt, and a bench with all nodes launched.\<close>

definition still_world :: world where
  "still_world =
     \<lparr>rest = \<lambda>k s. s, interrupted = \<lambda>k. 5 \<le> k, chance = \<lambda>k. 0, system_time = of_nat, same_object = \<lambda>k. True,
      timeout_draw = \<lambda>nm. 0, node_clock = \<lambda>nm. of_nat, past_old_div = (div)\<rparr>"

definition empty_lab :: lab where
  "empty_lab =
     \<lparr>group = \<lparr>threads = \<lambda>i. Stopped, nodes = \<lambda>i. fresh_node ''node1'' i, wires = \<lambda>i j. []\<rparr>,
      moments = 0, book_files = Map.empty, printed = []\<rparr>"

definition bench :: "address_book \<Rightarrow> lab" where
  "bench ab = snd (launch still_world (ConfigDict ab) (map fst ab) empty_lab)"

lemma launched_joins:
  assumes "\<forall>i \<in> set (member_addresses ab). launched ab (group s) i" and "\<forall>i j. wires (group s) i j = []"
    and "map_of ab ''leader'' = None" and "map_of ab nm = Some a"
  shows "joins tr ab R w nm s"
proof -
  have "nm \<noteq> ''leader''"
    using assms(3,4) by auto
  from launch_one [OF this assms(4), of w s] assms(1,2) show ?thesis
    by (auto simp: joins_def construct_def wp_def started_def launched_def intro!: asked.start split: sum.splits)
qed

lemma bench_joins:
  assumes "map_of ab ''leader'' = None" and "distinct (map fst ab)" and "map_of ab nm = Some a"
  shows "joins tr ab R w nm (bench ab)" and "printed (bench ab) = []"
proof -
  have "nm \<noteq> ''leader'' \<and> map_of ab nm \<noteq> None" if "nm \<in> set (map fst ab)" for nm
    using that assms(1) by (force simp: map_of_eq_None_iff)
  from launch_wp [OF this, where s = empty_lab and w = still_world]
  obtain ns where "ns = map (\<lambda>nm. address_of (the (map_of ab nm))) (map fst ab)"
      "\<forall>j \<in> set ns. launched ab (group (bench ab)) j" "\<forall>i j. wires (group (bench ab)) i j = []" "printed (bench ab) = []"
    by (fastforce simp: bench_def wp_def empty_lab_def split: prod.splits sum.splits)
  then have "launched ab (group (bench ab)) i" if "i \<in> set (member_addresses ab)" for i
    using that assms(2) by (force simp: member_addresses_def)
  with \<open>\<forall>i j. wires (group (bench ab)) i j = []\<close> show "joins tr ab R w nm (bench ab)"
    by (intro launched_joins [OF _ _ assms(1,3)]) blast+
  show "printed (bench ab) = []"
    by fact
qed

section \<open>Properties\<close>

text \<open>
  C38. The churn experiment ends when Ctrl-C is pressed, whatever its node, the group, the
  network and the random numbers do; and every committed entry it has recorded by then is
  an entry of the program's own or was asked for.
\<close>

theorem churn_records_requests:
  assumes "schedule tr churn_book R w" and "joins tr churn_book R w nm s" and "val_dict (PyStr nm) \<in> R"
    and "\<forall>v. Value v \<notin> set (printed s)" and "interrupted w k" and "moments s \<le> k"
  shows "\<exists>r t. network_test_churn w nm p s = Some (r, t)
     \<and> (\<forall>v. Value v \<in> set (printed t) \<longrightarrow> v \<in> {PyStr ''Init Entry'', PyStr ''Leader Entry''} \<union> R)"
proof -
  have book: "map_of churn_book ''leader'' = None"
    by (simp add: churn_book_def)
  have start: "wp (begin_watching w 1000000 churn_book nm)
      (\<lambda>me t. me \<in> set (member_addresses churn_book) \<and> lab_ok tr churn_book R t) (\<lambda>_. valid_lines R) s"
    by (rule schedule.begin_watching_wp [OF assms(1,2) book assms(3)]) (simp add: valid_lines_def assms(4))
  have early: "wp (begin_watching w 1000000 churn_book nm) (\<lambda>_ t. moments t \<le> k) (\<lambda>_ _. True) s"
    by (rule wp_mono [OF timelyD [OF begin_watching_timely [OF assms(5)] assms(6)]]) simp_all
  show ?thesis
  proof (cases "begin_watching w 1000000 churn_book nm s")
    case (Pair r t)
    show ?thesis
    proof (cases r)
      case (Inl e)
      with Pair start show ?thesis
        by (auto simp: network_test_churn_def and_then_def wp_def valid_lines_def own_values_def)
    next
      case (Inr me)
      with Pair start early have me: "me \<in> set (member_addresses churn_book)" "lab_ok tr churn_book R t" "moments t \<le> k"
        by (simp_all add: wp_def)
      obtain r' t' where run: "while_true (churn_pass w p me) None t = Some (r', t')"
        using while_true_ends [where count = moments and body = "churn_pass w p me", OF churn_pass_timely [OF assms(5)] me(3)]
        by blast
      have "lab_ok tr churn_book R t'"
        by (rule while_true_preserves [OF run me(2) schedule.churn_pass_ok [OF assms(1) me(1)]])
      with Pair Inr run show ?thesis
        by (auto simp: network_test_churn_def and_then_def lab_ok_def own_values_def)
    qed
  qed
qed

theorem churn_records_requests_witness:
  "\<exists>r t. network_test_churn (playing churn_book {val_dict (PyStr ''01'')} (\<lambda>k. []) still_world) ''01'' (1/2) (bench churn_book) = Some (r, t)
     \<and> (\<forall>v. Value v \<in> set (printed t) \<longrightarrow> v \<in> {PyStr ''Init Entry'', PyStr ''Leader Entry''} \<union> {val_dict (PyStr ''01'')})"
proof (rule churn_records_requests [OF played.schedule_axioms])
  have book: "map_of churn_book ''leader'' = None" "distinct (map fst churn_book)"
      "map_of churn_book ''01'' = Some \<lparr>ip = ''172.22.151.96'', port = ''5567''\<rparr>"
    by (simp_all add: churn_book_def)
  show "joins json_norm churn_book {val_dict (PyStr ''01'')} (playing churn_book {val_dict (PyStr ''01'')} (\<lambda>k. []) still_world)
      ''01'' (bench churn_book)" and "\<forall>v. Value v \<notin> set (printed (bench churn_book))"
    using bench_joins [OF book] by simp_all
  show "interrupted (playing churn_book {val_dict (PyStr ''01'')} (\<lambda>k. []) still_world) (moments (bench churn_book) + 5)"
    by (simp add: playing_def still_world_def)
qed simp_all

text \<open>
  The second network test watches nothing: once it has made its first report it sleeps
  in a loop that only Ctrl-C can end, and Ctrl-C ends the script there, with nothing more
  printed and the node not stopped by it. The loop that would watch the log comes after.
\<close>

theorem network_test2_never_watches:
  assumes "begin_watching w 1 network_test2_book nm s = (Inr me, u)"
  shows "if \<exists>k \<ge> moments u. interrupted w k
    then \<exists>t. network_test2 w nm s = Some (Inl KeyboardInterrupt, t) \<and> printed t = printed u
    else network_test2 w nm s = None"
proof -
  let ?loop = "while_true (\<lambda>_. seq (meanwhile w) (ret (Continue ()))) () u"
  have run: "network_test2 w nm s = (case ?loop of None \<Rightarrow> None | Some (Inl e, t) \<Rightarrow> Some (Inl e, t)
      | Some (Inr _, t) \<Rightarrow> and_then (print_time w 1000000000) (\<lambda>_. while_true (watch_pass w me) None) t)"
    by (simp add: network_test2_def and_then_def assms)
  show ?thesis
  proof (cases "\<exists>k \<ge> moments u. interrupted w k")
    case True
    then obtain t where "?loop = Some (Inl KeyboardInterrupt, t)" "printed t = printed u"
      using idle_loop_interrupted by blast
    with True run show ?thesis
      by simp
  next
    case False
    then have "?loop = None"
      using idle_loop_silent [of w u] by (cases ?loop) auto
    with False run show ?thesis
      by simp
  qed
qed

theorem network_test2_never_watches_witness:
  "\<exists>me u t. begin_watching still_world 1 network_test2_book ''01'' empty_lab = (Inr me, u)
     \<and> network_test2 still_world ''01'' empty_lab = Some (Inl KeyboardInterrupt, t) \<and> length (printed t) = 4"
proof -
  obtain me u where u: "begin_watching still_world 1 network_test2_book ''01'' empty_lab = (Inr me, u)" "length (printed u) = 4"
    using that by (simp add: begin_watching_def first_report_def still_world_def empty_lab_def network_test2_book_def
        construct_def start_thread_def request_value_def committed_def on_node_def meanwhile_def print_time_def
        print_line_def RaftNode_init_def Let_def py_run client_request_def check_committed_entry_def address_of_def
        set_node_def init_entry_def queue_put_def)
  have "\<exists>k \<ge> moments u. interrupted still_world k"
    by (intro exI [of _ "moments u + 5"]) (simp add: still_world_def)
  with network_test2_never_watches [OF u(1)] u show ?thesis
    by auto
qed

text \<open>
  The loop of \<open>test_failures\<close> that is to pause some of the nodes, with its countdown at
  \<open>k\<close>: if \<open>k\<close> is positive, the loop pauses the first \<open>k - 1\<close> nodes (it leaves when the
  countdown reaches zero, before it pauses); if not, the countdown never meets zero, and the
  loop pauses every node.
\<close>

theorem pause_some_is:
  "pause_some w k ns = for_each (if 1 \<le> k then take (nat (k - 1)) ns else ns) (\<lambda>n. on_node w n pause)"
proof (induction ns arbitrary: k)
  case (Cons n ns)
  show ?case
  proof (cases "2 \<le> k")
    case True
    then have "nat (k - 1) = Suc (nat (k - 1 - 1))"
      by simp
    with True Cons show ?thesis
      by simp
  qed (use Cons in auto)
qed simp

text \<open>
  The local test, over every schedule of its four nodes: if it is not cut short it
  prints one committed entry per node, each an entry of the program's own or one that was
  asked for; and nothing but Ctrl-C or the \<open>IndexError\<close> of a committal beyond a log can
  cut it short.
\<close>

theorem test_prints_one_entry_per_node:
  assumes "schedule tr test_book R w" and "\<forall>v < 5. val_dict (PyInt (int v)) \<in> R"
    and "\<forall>i j. wires (group s) i j = []" and "printed s = []"
  shows "\<exists>r t. test_script w s = (r, t)
     \<and> (\<forall>v. Value v \<in> set (printed t) \<longrightarrow> v \<in> {PyStr ''Init Entry'', PyStr ''Leader Entry''} \<union> R)
     \<and> (case r of Inr _ \<Rightarrow> length (printed t) = 4 | Inl e \<Rightarrow> e = IndexError \<or> e = KeyboardInterrupt)"
proof -
  let ?ids = "member_addresses test_book"
  have ids: "length ?ids = 4" "py_getitem ?ids 0 = Inr (hd ?ids)" "hd ?ids \<in> set ?ids"
    by (simp_all add: member_addresses_def test_book_def)
  let ?ask = "for_each [0..<5] (\<lambda>val. bnd (lift_result (py_getitem ?ids 0)) (\<lambda>n. request_value w n (val_dict (PyInt (int val)))))"
  let ?print = "for_each ?ids (\<lambda>n. bnd (committed w n) (\<lambda>v. print_line (Value v)))"
  let ?stop = "for_each ?ids (stop_node w)"
  have "prints tr test_book R (length [0..<5 :: nat] * 0) ?ask"
    using assms(2) by (intro prints_loop) (auto simp: ids bnd_lift_Inr val_dict_def intro!: schedule.prints_request [OF assms(1)])
  moreover have "prints tr test_book R (length ?ids * 1) ?print"
    by (intro prints_loop schedule.prints_committed [OF assms(1)])
  moreover have "prints tr test_book R (length ?ids * 0) ?stop"
    by (intro prints_loop schedule.prints_stop [OF assms(1)])
  moreover note schedule.prints_meanwhile [OF assms(1)]
  ultimately have run: "prints tr test_book R (0 + (length [0..<5 :: nat] * 0 + (0 + (length ?ids * 1 + length ?ids * 0))))
      (seq (meanwhile w) (seq ?ask (seq (meanwhile w) (seq ?print ?stop))))"
    by (intro prints_seq)
  have rest: "wp (seq (meanwhile w) (seq ?ask (seq (meanwhile w) (seq ?print ?stop))))
      (\<lambda>_ t. lab_ok tr test_book R t \<and> length (printed t) = 4)
      (\<lambda>e t. lab_ok tr test_book R t \<and> (e = IndexError \<or> e = KeyboardInterrupt)) t"
    if "lab_ok tr test_book R t" "printed t = []" for t
    by (rule wp_mono [OF printsD [OF run that(1)]]) (use that(2) ids(1) in simp_all)
  have "wp (test_script w) (\<lambda>_ t. lab_ok tr test_book R t \<and> length (printed t) = 4)
      (\<lambda>e t. lab_ok tr test_book R t \<and> (e = IndexError \<or> e = KeyboardInterrupt)) s"
    unfolding test_script_def wp_bnd [of "launch _ _ _"]
    by (rule wp_mono [OF test_launch [OF assms(3,4)]]) (use rest in blast)+
  then show ?thesis
    by (cases "test_script w s") (auto simp: wp_def lab_ok_def own_values_def split: sum.splits)
qed

theorem test_prints_one_entry_per_node_witness:
  "\<exists>r t. test_script (playing test_book {val_dict (PyInt v) | v. 0 \<le> v \<and> v < 5} (\<lambda>k. []) still_world) empty_lab = (r, t)
     \<and> (\<forall>v. Value v \<in> set (printed t) \<longrightarrow>
          v \<in> {PyStr ''Init Entry'', PyStr ''Leader Entry''} \<union> {val_dict (PyInt v) | v. 0 \<le> v \<and> v < 5})
     \<and> (case r of Inr _ \<Rightarrow> length (printed t) = 4 | Inl e \<Rightarrow> e = IndexError \<or> e = KeyboardInterrupt)"
  by (rule test_prints_one_entry_per_node [OF played.schedule_axioms]) (auto simp: empty_lab_def)

end
