(* ===== verification/Raft_Hazards.thy ===== *)
theory Raft_Hazards
  imports Raft_Behaviour
begin

text \<open>
  Where the replication of the code differs from what its comments and its tests expect:
  an acknowledgement does not say which entry it is for, a committal is taken without a
  look at the log, and an id that is a tuple does not survive the wire.
\<close>

section \<open>Acknowledgements\<close>

lemma acknowledged_pending:
  assumes "acknowledged True i k s t" and "i < length (next_index s)" and "k + 1 < int (length (rlog s))"
  shows "next_index t ! i = Some (k + 1)" and "match_index t = (match_index s)[i := k]" and "rlog t = rlog s"
  using assms by (auto simp: acknowledged_def Let_def ack_next_index_def)

lemma ack_message_facts:
  "msg_sender (ack_message r g s) = PyStr (my_id s)"
  "py_eq_int (msg_type (ack_message r g s)) MessageType_Acknowledge"
  "results_success (msg_results (ack_message r g s)) = Inr (PyBool g)"
  "my_id s \<in> set ids \<Longrightarrow> wf_message ids (ack_message r g s)"
  by (simp_all add: message_defs message_type_defs)

text \<open>The follower's log after the same entry once and twice.\<close>

lemma with_entry_log:
  assumes "rlog f = take (nat k) lg" and "1 \<le> k" and "k < int (length lg)"
  shows "rlog (with_entry lc (k - 1) (lg ! nat k) f) = take (nat k + 1) lg"
    and "rlog (with_entry lc (k - 1) (lg ! nat k) (sent m (with_entry lc (k - 1) (lg ! nat k) f))) = take (nat k + 1) lg"
  using assms by (simp_all add: take_Suc_conv_app_nth min_def)

section \<open>Properties\<close>

text \<open>
  A resent entry is counted twice: when the leader offers a follower the same entry
  \<open>k\<close> once more before its acknowledgement is in, the follower acknowledges both, and the
  leader takes the second acknowledgement for the entry after, which the follower does not
  have; its match index, by which entries are committed, is then beyond the follower's log.
\<close>

theorem resent_entry_is_counted_twice:
  assumes lead: "leading ids s" and ids: "distinct ids" and i: "i < length ids" and me: "my_id f = ids ! i"
    and pending: "next_index s ! i = Some k" and more: "k + 1 < int (length (rlog s))"
    and log: "rlog f = take (nat k) (rlog s)" and tm: "current_term f \<le> current_term s"
    and hash: "py_hashable (e_id (rlog s ! nat k))"
  defines "offer \<equiv> offer_message (current_term s) (my_id s) (commit_index s) (k - 1)
      (e_term (rlog s ! nat (k - 1))) (rlog s ! nat k) (PyStr (ids ! i)) (stamp s)"
  shows "\<exists>f' ack ack' s'.
      seq (follower_append_entries offer) (follower_append_entries offer) f = (Inr (), f')
    \<and> t_messages (node_talker f') = t_messages (node_talker f) @ [jsonify ack, jsonify ack']
    \<and> seq (leader_acknowledge ack) (leader_acknowledge ack') s = (Inr (), s')
    \<and> rlog s' = rlog s \<and> match_index s' ! i = k + 1 \<and> int (length (rlog f')) = k + 1"
proof -
  let ?e = "rlog s ! nat k" and ?lid = "PyStr (my_id s)" and ?lc = "commit_index s"
  let ?w1 = "with_entry ?lc (k - 1) ?e f"
  let ?a1 = "ack_message ?lid True ?w1"
  let ?w2 = "with_entry ?lc (k - 1) ?e (sent ?a1 ?w1)"
  let ?a2 = "ack_message ?lid True ?w2"
  note lens = node_okD [OF conjunct1 [OF lead]]
  have "Some k \<in> set (next_index s)"
    using i pending lens(4) by (metis nth_mem)
  then have k: "1 \<le> k" "k < int (length (rlog s))"
    using lead by (auto simp: leader_ok_def)
  note logs = with_entry_log [OF log k]
  have prev: "rlog f ! nat (k - 1) = rlog s ! nat (k - 1)" "take (nat k + 1) (rlog s) ! nat (k - 1) = rlog s ! nat (k - 1)"
    using k by (simp_all add: log)
  have first: "follower_append_entries offer f = (Inr (), sent ?a1 ?w1)"
    using k log tm hash prev
    by (subst offer_def, subst follower_append_entries_run) (auto simp: acceptable_def)
  have second: "follower_append_entries offer (sent ?a1 ?w1) = (Inr (), sent ?a2 ?w2)"
    using k logs(1) tm hash prev
    by (subst offer_def, subst follower_append_entries_run) (auto simp: acceptable_def simp del: with_entry_simps(1))
  have ids1: "my_id ?w1 = ids ! i" "my_id ?w2 = ids ! i"
    using me by (simp_all add: with_entry_def Let_def)
  have member: "ids ! i \<in> set ids"
    using i by simp
  from leader_acknowledge_run [OF lead ack_message_facts(4,2) ids i _ ack_message_facts(3) pending, of ?w1 ?lid True]
  obtain s1 where s1: "leader_acknowledge ?a1 s = (Inr (), s1)" "leading ids s1" "acknowledged True i k s s1"
    using ids1 member by (auto simp: ack_message_facts)
  have after: "next_index s1 ! i = Some (k + 1)" "match_index s1 = (match_index s)[i := k]" "rlog s1 = rlog s"
    using acknowledged_pending [OF s1(3)] i lens(4) more by auto
  from leader_acknowledge_run [OF s1(2) ack_message_facts(4,2) ids i _ ack_message_facts(3) after(1), of ?w2 ?lid True]
  obtain s2 where s2: "leader_acknowledge ?a2 s1 = (Inr (), s2)" "acknowledged True i (k + 1) s1 s2"
    using ids1 member by (auto simp: ack_message_facts)
  have "rlog s2 = rlog s" "match_index s2 ! i = k + 1"
    using s2(2) after i lens(5) by (auto simp: acknowledged_def Let_def)
  moreover have "t_messages (node_talker ?w1) = t_messages (node_talker f)" "t_messages (node_talker ?w2) = t_messages (node_talker (sent ?a1 ?w1))"
    by (simp_all add: with_entry_def Let_def)
  ultimately show ?thesis
    using first second s1(1) s2(1) logs(2) k
    by (intro exI [of _ "sent ?a2 ?w2"] exI [of _ ?a1] exI [of _ ?a2] exI [of _ s2])
       (simp add: py_run del: with_entry_simps(1))
qed
definition busy_leader :: raft_node where
  "busy_leader = (fresh_node ''node1'' ''h:1'')
     \<lparr>current_role := Leader, current_term := 2, rlog := sample_log, next_index := [None, Some 2, Some 1],
      match_index := [2, 1, 0]\<rparr>"

lemma busy_leader_leads: "leading [''h:1'', ''h:2'', ''h:3''] busy_leader"
  by (simp add: busy_leader_def fresh_node_def sample_log_def node_ok_def leader_ok_def wf_entry_def init_entry_def
      Listener_init_def Talker_init_def)

theorem resent_entry_is_counted_twice_witness:
  "\<exists>f' ack ack' s'.
      seq (follower_append_entries (offer_message (current_term busy_leader) (my_id busy_leader) (commit_index busy_leader) (1 - 1)
             (e_term (rlog busy_leader ! nat (1 - 1))) (rlog busy_leader ! nat 1) (PyStr ([''h:1'', ''h:2'', ''h:3''] ! 2)) (stamp busy_leader)))
          (follower_append_entries (offer_message (current_term busy_leader) (my_id busy_leader) (commit_index busy_leader) (1 - 1)
             (e_term (rlog busy_leader ! nat (1 - 1))) (rlog busy_leader ! nat 1) (PyStr ([''h:1'', ''h:2'', ''h:3''] ! 2)) (stamp busy_leader)))
          (fresh_node ''node3'' ''h:3'') = (Inr (), f')
    \<and> t_messages (node_talker f') = t_messages (node_talker (fresh_node ''node3'' ''h:3'')) @ [jsonify ack, jsonify ack']
    \<and> seq (leader_acknowledge ack) (leader_acknowledge ack') busy_leader = (Inr (), s')
    \<and> rlog s' = rlog busy_leader \<and> match_index s' ! 2 = 1 + 1 \<and> int (length (rlog f')) = 1 + 1"
  by (rule resent_entry_is_counted_twice [OF busy_leader_leads])
     (simp_all add: busy_leader_def fresh_node_def sample_log_def)

text \<open>
  C25. An id that is a tuple kills the leader: the request of a client, made at a follower
  with a tuple for an id, reaches the leader with a list for an id; the leader appends the
  entry to its log and then dies of a \<open>TypeError\<close>, before it has offered it to anyone.
\<close>

theorem tuple_id_kills_the_leader:
  assumes "e_id e = PyTuple xs" and "json_plain r" and "json_plain (leader_id f)" and "rlog s \<noteq> []"
  shows "\<exists>m e'. parse_json_message (json_norm (jsonify (forward_message r e f))) = Inr (Some m)
     \<and> leader_handle m s = (Inl TypeError, s\<lparr>rlog := rlog s @ [e']\<rparr>)
     \<and> e_id e' = PyList (map json_norm xs)"
proof -
  let ?e = "\<lparr>e_term = e_term e, e_value = json_norm (e_value e), e_id = PyList (map json_norm xs)\<rparr>"
  let ?m = "forward_message r ?e f"
  have "json_norm (jsonify (forward_message r e f)) = jsonify ?m"
    using assms(1-3) by (simp add: message_defs entry_to_py_def append_entries_jsonify_def base_jsonify_def py_dict_update_def)
  moreover have "parse_json_message (jsonify ?m) = Inr (Some ?m)"
    by (rule parse_jsonify_message) (simp add: message_defs message_type_defs)
  moreover have "leader_handle ?m s = (Inl TypeError, s\<lparr>rlog := rlog s @ [?e]\<rparr>)"
    using assms(4)
    by (simp add: leader_handle_def message_defs message_type_defs entry_to_py_def entry_of_py_def
        py_subscript_def broadcast_append_entries_def append_entry_def py_run)
  ultimately show ?thesis
    by (intro exI [of _ ?m] exI [of _ ?e]) simp
qed

theorem tuple_id_kills_the_leader_witness:
  "\<exists>m e'. parse_json_message (json_norm (jsonify (forward_message (PyStr ''h:1'')
         \<lparr>e_term = 1, e_value = PyInt 5, e_id = PyTuple [PyStr ''client'', PyInt 7]\<rparr> (trio_node ''node2'')))) = Inr (Some m)
     \<and> leader_handle m trio_leader = (Inl TypeError, trio_leader\<lparr>rlog := rlog trio_leader @ [e']\<rparr>)
     \<and> e_id e' = PyList (map json_norm [PyStr ''client'', PyInt 7])"
  by (rule tuple_id_kills_the_leader) (simp_all add: fresh_node_def trio_leader_def)

text \<open>
  A committal is not checked against the log: the index a leader reports as committed
  becomes the follower's, whatever its log holds; if the log is too short, the client's next
  question for the last committed entry raises an \<open>IndexError\<close>.
\<close>

theorem committal_beyond_the_log:
  assumes "last_applied_index l \<ge> int (length (rlog f))"
  shows "\<exists>f'. follower_committal (committal_message r l) f = (Inr (), f')
     \<and> commit_index f' = last_applied_index l \<and> rlog f' = rlog f
     \<and> check_committed_entry PyNone f' = (Inl IndexError, f')"
  using assms
  by (simp add: follower_committal_def message_defs commit_entry_def check_committed_entry_def py_run)

theorem committal_beyond_the_log_witness:
  "\<exists>f'. follower_committal (committal_message PyNone (busy_leader\<lparr>last_applied_index := 2\<rparr>)) (fresh_node ''node3'' ''h:3'') = (Inr (), f')
     \<and> commit_index f' = last_applied_index (busy_leader\<lparr>last_applied_index := 2\<rparr>) \<and> rlog f' = rlog (fresh_node ''node3'' ''h:3'')
     \<and> check_committed_entry PyNone f' = (Inl IndexError, f')"
  by (rule committal_beyond_the_log) (simp add: fresh_node_def)

text \<open>Offering an entry and counting it as one's own changes neither log nor commit index.\<close>

definition same_answers :: "raft_node \<Rightarrow> raft_node \<Rightarrow> bool" where
  "same_answers s t \<longleftrightarrow> rlog t = rlog s \<and> log_hash t = log_hash s \<and> commit_index t = commit_index s"

interpretation answering: frame same_answers
  by standard (simp_all add: same_answers_def)

lemma same_answers_small:
  "always same_answers (send_append_entries i t e c)" "always same_answers (get_node_index a)"
  "always same_answers (modify (\<lambda>s. s\<lparr>next_index := n s\<rparr>))"
  "always same_answers (modify (\<lambda>s. s\<lparr>match_index := m s\<rparr>))"
  by (auto simp: always_def wp same_answers_def)

lemma same_answers_offers:
  "always same_answers (for_each xs (broadcast_append_node i t e))" "always same_answers update_own_indices"
  unfolding broadcast_append_node_def update_own_indices_def
  by (intro answering.frame_intros same_answers_small)+

text \<open>
  C37. Asked for an id, \<open>check_committed_entry\<close> does not look at what is committed: as soon
  as the leader has appended an entry, with the commit index where it was, the entry is
  returned for its id.
\<close>

theorem uncommitted_entry_is_reported:
  assumes "leading ids s" and "wf_entry e" and "e_id e \<noteq> PyNone"
  shows "\<exists>t. broadcast_append_entries e s = (Inr (), t)
     \<and> rlog t = rlog s @ [e] \<and> commit_index t = commit_index s
     \<and> check_committed_entry (e_id e) t = (Inr (entry_to_py e), t)"
proof -
  let ?s = "s\<lparr>rlog := rlog s @ [e], log_hash := (log_hash s)(py_hash_key (e_id e) \<mapsto> e)\<rparr>"
  have "wp (seq (for_each xs (broadcast_append_node i tm e)) update_own_indices)
      (\<lambda>_. same_answers ?s) (\<lambda>_. same_answers ?s) ?s" for xs i tm
    by (intro alwaysD answering.seq_frame same_answers_offers)
  then have "wp (broadcast_append_entries e) (\<lambda>_. same_answers ?s) (\<lambda>_. same_answers ?s) s"
    unfolding broadcast_append_entries_def wp_bnd [of "append_entry _ _ _"]
    by (intro wp_append_at_end [OF conjunct1 [OF assms(1)] assms(2)])
       (simp add: wp_bnd [of "gets _"] wp_gets)
  moreover obtain t where t: "broadcast_append_entries e s = (Inr (), t)"
    using wp_total [OF broadcast_append_entries_ok [of ids s e]] assms by auto
  ultimately have "same_answers ?s t"
    by (simp add: wp_def)
  then show ?thesis
    using t assms by (auto simp: same_answers_def check_committed_entry_def wf_entry_def py_run)
qed

theorem uncommitted_entry_is_reported_witness:
  "\<exists>t. broadcast_append_entries \<lparr>e_term = 1, e_value = PyStr ''x'', e_id = PyInt 7\<rparr> trio_leader = (Inr (), t)
     \<and> commit_index t = 0 \<and> length (rlog t) = 3
     \<and> fst (check_committed_entry (PyInt 7) t)
       = Inr (PyDict [(''term'', PyInt 1), (''entry'', PyStr ''x''), (''id'', PyInt 7)])"
proof -
  let ?e = "\<lparr>e_term = 1, e_value = PyStr ''x'', e_id = PyInt 7\<rparr>"
  from uncommitted_entry_is_reported [OF leading_trio_leader, of ?e] show ?thesis
    by (auto simp: wf_entry_def entry_to_py_def trio_leader_def fresh_node_def)
qed

end
