(* ===== verification/Commit_Log.thy ===== *)
theory Commit_Log
  imports Py_Text
begin

text \<open>
  \<^verbatim>\<open>src/commitlog.py\<close>: a file of lines \<open>term, command\<close> with the index and term of its
  last line kept in memory. Every method holds the object's lock from its first statement
  to its last, so a method is one step. The files are part of the state; a method that
  opens a missing file for reading raises. Terms are integers, commands the strings the
  format string makes of them.
\<close>

section \<open>The object and its file\<close>

record commit_log =
  cl_file :: string
  cl_last_term :: int
  cl_last_index :: int
  cl_disk :: "string \<Rightarrow> string option"

definition CommitLog_init :: "string \<Rightarrow> (string \<Rightarrow> string option) \<Rightarrow> commit_log" where
  "CommitLog_init file disk =
     \<lparr>cl_file = file, cl_last_term = 0, cl_last_index = - 1, cl_disk = disk\<rparr>"

definition get_last_index_term :: "(commit_log, int \<times> int) py" where
  "get_last_index_term = gets (\<lambda>s. (cl_last_index s, cl_last_term s))"

definition log_line :: "int \<Rightarrow> string \<Rightarrow> string" where
  "log_line term command = py_str_int term @ CHR '','' # CHR '' '' # command @ [CHR 0x0A]"

text \<open>\<open>open(file, 'a')\<close> creates a missing file; \<open>'r'\<close> and \<open>'r+'\<close> raise.\<close>

definition content :: "commit_log \<Rightarrow> string" where
  "content s = (case cl_disk s (cl_file s) of None \<Rightarrow> [] | Some c \<Rightarrow> c)"

definition set_content :: "string \<Rightarrow> commit_log \<Rightarrow> commit_log" where
  "set_content c s = s\<lparr>cl_disk := (cl_disk s)(cl_file s \<mapsto> c)\<rparr>"

definition open_existing :: "(commit_log, unit) py" where
  "open_existing =
     bnd (gets (\<lambda>s. cl_disk s (cl_file s))) (\<lambda>f.
     case f of None \<Rightarrow> raise FileNotFoundError | Some _ \<Rightarrow> ret ())"

definition CommitLog_log :: "int \<Rightarrow> string \<Rightarrow> (commit_log, int \<times> int) py" where
  "CommitLog_log term command =
     seq (modify (\<lambda>s. set_content (content s @ log_line term command) s))
     (seq (modify (\<lambda>s. s\<lparr>cl_last_term := term\<rparr>))
     (seq (modify (\<lambda>s. s\<lparr>cl_last_index := cl_last_index s + 1\<rparr>))
     get_last_index_term))"

section \<open>Replacing\<close>

text \<open>
  A write into a file opened with \<open>'r+'\<close>: at the position of the handle, over what is
  there. The loop keeps the handle's position as its last argument and returns it.
\<close>

definition write_at :: "nat \<Rightarrow> string \<Rightarrow> commit_log \<Rightarrow> commit_log" where
  "write_at pos w s = set_content (take pos (content s) @ w @ drop (pos + length w) (content s)) s"

function log_replace_loop ::
  "int \<Rightarrow> string list \<Rightarrow> int \<Rightarrow> int \<Rightarrow> nat \<Rightarrow> nat \<Rightarrow> (commit_log, nat) py" where
  "log_replace_loop term commands start index i pos =
     (if i < length commands then
        if index \<ge> start then
          seq (modify (write_at pos (log_line term (commands ! i))))
          (seq (modify (\<lambda>s. if index > cl_last_index s
                 then s\<lparr>cl_last_term := term, cl_last_index := index\<rparr> else s))
          (log_replace_loop term commands start (index + 1) (Suc i)
             (pos + length (log_line term (commands ! i)))))
        else log_replace_loop term commands start (index + 1) i pos
      else ret pos)"
  by auto

termination
  by (relation "measure (\<lambda>(term, commands, start, index, i, pos). (length commands - i) + nat (start - index))") auto

declare log_replace_loop.simps [simp del]

definition log_replace :: "int \<Rightarrow> string list \<Rightarrow> int \<Rightarrow> (commit_log, int \<times> int) py" where
  "log_replace term commands start =
     seq open_existing
     (seq (when_py (length commands > 0)
            (bnd (log_replace_loop term commands start 0 0 0) (\<lambda>pos.
             modify (\<lambda>s. set_content (take pos (content s)) s))))
     get_last_index_term)"

section \<open>Reading\<close>

text \<open>\<open>term, command = line.strip().split(",")\<close>: exactly two parts, or \<open>ValueError\<close>.\<close>

definition parse_line :: "string \<Rightarrow> py_error + string \<times> string" where
  "parse_line line =
     (case py_split CHR '','' (py_strip line) of
        [t, c] \<Rightarrow> Inr (t, c)
      | _ \<Rightarrow> Inl ValueError)"

fun parse_lines :: "string list \<Rightarrow> py_error + (string \<times> string) list" where
  "parse_lines [] = Inr []"
| "parse_lines (l # ls) =
     rbind (parse_line l) (\<lambda>p. rbind (parse_lines ls) (\<lambda>ps. Inr (p # ps)))"

definition read_log :: "(commit_log, (string \<times> string) list) py" where
  "read_log = seq open_existing (bnd (gets content) (\<lambda>c. lift_result (parse_lines (file_lines c))))"

text \<open>
  \<open>if end and index > end\<close>: an \<open>end\<close> of 0 is false and does not end the loop. The list is
  built and then dropped: the method has no \<open>return\<close>.
\<close>

fun parse_range :: "int \<Rightarrow> int option \<Rightarrow> int \<Rightarrow> string list \<Rightarrow> py_error + (string \<times> string) list" where
  "parse_range start last_one index [] = Inr []"
| "parse_range start last_one index (l # ls) =
     rbind (if index \<ge> start then rbind (parse_line l) (\<lambda>p. Inr [p]) else Inr []) (\<lambda>ps.
     if (case last_one of None \<Rightarrow> False | Some e \<Rightarrow> e \<noteq> 0 \<and> index + 1 > e) then Inr ps
     else rbind (parse_range start last_one (index + 1) ls) (\<lambda>qs. Inr (ps @ qs)))"

definition read_logs_start_end :: "int \<Rightarrow> int option \<Rightarrow> (commit_log, pyval) py" where
  "read_logs_start_end start last_one =
     seq open_existing
     (bnd (gets content) (\<lambda>c.
     bnd (lift_result (parse_range start last_one 0 (file_lines c))) (\<lambda>_. ret PyNone)))"

section \<open>Running the methods\<close>

lemma content_simps [simp]:
  "content (set_content c s) = c"
  "set_content c (set_content d s) = set_content c s"
  "content (s\<lparr>cl_last_term := t\<rparr>) = content s"
  "content (s\<lparr>cl_last_index := i\<rparr>) = content s"
  "cl_file (set_content c s) = cl_file s"
  "cl_disk (set_content c s) (cl_file s) = Some c"
  "cl_last_index (set_content c s) = cl_last_index s"
  "cl_last_term (set_content c s) = cl_last_term s"
  "(set_content c s)\<lparr>cl_last_index := i\<rparr> = set_content c (s\<lparr>cl_last_index := i\<rparr>)"
  "(set_content c s)\<lparr>cl_last_term := t\<rparr> = set_content c (s\<lparr>cl_last_term := t\<rparr>)"
  by (simp_all add: content_def set_content_def)

lemma CommitLog_log_run:
  "CommitLog_log t c s =
     (Inr (cl_last_index s + 1, t),
      set_content (content s @ log_line t c) (s\<lparr>cl_last_term := t, cl_last_index := cl_last_index s + 1\<rparr>))"
  by (simp add: CommitLog_log_def py_run get_last_index_term_def)

lemma open_existing_run:
  "open_existing s = (if cl_disk s (cl_file s) = None then Inl FileNotFoundError else Inr (), s)"
  by (auto simp: open_existing_def py_run split: option.split)

lemma read_log_run:
  "read_log s =
     (if cl_disk s (cl_file s) = None then Inl FileNotFoundError else parse_lines (file_lines (content s)), s)"
  by (simp add: read_log_def py_run open_existing_run)

text \<open>The effect of the replacing loop: what is left of the commands, at the handle.\<close>

definition after_lines :: "int \<Rightarrow> int \<Rightarrow> string list \<Rightarrow> commit_log \<Rightarrow> commit_log" where
  "after_lines term first cs s =
     (let l = first + int (length cs) - 1 in
      if cs \<noteq> [] \<and> l > cl_last_index s then s\<lparr>cl_last_term := term, cl_last_index := l\<rparr> else s)"

lemma after_lines_simps [simp]:
  "after_lines term first [] s = s"
  "content (after_lines term first cs s) = content s"
  "after_lines term first cs (set_content c s) = set_content c (after_lines term first cs s)"
  by (auto simp: after_lines_def Let_def)

lemma after_lines_Cons:
  "after_lines term i (c # cs) s =
     after_lines term (i + 1) cs (if i > cl_last_index s then s\<lparr>cl_last_term := term, cl_last_index := i\<rparr> else s)"
  by (cases cs) (auto simp: after_lines_def Let_def)

lemma set_content_same: "cl_disk s (cl_file s) \<noteq> None \<Longrightarrow> set_content (content s) s = s"
  by (auto simp: content_def set_content_def fun_upd_idem)

lemma cl_disk_after_lines [simp]:
  "cl_disk (after_lines term first cs s) = cl_disk s" "cl_file (after_lines term first cs s) = cl_file s"
  by (simp_all add: after_lines_def Let_def)

lemma log_replace_loop_run:
  assumes "pos \<le> length (content s)" and "i \<le> length commands" and "cl_disk s (cl_file s) \<noteq> None"
  shows "log_replace_loop term commands start index i pos s =
     (let rest = drop i commands; w = concat (map (log_line term) rest)
      in (Inr (pos + length w),
          after_lines term (max index start) rest
            (set_content (take pos (content s) @ w @ drop (pos + length w) (content s)) s)))"
  using assms
proof (induction "term" commands start index i pos arbitrary: s rule: log_replace_loop.induct)
  case (1 "term" commands start index i pos)
  show ?case
  proof (cases "i < length commands")
    case False
    with 1 show ?thesis
      by (subst log_replace_loop.simps) (simp add: py_run Let_def set_content_same)
  next
    case i: True
    then have rest: "drop i commands = commands ! i # drop (Suc i) commands"
      by (simp add: Cons_nth_drop_Suc)
    show ?thesis
    proof (cases "index \<ge> start")
      case False
      with i 1 show ?thesis
        by (subst log_replace_loop.simps) (simp add: max_def)
    next
      case True
      let ?l = "log_line term (commands ! i)"
      let ?u = "if index > cl_last_index s then s\<lparr>cl_last_term := term, cl_last_index := index\<rparr> else s"
      let ?c = "take pos (content s) @ ?l @ drop (pos + length ?l) (content s)"
      have t: "(if index > cl_last_index (write_at pos ?l s)
          then (write_at pos ?l s)\<lparr>cl_last_term := term, cl_last_index := index\<rparr> else write_at pos ?l s)
          = set_content ?c ?u"
        by (simp add: write_at_def)
      have "pos + length ?l \<le> length (content (set_content ?c ?u))" and "cl_disk (set_content ?c ?u) (cl_file (set_content ?c ?u)) \<noteq> None"
        using 1(3) by simp_all
      from 1(1) [OF i True this(1) _ this(2)] i show ?thesis
        using 1(3) True
        by (subst log_replace_loop.simps)
           (simp add: py_run t rest Let_def max_def after_lines_Cons [of _ index "commands ! i"] ac_simps)
    qed
  qed
qed

lemma log_replace_run:
  assumes "cl_disk s (cl_file s) = Some c" and "commands \<noteq> []"
  shows "log_replace term commands start s =
     (let s' = set_content (concat (map (log_line term) commands)) (after_lines term (max 0 start) commands s)
      in (Inr (cl_last_index s', cl_last_term s'), s'))"
  using assms by (simp add: log_replace_def py_run open_existing_run log_replace_loop_run get_last_index_term_def Let_def)

lemma log_replace_nothing:
  "cl_disk s (cl_file s) = Some c \<Longrightarrow> log_replace term [] start s = (Inr (cl_last_index s, cl_last_term s), s)"
  by (simp add: log_replace_def py_run open_existing_run get_last_index_term_def)

section \<open>What can be read back\<close>

text \<open>A command that survives \<open>strip\<close> and \<open>split\<close>.\<close>

definition plain_command :: "string \<Rightarrow> bool" where
  "plain_command c \<longleftrightarrow> c \<noteq> [] \<and> \<not> py_space (last c)
     \<and> CHR '','' \<notin> set c \<and> CHR 0x0A \<notin> set c \<and> CHR 0x0D \<notin> set c"

definition one_line :: "string \<Rightarrow> bool" where
  "one_line c \<longleftrightarrow> CHR 0x0A \<notin> set c \<and> CHR 0x0D \<notin> set c"

lemma plain_one_line: "plain_command c \<Longrightarrow> one_line c"
  by (simp add: plain_command_def one_line_def)

definition log_text :: "(int \<times> string) list \<Rightarrow> string" where
  "log_text es = concat (map (\<lambda>(t, c). log_line t c) es)"

lemma log_text_simps [simp]:
  "log_text [] = []"
  "log_text (es @ fs) = log_text es @ log_text fs"
  "log_text [(t, c)] = log_line t c"
  "log_text (map (Pair t) cs) = concat (map (log_line t) cs)"
  by (simp_all add: log_text_def comp_def)

lemma file_lines_log_text:
  assumes "\<forall>(t, c) \<in> set es. one_line c"
  shows "file_lines (log_text es) = map (\<lambda>(t, c). log_line t c) es"
proof -
  let ?b = "\<lambda>(t, c). py_str_int t @ CHR '','' # CHR '' '' # c"
  have lines: "(\<lambda>(t, c). log_line t c) = (\<lambda>e. ?b e @ [CHR 0x0A])"
    by (auto simp: log_line_def fun_eq_iff)
  have "CHR 0x0D \<notin> set (log_text es)"
    using assms by (auto simp: log_text_def log_line_def one_line_def)
  moreover have "split_lines (concat (map (\<lambda>l. l @ [CHR 0x0A]) (map ?b es)))
      = map (\<lambda>l. l @ [CHR 0x0A]) (map ?b es)"
    using assms by (intro split_lines_concat) (auto simp: one_line_def)
  ultimately show ?thesis
    by (simp add: file_lines_def log_text_def lines comp_def)
qed

lemma parse_line_log_line:
  assumes "plain_command c"
  shows "parse_line (log_line t c) = Inr (py_str_int t, CHR '' '' # c)"
proof -
  have "\<not> py_space (hd (py_str_int t))"
    using py_str_int_numeral [of "hd (py_str_int t)" t] by (simp add: numeral_char_facts(1))
  then have "py_strip (py_str_int t @ (CHR '','' # CHR '' '' # c) @ [CHR 0x0A]) = py_str_int t @ CHR '','' # CHR '' '' # c"
    using assms by (intro py_strip_ends) (auto simp: plain_command_def py_space_def)
  then show ?thesis
    using assms by (simp add: parse_line_def log_line_def plain_command_def)
qed

lemma parse_lines_log_lines:
  "\<forall>(t, c) \<in> set es. plain_command c \<Longrightarrow>
   parse_lines (map (\<lambda>(t, c). log_line t c) es) = Inr (map (\<lambda>(t, c). (py_str_int t, CHR '' '' # c)) es)"
  by (induction es) (auto simp: parse_line_log_line)

text \<open>A command with a comma in it cannot be read.\<close>

lemma count_strip [simp]: "count_list (py_strip s) CHR '','' = count_list s CHR '',''"
proof -
  have drop: "count_list (dropWhile py_space s) CHR '','' = count_list s CHR '',''" for s
    by (induction s) (auto simp: py_space_def)
  show ?thesis
    by (simp add: py_strip_def drop)
qed

lemma parse_line_commas:
  "parse_line l = (if count_list l CHR '','' = 1 then parse_line l else Inl ValueError)"
  "parse_line l = Inl e \<Longrightarrow> e = ValueError"
  using py_split_parts [of "CHR '',''" "py_strip l"]
  by (auto simp: parse_line_def split: list.splits)

lemma parse_lines_error:
  assumes "l \<in> set ls" and "parse_line l = Inl ValueError"
  shows "parse_lines ls = Inl ValueError"
  using assms
proof (induction ls)
  case (Cons k ks)
  then show ?case
    by (cases "parse_line k") (auto dest: parse_line_commas(2))
qed simp

lemma comma_line: "CHR '','' \<in> set c \<Longrightarrow> parse_line (log_line t c) = Inl ValueError"
proof -
  assume "CHR '','' \<in> set c"
  then have "count_list c CHR '','' \<noteq> 0"
    by (simp add: count_list_0_iff)
  then have "count_list (log_line t c) CHR '','' \<noteq> 1"
    by (simp add: log_line_def)
  then show ?thesis
    by (subst parse_line_commas(1)) simp
qed

section \<open>The log as a list\<close>

text \<open>
  A log the client appends to and reads: \<open>rep es s\<close> says that the state \<open>s\<close> stands for the
  list of entries \<open>es\<close>.
\<close>

locale appendable =
  fixes rep :: "'e list \<Rightarrow> 's \<Rightarrow> bool"
    and add :: "'e \<Rightarrow> ('s, 'i) py"
    and entries :: "('s, 'r list) py"
    and fine :: "'e \<Rightarrow> bool"
    and shown :: "'e \<Rightarrow> 'r"
  assumes add_rep: "rep es s \<Longrightarrow> \<exists>i t. add e s = (Inr i, t) \<and> rep (es @ [e]) t"
    and entries_rep: "rep es s \<Longrightarrow> es \<noteq> [] \<Longrightarrow> \<forall>e \<in> set es. fine e \<Longrightarrow> entries s = (Inr (map shown es), s)"
begin

lemma add_all_rep:
  "rep es s \<Longrightarrow> \<exists>t. for_each fs (\<lambda>e. seq (add e) (ret ())) s = (Inr (), t) \<and> rep (es @ fs) t"
proof (induction fs arbitrary: es s)
  case Nil
  then show ?case
    by (simp add: py_run)
next
  case (Cons f fs)
  from add_rep [OF Cons.prems] obtain i u where "add f s = (Inr i, u)" and u: "rep (es @ [f]) u"
    by blast
  with Cons.IH [OF u] show ?case
    by (auto simp: py_run)
qed

lemma add_all_then_read:
  assumes "rep es s" and "es @ fs \<noteq> []" and "\<forall>e \<in> set (es @ fs). fine e"
  shows "\<exists>t. seq (for_each fs (\<lambda>e. seq (add e) (ret ()))) entries s = (Inr (map shown (es @ fs)), t) \<and> rep (es @ fs) t"
proof -
  from add_all_rep [OF assms(1)] obtain t
    where "for_each fs (\<lambda>e. seq (add e) (ret ())) s = (Inr (), t)" and t: "rep (es @ fs) t"
    by blast
  with entries_rep [OF t assms(2,3)] show ?thesis
    by (auto simp: py_run)
qed

end

definition holds_log :: "(int \<times> string) list \<Rightarrow> commit_log \<Rightarrow> bool" where
  "holds_log es s \<longleftrightarrow> content s = log_text es \<and> cl_last_index s = int (length es) - 1
     \<and> cl_last_term s = (if es = [] then 0 else fst (last es))"

definition log_entry :: "int \<times> string \<Rightarrow> (commit_log, int \<times> int) py" where
  "log_entry e = CommitLog_log (fst e) (snd e)"

definition shown_entry :: "int \<times> string \<Rightarrow> string \<times> string" where
  "shown_entry e = (py_str_int (fst e), CHR '' '' # snd e)"

lemma holds_log_init: "disk file = None \<or> disk file = Some [] \<Longrightarrow> holds_log [] (CommitLog_init file disk)"
  by (auto simp: holds_log_def CommitLog_init_def content_def)

lemma content_file: "content s \<noteq> [] \<Longrightarrow> cl_disk s (cl_file s) \<noteq> None"
  by (auto simp: content_def split: option.splits)

lemma log_text_nonempty: "es \<noteq> [] \<Longrightarrow> log_text es \<noteq> []"
  by (cases es) (auto simp: log_text_def log_line_def)

lemma read_held_log:
  assumes "holds_log es s" and "es \<noteq> []" and "\<forall>(t, c) \<in> set es. one_line c"
  shows "read_log s = (parse_lines (map (\<lambda>(t, c). log_line t c) es), s)"
proof -
  from assms(1,2) have "cl_disk s (cl_file s) \<noteq> None"
    by (intro content_file) (simp add: holds_log_def log_text_nonempty)
  with assms show ?thesis
    by (auto simp: read_log_run holds_log_def file_lines_log_text)
qed

interpretation commits_file: appendable holds_log log_entry read_log "\<lambda>e. plain_command (snd e)" shown_entry
proof unfold_locales
  fix es s and e :: "int \<times> string"
  assume "holds_log es s"
  then show "\<exists>i t. log_entry e s = (Inr i, t) \<and> holds_log (es @ [e]) t"
    by (cases e) (auto simp: log_entry_def CommitLog_log_run holds_log_def)
next
  fix es s
  assume "holds_log es s" and "es \<noteq> []" and plain: "\<forall>e \<in> set es. plain_command (snd e)"
  moreover from plain have "parse_lines (map (\<lambda>(t, c). log_line t c) es) = Inr (map shown_entry es)"
    by (subst parse_lines_log_lines) (auto simp: shown_entry_def)
  ultimately show "read_log s = (Inr (map shown_entry es), s)"
    using read_held_log [of es s] plain by (fastforce intro: plain_one_line)
qed

section \<open>Properties\<close>

text \<open>
  C34. Round trip of the log: entries logged one after the other into a log that holds a
  list, are read back in order after it, the term as its numeral and the command with the
  blank of the format string in front, and the index in memory counts the lines; provided
  every command, in the log and logged, is not empty, ends in no white space and has neither
  a comma nor a line break in it.
\<close>

theorem logged_entries_read_back:
  assumes "holds_log es s" and "es @ fs \<noteq> []" and "\<forall>e \<in> set (es @ fs). plain_command (snd e)"
  shows "\<exists>t. seq (for_each fs (\<lambda>e. seq (log_entry e) (ret ()))) read_log s = (Inr (map shown_entry (es @ fs)), t)
     \<and> cl_last_index t = int (length (es @ fs)) - 1 \<and> cl_last_term t = fst (last (es @ fs))"
proof -
  from commits_file.add_all_then_read [OF assms] obtain t where
    "seq (for_each fs (\<lambda>e. seq (log_entry e) (ret ()))) read_log s = (Inr (map shown_entry (es @ fs)), t)"
    "holds_log (es @ fs) t"
    by blast
  with assms(2) show ?thesis
    by (intro exI [of _ t]) (auto simp: holds_log_def)
qed

definition sample_entries :: "(int \<times> string) list" where
  "sample_entries = [(1, ''set x''), (2, ''set y'')]"

definition sample_commit_log :: commit_log where
  "sample_commit_log = CommitLog_init ''log.txt'' (\<lambda>_. None)"

lemma sample_commit_log_holds: "holds_log [] sample_commit_log"
  by (simp add: sample_commit_log_def holds_log_init)

theorem logged_entries_read_back_witness:
  "\<exists>t. seq (for_each sample_entries (\<lambda>e. seq (log_entry e) (ret ()))) read_log sample_commit_log
       = (Inr (map shown_entry ([] @ sample_entries)), t)
     \<and> cl_last_index t = int (length ([] @ sample_entries)) - 1 \<and> cl_last_term t = fst (last ([] @ sample_entries))"
  by (rule logged_entries_read_back [OF sample_commit_log_holds])
     (simp_all add: sample_entries_def plain_command_def py_space_def)

text \<open>
  A command with a comma makes the whole log unreadable: once a line with such a
  command is in the file, reading raises \<open>ValueError\<close>, however many entries follow.
\<close>

theorem comma_makes_log_unreadable:
  assumes "holds_log es s" and "(t, c) \<in> set es" and "CHR '','' \<in> set c" and "\<forall>(t, c) \<in> set es. one_line c"
  shows "read_log s = (Inl ValueError, s)"
proof -
  have "log_line t c \<in> set (map (\<lambda>(t, c). log_line t c) es)"
    using assms(2) by force
  then have "parse_lines (map (\<lambda>(t, c). log_line t c) es) = Inl ValueError"
    using comma_line [OF assms(3)] by (rule parse_lines_error)
  moreover have "es \<noteq> []"
    using assms(2) by auto
  ultimately show ?thesis
    using read_held_log [OF assms(1)] assms(4) by simp
qed

theorem comma_makes_log_unreadable_witness:
  "\<exists>s. snd (for_each [(1, ''pair 2,3''), (1, ''set z'')] (\<lambda>e. seq (log_entry e) (ret ())) sample_commit_log) = s
     \<and> read_log s = (Inl ValueError, s)"
proof -
  from commits_file.add_all_rep [OF sample_commit_log_holds, of "[(1, ''pair 2,3''), (1, ''set z'')]"]
  obtain s where s: "for_each [(1, ''pair 2,3''), (1, ''set z'')] (\<lambda>e. seq (log_entry e) (ret ())) sample_commit_log = (Inr (), s)"
    and "holds_log [(1, ''pair 2,3''), (1, ''set z'')] s"
    by auto
  from comma_makes_log_unreadable [OF this(2), of 1 "''pair 2,3''"] s show ?thesis
    by (simp add: one_line_def)
qed

text \<open>
  C35. When replacing refines replacing a list: the commands handed over become the whole
  file, all under the new term, wherever \<open>start\<close> is. The object then stands for that list
  exactly when the replacement starts at the first line, is not shorter than the log, and,
  if it is of the same length, the term in memory was the new one already: the index and
  the term in memory are only ever raised with the line count.
\<close>

theorem replace_refines_list:
  assumes "holds_log es s" and "cl_disk s (cl_file s) \<noteq> None" and "commands \<noteq> []"
  shows "\<exists>r s'. log_replace term commands start s = (Inr r, s') \<and> content s' = log_text (map (Pair term) commands)
     \<and> (holds_log (map (Pair term) commands) s' \<longleftrightarrow>
          start \<le> 0 \<and> length es \<le> length commands \<and> (length es < length commands \<or> cl_last_term s = term))"
proof -
  from assms(2) obtain c where c: "cl_disk s (cl_file s) = Some c"
    by blast
  have "cl_last_index s = int (length es) - 1"
    using assms(1) by (simp add: holds_log_def)
  moreover have "fst (last (map (Pair term) commands)) = term"
    using assms(3) by (simp add: last_map)
  ultimately show ?thesis
    using assms(3) by (auto simp: log_replace_run [OF c assms(3)] Let_def after_lines_def holds_log_def)
qed

theorem replace_refines_list_witness:
  "\<exists>r s'. log_replace 3 [''set x''] 1 (set_content [] sample_commit_log) = (Inr r, s')
     \<and> content s' = log_text (map (Pair 3) [''set x''])
     \<and> (holds_log (map (Pair 3) [''set x'']) s' \<longleftrightarrow>
          (1::int) \<le> 0 \<and> length ([] :: (int \<times> string) list) \<le> length [''set x'']
          \<and> (length ([] :: (int \<times> string) list) < length [''set x''] \<or> cl_last_term (set_content [] sample_commit_log) = 3))"
  by (rule replace_refines_list)
     (simp_all add: holds_log_def set_content_def sample_commit_log_def CommitLog_init_def content_def)

end
