(* ===== verification/Utility_Functions.thy ===== *)
theory Utility_Functions
  imports Py_Text
begin

text \<open>
  \<^verbatim>\<open>src/utility_functions.py\<close> and \<^verbatim>\<open>src/consensusobject.py\<close>: binding a socket,
  looking up the address of an interface, reading the clock; and the shared byte of bits.
\<close>

section \<open>Binding a socket\<close>

text \<open>
  What the operating system makes of the \<open>k\<close>-th attempt to create and bind a socket is
  \<open>attempt k\<close>: nothing when it works, the number of an \<open>OSError\<close> otherwise. Between two
  attempts the code sleeps for a second, so the number of the attempt that works is the
  number of seconds waited; while the address stays in use the loop does not end.
\<close>

definition EADDRINUSE :: int where "EADDRINUSE = 98"

partial_function (option) bind_from :: "(nat \<Rightarrow> int option) \<Rightarrow> nat \<Rightarrow> (py_error + nat) option" where
  "bind_from attempt k =
     (case attempt k of
        None \<Rightarrow> Some (Inr k)
      | Some errno \<Rightarrow> if errno = EADDRINUSE then bind_from attempt (Suc k) else Some (Inl (OSError errno)))"

declare bind_from.simps [code]

definition bind_socket :: "(nat \<Rightarrow> int option) \<Rightarrow> (py_error + nat) option" where
  "bind_socket attempt = bind_from attempt 0"

definition bind_outcome :: "(nat \<Rightarrow> int option) \<Rightarrow> nat \<Rightarrow> py_error + nat" where
  "bind_outcome attempt k = (case attempt k of None \<Rightarrow> Inr k | Some errno \<Rightarrow> Inl (OSError errno))"

lemma bind_from_first:
  assumes "\<And>j. i \<le> j \<Longrightarrow> j < k \<Longrightarrow> attempt j = Some EADDRINUSE" and "attempt k \<noteq> Some EADDRINUSE" and "i \<le> k"
  shows "bind_from attempt i = Some (bind_outcome attempt k)"
  using assms
proof (induction "k - i" arbitrary: i)
  case 0
  then show ?case
    by (subst bind_from.simps) (auto simp: bind_outcome_def split: option.splits)
next
  case (Suc n)
  then have "attempt i = Some EADDRINUSE" and "bind_from attempt (Suc i) = Some (bind_outcome attempt k)"
    by auto
  then show ?case
    by (subst bind_from.simps) simp
qed

lemma bind_from_returns:
  "bind_from attempt i = Some r \<Longrightarrow> \<exists>k \<ge> i. attempt k \<noteq> Some EADDRINUSE"
proof (rule bind_from.raw_induct [where P = "\<lambda>a i r. \<exists>k \<ge> i. a k \<noteq> Some EADDRINUSE"])
  fix rec :: "(nat \<Rightarrow> int option) \<Rightarrow> nat \<Rightarrow> (py_error + nat) option" and a i r
  assume rec: "\<And>a i r. rec a i = Some r \<Longrightarrow> \<exists>k \<ge> i. a k \<noteq> Some EADDRINUSE"
    and run: "(case a i of None \<Rightarrow> Some (Inr i)
      | Some errno \<Rightarrow> if errno = EADDRINUSE then rec a (Suc i) else Some (Inl (OSError errno))) = Some r"
  show "\<exists>k \<ge> i. a k \<noteq> Some EADDRINUSE"
  proof (cases "a i = Some EADDRINUSE")
    case True
    with run have "rec a (Suc i) = Some r"
      by simp
    from rec [OF this] show ?thesis
      using Suc_leD by blast
  qed blast
qed

section \<open>Addresses and time\<close>

text \<open>
  \<open>psutil.net_if_addrs()\<close> is a table from interface names to the addresses of each, a
  family and the address proper among their fields; the function takes the first.
\<close>

type_synonym interface_table = "(string \<times> (int \<times> string) list) list"

definition get_address_on_interface :: "interface_table \<Rightarrow> string \<Rightarrow> py_error + string" where
  "get_address_on_interface addrs interface =
     (case map_of addrs interface of
        None \<Rightarrow> Inl (KeyError interface)
      | Some as \<Rightarrow> rbind (py_getitem as 0) (\<lambda>a. Inr (snd a)))"

text \<open>
  The performance counter in nanoseconds; before Python 3.8 it is read in seconds. Times
  are rationals, the floating-point product of the older branch taken without rounding.
\<close>

definition get_system_time :: "nat \<times> nat \<Rightarrow> rat \<Rightarrow> int \<Rightarrow> rat" where
  "get_system_time version perf_counter perf_counter_ns =
     (if fst version = 3 \<and> snd version < 8 then perf_counter * 1000000000 else of_int perf_counter_ns)"

section \<open>The consensus object\<close>

text \<open>
  The module does not import \<open>threading\<close>, so the name is not among its globals and the
  constructor raises after it has set the bits.
\<close>

definition consensusobject_globals :: "string set" where
  "consensusobject_globals = {''LockedConsensusObject''}"

record consensus_object =
  co_bits :: "int list"
  co_lock :: bool

definition LockedConsensusObject_init :: "string set \<Rightarrow> py_error + consensus_object" where
  "LockedConsensusObject_init globals =
     (if ''threading'' \<in> globals then Inr \<lparr>co_bits = replicate 8 0, co_lock = True\<rparr>
      else Inl (NameError ''threading''))"

definition set_value :: "int \<Rightarrow> int \<Rightarrow> consensus_object \<Rightarrow> py_error + consensus_object" where
  "set_value index v c = rbind (py_setitem (co_bits c) index v) (\<lambda>bs. Inr (c\<lparr>co_bits := bs\<rparr>))"

text \<open>The byte never changes its size: only the eight bits can be set, from either end.\<close>

lemma set_value_bits:
  "set_value i v c = Inr c' \<Longrightarrow> length (co_bits c') = length (co_bits c)"
  by (auto simp: set_value_def py_setitem_def Let_def split: if_splits)

section \<open>Properties\<close>

text \<open>
  Binding retries while the address is in use and only then: it returns exactly when
  some attempt does not find the address in use, and then with the outcome of the first
  such attempt, a bound socket or the error of the system; otherwise it does not return.
\<close>

theorem bind_socket_retries:
  "bind_socket attempt =
     (if \<forall>k. attempt k = Some EADDRINUSE then None
      else Some (bind_outcome attempt (LEAST k. attempt k \<noteq> Some EADDRINUSE)))"
proof (cases "\<forall>k. attempt k = Some EADDRINUSE")
  case True
  then show ?thesis
    using bind_from_returns [of attempt 0] by (cases "bind_from attempt 0") (simp_all add: bind_socket_def)
next
  case False
  then have first: "attempt (LEAST k. attempt k \<noteq> Some EADDRINUSE) \<noteq> Some EADDRINUSE"
    by (metis (mono_tags, lifting) LeastI)
  have before: "attempt j = Some EADDRINUSE" if "j < (LEAST k. attempt k \<noteq> Some EADDRINUSE)" for j
    using that not_less_Least by blast
  have "bind_from attempt 0 = Some (bind_outcome attempt (LEAST k. attempt k \<noteq> Some EADDRINUSE))"
    by (rule bind_from_first [of 0 _ attempt]) (rule before first le0, assumption?)+
  with False show ?thesis
    by (simp add: bind_socket_def)
qed

end
