(* ===== verification/Expiring_Members.thy ===== *)
theory Expiring_Members
  imports Utility_Functions
begin

text \<open>
  What the node and the edge server share without sharing code: a table of the peers heard
  of, each with its address and the time of its last message, from which a loop over the
  keys removes those not heard of for a while. What the threads of a program do to such a
  table is a history of events; a machine says which histories are in order, and the locale
  states that a program keeps to it. The theories of the two programs interpret it.
\<close>

section \<open>Histories\<close>

text \<open>
  A listener has heard of a peer; the loop compares the age of a peer's entry at a time
  \<open>now\<close>; the loop drops a peer.
\<close>

datatype event = Heard string string rat | Judged string rat | Dropped string

fun hearing :: "event \<Rightarrow> bool" where
  "hearing (Heard k a t) = True"
| "hearing (Judged k now) = False"
| "hearing (Dropped k) = False"

text \<open>What is known after a history: the last entry of every peer not dropped since.\<close>

fun recall :: "event \<Rightarrow> (string \<rightharpoonup> string \<times> rat) \<Rightarrow> (string \<rightharpoonup> string \<times> rat)" where
  "recall (Heard k a t) m = m(k \<mapsto> (a, t))"
| "recall (Judged k now) m = m"
| "recall (Dropped k) m = m(k := None)"

definition remembered :: "event list \<Rightarrow> string \<rightharpoonup> string \<times> rat" where
  "remembered H = fold recall H Map.empty"

text \<open>
  The machine: beside what is known it has the peer that has been judged too old and is not
  dropped yet, if any. Between its judgement and its fall anything may be heard of.
\<close>

type_synonym expiry = "(string \<rightharpoonup> string \<times> rat) \<times> string option"

fun expire_event :: "rat \<Rightarrow> event \<Rightarrow> expiry \<Rightarrow> expiry option" where
  "expire_event timer (Heard k a t) (m, c) = Some (m(k \<mapsto> (a, t)), c)"
| "expire_event timer (Judged k now) (m, c) =
     (case m k of
        None \<Rightarrow> None
      | Some (a, t) \<Rightarrow> if c = None then Some (m, if now - t \<ge> timer then Some k else None) else None)"
| "expire_event timer (Dropped k) (m, c) = (if c = Some k then Some (m(k := None), None) else None)"

fun expire :: "rat \<Rightarrow> event list \<Rightarrow> expiry \<Rightarrow> expiry option" where
  "expire timer [] st = Some st"
| "expire timer (e # es) st = Option.bind (expire_event timer e st) (expire timer es)"

lemma expire_append: "expire timer (xs @ ys) st = Option.bind (expire timer xs st) (expire timer ys)"
  by (induction xs arbitrary: st) (auto split: Option.bind_splits)

lemma expire_event_recall: "expire_event timer e st = Some st' \<Longrightarrow> fst st' = recall e (fst st)"
  by (cases e; cases st) (auto split: if_splits option.splits)

lemma expire_recall: "expire timer H st = Some st' \<Longrightarrow> fst st' = fold recall H (fst st)"
  by (induction H arbitrary: st) (fastforce simp: Option.bind_eq_Some_conv dest: expire_event_recall)+

text \<open>Nobody stands condemned who was not judged, and only hearing has come in between.\<close>

lemma condemned_was_judged:
  assumes "expire timer H (Map.empty, None) = Some (m, Some k)"
  shows "\<exists>p now r a t. H = p @ Judged k now # r \<and> list_all hearing r \<and> remembered p k = Some (a, t) \<and> now - t \<ge> timer"
  using assms
proof (induction H arbitrary: m rule: rev_induct)
  case Nil
  then show ?case by simp
next
  case (snoc e H)
  then obtain m0 c0 where before: "expire timer H (Map.empty, None) = Some (m0, c0)"
      and e: "expire_event timer e (m0, c0) = Some (m, Some k)"
    by (auto simp: expire_append Option.bind_eq_Some_conv)
  show ?case
  proof (cases e)
    case (Heard k' a' t')
    with e have "c0 = Some k"
      by simp
    with snoc.IH before obtain p now r a t where
      "H = p @ Judged k now # r" "list_all hearing r" "remembered p k = Some (a, t)" "now - t \<ge> timer"
      by blast
    with Heard show ?thesis
      by (intro exI [of _ p] exI [of _ now] exI [of _ "r @ [e]"] exI [of _ a] exI [of _ t]) simp
  next
    case (Judged k' now)
    with e obtain a t where "k' = k" "m0 k = Some (a, t)" "now - t \<ge> timer"
      by (auto split: option.splits if_splits)
    moreover have "remembered H = m0"
      using expire_recall [OF before] by (simp add: remembered_def)
    ultimately show ?thesis
      using Judged by (intro exI [of _ H] exI [of _ now] exI [of _ "[]"] exI [of _ a] exI [of _ t]) simp
  next
    case (Dropped k')
    with e show ?thesis
      by (simp split: if_splits)
  qed
qed

lemma dropped_was_judged:
  assumes "expire timer (p @ Dropped k # q) (Map.empty, None) = Some st"
  shows "\<exists>p' now r a t. p = p' @ Judged k now # r \<and> list_all hearing r \<and> remembered p' k = Some (a, t) \<and> now - t \<ge> timer"
proof -
  from assms obtain m where "expire timer p (Map.empty, None) = Some (m, Some k)"
    by (auto simp: expire_append Option.bind_eq_Some_conv split: if_splits)
  then show ?thesis
    by (rule condemned_was_judged)
qed

text \<open>Who is judged too old is the next to be dropped.\<close>

lemma condemned_falls:
  assumes "expire timer q (m, Some k) = Some (m', c)"
  shows "(\<exists>r q'. q = r @ Dropped k # q' \<and> list_all hearing r) \<or> list_all hearing q \<and> c = Some k"
  using assms
proof (induction q arbitrary: m)
  case Nil
  then show ?case by simp
next
  case (Cons e q)
  then show ?case
  proof (cases e)
    case (Heard k' a t)
    with Cons.prems have "(\<exists>r q'. q = r @ Dropped k # q' \<and> list_all hearing r) \<or> list_all hearing q \<and> c = Some k"
      by (intro Cons.IH [of "m(k' \<mapsto> (a, t))"]) (simp del: fun_upd_apply)
    then show ?thesis
      by (metis Heard append_Cons hearing.simps(1) list.pred_inject(2))
  next
    case (Judged k' now)
    with Cons.prems show ?thesis
      by (simp split: option.splits)
  next
    case (Dropped k')
    with Cons.prems have "k' = k"
      by (simp split: if_splits)
    with Dropped show ?thesis
      by (intro disjI1) (rule exI [of _ "[]"], simp)
  qed
qed

lemma judged_falls:
  assumes "expire timer (p @ Judged k now # q) (Map.empty, None) = Some (m, c)"
    and "remembered p k = Some (a, t)" and "now - t \<ge> timer"
  shows "(\<exists>r q'. q = r @ Dropped k # q' \<and> list_all hearing r) \<or> list_all hearing q \<and> c = Some k"
proof -
  from assms(1) obtain m0 c0 st where before: "expire timer p (Map.empty, None) = Some (m0, c0)"
      and st: "expire_event timer (Judged k now) (m0, c0) = Some st" "expire timer q st = Some (m, c)"
    by (auto simp: expire_append Option.bind_eq_Some_conv)
  have "m0 k = Some (a, t)"
    using expire_recall [OF before] assms(2) by (simp add: remembered_def)
  with st(1) assms(3) have "st = (m0, Some k)"
    by (simp split: if_splits)
  with st(2) show ?thesis
    by (auto dest: condemned_falls)
qed

section \<open>Programs\<close>

text \<open>The runs of a program together with their histories.\<close>

inductive logged_run :: "('s \<Rightarrow> bool) \<Rightarrow> ('s \<Rightarrow> event list \<Rightarrow> 's \<Rightarrow> bool) \<Rightarrow> 's \<Rightarrow> event list \<Rightarrow> bool" for initial moves where
  start: "initial s \<Longrightarrow> logged_run initial moves s []"
| move: "logged_run initial moves s H \<Longrightarrow> moves s es s' \<Longrightarrow> logged_run initial moves s' (H @ es)"

locale expiring_members =
  fixes initial :: "'s \<Rightarrow> bool"
    and moves :: "'s \<Rightarrow> event list \<Rightarrow> 's \<Rightarrow> bool"
    and ok :: "'s \<Rightarrow> bool"
    and known :: "'s \<Rightarrow> string \<rightharpoonup> string \<times> rat"
    and condemned :: "'s \<Rightarrow> string option"
    and timer :: rat
  assumes ok_initial: "initial s \<Longrightarrow> ok s"
    and known_initial: "initial s \<Longrightarrow> known s = Map.empty \<and> condemned s = None"
    and ok_moves: "ok s \<Longrightarrow> moves s es s' \<Longrightarrow> ok s'"
    and expire_moves: "ok s \<Longrightarrow> moves s es s' \<Longrightarrow> expire timer es (known s, condemned s) = Some (known s', condemned s')"
begin

lemma keeps_to_the_machine:
  "logged_run initial moves s H \<Longrightarrow> ok s \<and> expire timer H (Map.empty, None) = Some (known s, condemned s)"
proof (induction rule: logged_run.induct)
  case (start s)
  then show ?case
    using known_initial [OF start] ok_initial [OF start] by simp
next
  case (move s H es s')
  with ok_moves [OF _ move(2)] expire_moves [OF _ move(2)] show ?case
    by (simp add: expire_append)
qed

lemma stays_ok: "logged_run initial moves s H \<Longrightarrow> ok s"
  using keeps_to_the_machine by blast

lemma knows_the_remembered: "logged_run initial moves s H \<Longrightarrow> known s = remembered H"
  using keeps_to_the_machine expire_recall by (fastforce simp: remembered_def)

lemma drops_the_old:
  "logged_run initial moves s (p @ Dropped k # q) \<Longrightarrow>
   \<exists>p' now r a t. p = p' @ Judged k now # r \<and> list_all hearing r \<and> remembered p' k = Some (a, t) \<and> now - t \<ge> timer"
  using keeps_to_the_machine dropped_was_judged by blast

lemma old_fall:
  "logged_run initial moves s (p @ Judged k now # q) \<Longrightarrow> remembered p k = Some (a, t) \<Longrightarrow> now - t \<ge> timer \<Longrightarrow>
   (\<exists>r q'. q = r @ Dropped k # q' \<and> list_all hearing r) \<or> list_all hearing q \<and> condemned s = Some k"
  using keeps_to_the_machine judged_falls by blast

end

section \<open>Tables\<close>

text \<open>
  The tables of both programs: a dictionary from ids to an address and a time, read by
  \<open>d[k]\<close> and shortened by \<open>del d[k]\<close>.
\<close>

type_synonym members = "(string \<times> string \<times> rat) list"

definition time_heard :: "members \<Rightarrow> string \<Rightarrow> rat option" where
  "time_heard g k = map_option snd (map_of g k)"

definition table :: "members \<Rightarrow> bool" where
  "table g \<longleftrightarrow> distinct (map fst g)"

definition py_lookup :: "(string \<times> 'a) list \<Rightarrow> string \<Rightarrow> py_error + 'a" where
  "py_lookup d k = (case map_of d k of None \<Rightarrow> Inl (KeyError k) | Some v \<Rightarrow> Inr v)"

definition py_del :: "(string \<times> 'a) list \<Rightarrow> string \<Rightarrow> py_error + (string \<times> 'a) list" where
  "py_del d k = (case map_of d k of None \<Rightarrow> Inl (KeyError k) | Some _ \<Rightarrow> Inr (AList.delete k d))"

lemma time_heard_update [simp]: "time_heard (AList.update k (a, t) g) = (time_heard g)(k \<mapsto> t)"
  by (auto simp: time_heard_def update_conv fun_eq_iff)

lemma table_update [simp]: "table g \<Longrightarrow> table (AList.update k v g)"
  by (simp add: table_def distinct_update)

lemma table_filter [simp]: "table g \<Longrightarrow> table (filter P g)"
  by (simp add: table_def distinct_map_filter)

lemma table_Nil [simp]: "table []"
  by (simp add: table_def)

lemma keys_update [simp]: "fst ` set (AList.update k v g) = insert k (fst ` set g)"
  by (simp add: dom_update)

lemma row_of_key:
  assumes "distinct (map fst d)" and "e \<in> set d" and "fst e = k" and "map_of d k = Some v"
  shows "snd e = v"
proof -
  from assms(1-3) have "map_of d k = Some (snd e)"
    by (intro map_of_is_SomeI) auto
  with assms(4) show ?thesis
    by simp
qed

lemma py_lookup_found: "k \<in> fst ` set g \<Longrightarrow> \<exists>v. py_lookup g k = Inr v \<and> map_of g k = Some v"
  by (auto simp: py_lookup_def split: option.split) (metis map_of_eq_None_iff option.exhaust imageI fst_conv)

lemma py_del_found: "k \<in> fst ` set g \<Longrightarrow> py_del g k = Inr (filter (\<lambda>e. fst e \<noteq> k) g)"
  by (auto simp: py_del_def AList.delete_eq map_of_eq_None_iff split: option.split intro: filter_cong)

section \<open>The loop over the keys\<close>

text \<open>
  The loop both programs run on a snapshot of the keys,
  \<open>for key in keylist: if systime - d[key][1] >= timer: del d[key]\<close>,
  one access to the table at a time. A listener may write to the table between two steps.
\<close>

datatype sweep_pc = Expiring "string list" | Deleting string "string list"

fun sweep_step :: "rat \<Rightarrow> rat \<Rightarrow> members \<Rightarrow> sweep_pc \<Rightarrow> py_error + members \<times> sweep_pc" where
  "sweep_step timer systime g (Expiring []) = Inr (g, Expiring [])"
| "sweep_step timer systime g (Expiring (key # keys)) =
     rbind (py_lookup g key) (\<lambda>(a, t).
     Inr (g, if systime - t \<ge> timer then Deleting key keys else Expiring keys))"
| "sweep_step timer systime g (Deleting key keys) =
     rbind (py_del g key) (\<lambda>g'. Inr (g', Expiring keys))"

fun sweep_steps :: "nat \<Rightarrow> rat \<Rightarrow> rat \<Rightarrow> members \<Rightarrow> sweep_pc \<Rightarrow> py_error + members \<times> sweep_pc" where
  "sweep_steps 0 timer systime g pc = Inr (g, pc)"
| "sweep_steps (Suc n) timer systime g pc =
     rbind (sweep_step timer systime g pc) (\<lambda>(g', pc'). sweep_steps n timer systime g' pc')"

lemma keys_filter:
  "set ks \<subseteq> fst ` set g \<Longrightarrow> k \<notin> set ks \<Longrightarrow> set ks \<subseteq> fst ` set (filter (\<lambda>e. fst e \<noteq> k) g)"
  by force

text \<open>The whole loop without a listener in between: two steps a key are enough.\<close>

definition fresh :: "rat \<Rightarrow> rat \<Rightarrow> string \<times> string \<times> rat \<Rightarrow> bool" where
  "fresh timer systime e \<longleftrightarrow> systime - snd (snd e) < timer"

lemma sweep_steps_idle [simp]: "sweep_steps n timer systime g (Expiring []) = Inr (g, Expiring [])"
  by (induction n) simp_all

lemma sweep_steps_run:
  assumes "table g" and "distinct keys" and "set keys \<subseteq> fst ` set g" and "2 * length keys \<le> n"
  shows "sweep_steps n timer systime g (Expiring keys) =
    Inr (filter (\<lambda>e. fst e \<in> set keys \<longrightarrow> fresh timer systime e) g, Expiring [])"
  using assms
proof (induction keys arbitrary: g n)
  case Nil
  then show ?case
    by simp
next
  case (Cons k ks)
  then obtain m where n: "n = Suc (Suc m)" and m: "2 * length ks \<le> m"
    by (cases n; cases "n - 1") auto
  from Cons.prems(3) obtain a t where k: "py_lookup g k = Inr (a, t)" "map_of g k = Some (a, t)"
    using py_lookup_found [of k g] by auto
  have only: "e = (k, a, t)" if "e \<in> set g" "fst e = k" for e
    using row_of_key [OF _ that k(2)] Cons.prems(1) that(2) by (cases e) (simp add: table_def)
  show ?case
  proof (cases "systime - t \<ge> timer")
    case True
    let ?g = "filter (\<lambda>e. fst e \<noteq> k) g"
    have "sweep_steps m timer systime ?g (Expiring ks) =
        Inr (filter (\<lambda>e. fst e \<in> set ks \<longrightarrow> fresh timer systime e) ?g, Expiring [])"
      using Cons.prems m keys_filter [of ks g k] by (intro Cons.IH) simp_all
    moreover have "filter (\<lambda>e. fst e \<in> set ks \<longrightarrow> fresh timer systime e) ?g
        = filter (\<lambda>e. fst e \<in> set (k # ks) \<longrightarrow> fresh timer systime e) g"
      using only True Cons.prems(2) by (auto simp: fresh_def intro!: filter_cong)
    ultimately show ?thesis
      using Cons.prems(3) True by (simp add: n k py_del_found)
  next
    case False
    have "sweep_steps (Suc m) timer systime g (Expiring ks) =
        Inr (filter (\<lambda>e. fst e \<in> set ks \<longrightarrow> fresh timer systime e) g, Expiring [])"
      using Cons.prems m by (intro Cons.IH) auto
    moreover have "filter (\<lambda>e. fst e \<in> set ks \<longrightarrow> fresh timer systime e) g
        = filter (\<lambda>e. fst e \<in> set (k # ks) \<longrightarrow> fresh timer systime e) g"
      using only False by (auto simp: fresh_def intro!: filter_cong)
    ultimately show ?thesis
      using False by (simp add: n k del: sweep_steps.simps(2)) (simp add: k)
  qed
qed

text \<open>What a step of the loop is in the history of the table, and the peer it is about to drop.\<close>

fun sweep_events :: "rat \<Rightarrow> sweep_pc \<Rightarrow> event list" where
  "sweep_events systime (Expiring []) = []"
| "sweep_events systime (Expiring (key # keys)) = [Judged key systime]"
| "sweep_events systime (Deleting key keys) = [Dropped key]"

fun dropping :: "sweep_pc \<Rightarrow> string option" where
  "dropping (Expiring keys) = None"
| "dropping (Deleting key keys) = Some key"

lemma sweep_step_expires:
  assumes "sweep_step timer systime g pc = Inr (g', pc')" and "table g"
  shows "expire timer (sweep_events systime pc) (map_of g, dropping pc) = Some (map_of g', dropping pc')"
  using assms
  by (cases "(timer, systime, g, pc)" rule: sweep_step.cases)
     (auto simp: rbind_Inr_iff py_lookup_def py_del_def delete_conv' split: option.splits if_splits)

text \<open>What the loop does when a listener writes in between: the keys it still has to visit stay.\<close>

definition to_visit :: "sweep_pc \<Rightarrow> string list" where
  "to_visit pc = (case pc of Expiring ks \<Rightarrow> ks | Deleting k ks \<Rightarrow> k # ks)"

definition sweep_ok :: "members \<Rightarrow> sweep_pc \<Rightarrow> bool" where
  "sweep_ok g pc \<longleftrightarrow> table g \<and> distinct (to_visit pc) \<and> set (to_visit pc) \<subseteq> fst ` set g"

lemma sweep_ok_start: "table g \<Longrightarrow> set ks \<subseteq> fst ` set g \<Longrightarrow> distinct ks \<Longrightarrow> sweep_ok g (Expiring ks)"
  by (simp add: sweep_ok_def to_visit_def)

lemma sweep_ok_update: "sweep_ok g pc \<Longrightarrow> sweep_ok (AList.update k v g) pc"
  by (auto simp: sweep_ok_def)

lemma sweep_ok_step:
  assumes "sweep_ok g pc"
  shows "\<exists>g' pc'. sweep_step timer systime g pc = Inr (g', pc') \<and> sweep_ok g' pc' \<and> set g' \<subseteq> set g"
proof (cases "(timer, systime, g, pc)" rule: sweep_step.cases)
  case (1 a b c)
  with assms show ?thesis
    by auto
next
  case (2 a b c k ks)
  with assms have k: "k \<in> fst ` set g"
    by (simp add: sweep_ok_def to_visit_def)
  with 2 assms py_lookup_found [OF k] show ?thesis
    by (fastforce simp: sweep_ok_def to_visit_def)
next
  case (3 a b c k ks)
  with assms show ?thesis
    using keys_filter [of ks g k] by (auto simp: sweep_ok_def to_visit_def py_del_found)
qed

end
