(* ===== verification/Node_App.thy ===== *)
theory Node_App
  imports Expiring_Members Raft_Node
begin

text \<open>
  \<^verbatim>\<open>src/node.py\<close>: a device that advertises itself, keeps the table of its local group
  and the last edge server heard of, answers edge servers and runs consensus in its group.
  Its main thread and its two listener threads share \<open>local_group\<close> and
  \<open>edge_server_address_time\<close>; each access is under \<open>with threading.Lock()\<close>, a lock made on
  the spot that excludes nobody, so the threads interleave between any two accesses to the two;
  only what touches neither of them is part of a step with one that does.
\<close>

section \<open>Constants\<close>

definition BLUETOOTH_ADVERTISEMENT_INTERVAL :: rat where
  "BLUETOOTH_ADVERTISEMENT_INTERVAL = 500000000"

definition BLUETOOTH_HEARTBEAT_TIMER :: rat where
  "BLUETOOTH_HEARTBEAT_TIMER = 10 * BLUETOOTH_ADVERTISEMENT_INTERVAL"

definition EDGE_HEARTBEAT_TIMER :: rat where
  "EDGE_HEARTBEAT_TIMER = 10 * 1000000000"

definition BROADCAST_NODE_ADDRESS :: string where
  "BROADCAST_NODE_ADDRESS = ''172.22.151.214''"

definition BLUETOOTH_TX_PORT :: int where "BLUETOOTH_TX_PORT = 59021"
definition EDGE_UNICAST_TX_PORT :: int where "EDGE_UNICAST_TX_PORT = 61021"
definition HIGH_POWER_TX_PORT :: int where "HIGH_POWER_TX_PORT = 60021"

definition NETWORK_INTERFACE :: string where "NETWORK_INTERFACE = ''ens33''"

section \<open>Advertisements\<close>

text \<open>The payload of an advertisement, \<open>f"{address},{NODE_INDEX}"\<close>.\<close>

definition advertisement :: "string \<Rightarrow> int \<Rightarrow> string" where
  "advertisement address node_index = address @ CHR '','' # py_str_int node_index"

text \<open>A datagram, and the stream socket to the edge server: where it goes and what.\<close>

type_synonym sending = "(string \<times> int) \<times> byte list"

text \<open>
  \<open>bluetooth_sender\<close>: \<open>net\<close> is what the system makes of sending, an \<open>OSError\<close> or nothing.
\<close>

definition bluetooth_sender :: "interface_table \<Rightarrow> int \<Rightarrow> (sending \<Rightarrow> int option) \<Rightarrow> py_error + sending" where
  "bluetooth_sender addrs node_index net =
     rbind (get_address_on_interface addrs NETWORK_INTERFACE) (\<lambda>address.
     let d = ((BROADCAST_NODE_ADDRESS, BLUETOOTH_TX_PORT), py_encode (advertisement address node_index))
     in case net d of None \<Rightarrow> Inr d | Some e \<Rightarrow> Inl (OSError e))"

text \<open>
  \<open>[unicast_address, node_id] = message.split(",")\<close>; the exception of a message of another
  shape stays in the future and the listener goes on.
\<close>

definition bluetooth_process_advertisement :: "byte list \<Rightarrow> rat \<Rightarrow> members \<Rightarrow> py_error + members" where
  "bluetooth_process_advertisement data now local_group =
     rbind (py_decode data) (\<lambda>message.
     case py_split CHR '','' message of
       [unicast_address, node_id] \<Rightarrow> Inr (AList.update node_id (unicast_address, now) local_group)
     | _ \<Rightarrow> Inl ValueError)"

definition bluetooth_listener :: "byte list \<Rightarrow> rat \<Rightarrow> members \<Rightarrow> members" where
  "bluetooth_listener data now local_group =
     (case bluetooth_process_advertisement (recv_1024 data) now local_group of Inl _ \<Rightarrow> local_group | Inr g \<Rightarrow> g)"

text \<open>An id and an address that survive the encoding and fit a datagram.\<close>

definition plain_ad :: "string \<Rightarrow> string \<Rightarrow> bool" where
  "plain_ad k a \<longleftrightarrow> py_ascii k \<and> py_ascii a \<and> CHR '','' \<notin> set k \<and> CHR '','' \<notin> set a
     \<and> length a + length k < 1024"

lemma bluetooth_process_ad:
  "plain_ad k a \<Longrightarrow> bluetooth_process_advertisement (py_encode (a @ CHR '','' # k)) now g
     = Inr (AList.update k (a, now) g)"
  by (simp add: bluetooth_process_advertisement_def plain_ad_def)

lemma bluetooth_listener_ad:
  "plain_ad k a \<Longrightarrow> bluetooth_listener (py_encode (a @ CHR '','' # k)) now g = AList.update k (a, now) g"
  using bluetooth_process_ad [of k a now g] by (simp add: bluetooth_listener_def plain_ad_def)

lemma bluetooth_listener_table: "table g \<Longrightarrow> table (bluetooth_listener data now g)"
  by (auto simp: bluetooth_listener_def bluetooth_process_advertisement_def rbind_def
      split: sum.splits list.splits)

section \<open>Edge servers\<close>

text \<open>
  The socket to the edge server is made once; \<open>connect\<close> on a connected stream socket is
  error 106, which the code takes for success. \<open>dial\<close> is what the system makes of a first
  connection and \<open>net\<close> of a send.
\<close>

definition EISCONN :: int where "EISCONN = 106"
definition EPIPE :: int where "EPIPE = 32"

record edge_link =
  edge_server_address_time :: "(string \<times> rat) option"
  edge_peer :: "(string \<times> int) option"
  edge_sent :: "sending list"

definition edge_process_advertisement :: "byte list \<Rightarrow> rat \<Rightarrow> (edge_link, string) py" where
  "edge_process_advertisement data now =
     bnd (lift_result (py_decode data)) (\<lambda>message.
     seq (modify (\<lambda>s. s\<lparr>edge_server_address_time := Some (message, now)\<rparr>)) (ret message))"

definition edge_connect :: "(string \<times> int \<Rightarrow> int option) \<Rightarrow> string \<times> int \<Rightarrow> (edge_link, unit) py" where
  "edge_connect dial server =
     bnd (gets edge_peer) (\<lambda>peer.
     case peer of
       Some _ \<Rightarrow> raise (OSError EISCONN)
     | None \<Rightarrow>
         (case dial server of
            None \<Rightarrow> modify (\<lambda>s. s\<lparr>edge_peer := Some server\<rparr>)
          | Some e \<Rightarrow> raise (OSError e)))"

definition edge_send :: "(sending \<Rightarrow> int option) \<Rightarrow> byte list \<Rightarrow> (edge_link, unit) py" where
  "edge_send net data =
     bnd (gets edge_peer) (\<lambda>peer.
     case peer of
       None \<Rightarrow> raise (OSError EPIPE)
     | Some server \<Rightarrow>
         (case net (server, data) of
            None \<Rightarrow> modify (\<lambda>s. s\<lparr>edge_sent := edge_sent s @ [(server, data)]\<rparr>)
          | Some e \<Rightarrow> raise (OSError e)))"

definition try_oserror :: "(int \<Rightarrow> bool) \<Rightarrow> ('s, unit) py \<Rightarrow> ('s, unit) py" where
  "try_oserror caught m =
     (\<lambda>s. case m s of
        (Inl (OSError e), s') \<Rightarrow> (if caught e then (Inr (), s') else (Inl (OSError e), s'))
      | r \<Rightarrow> r)"

definition edge_responder ::
  "interface_table \<Rightarrow> int \<Rightarrow> (string \<times> int \<Rightarrow> int option) \<Rightarrow> (sending \<Rightarrow> int option) \<Rightarrow> string \<Rightarrow> (edge_link, unit) py" where
  "edge_responder addrs node_index dial net edge_unicast_address =
     seq (try_oserror (\<lambda>e. e = EISCONN) (edge_connect dial (edge_unicast_address, EDGE_UNICAST_TX_PORT)))
     (bnd (lift_result (get_address_on_interface addrs NETWORK_INTERFACE)) (\<lambda>address.
      edge_send net (py_encode (advertisement address node_index))))"

text \<open>One round of \<open>edge_broadcast_listener\<close>; an exception ends its thread.\<close>

definition edge_broadcast_listener ::
  "interface_table \<Rightarrow> int \<Rightarrow> (string \<times> int \<Rightarrow> int option) \<Rightarrow> (sending \<Rightarrow> int option) \<Rightarrow> byte list \<Rightarrow> rat \<Rightarrow> (edge_link, unit) py" where
  "edge_broadcast_listener addrs node_index dial net data now =
     bnd (edge_process_advertisement (recv_1024 data) now) (edge_responder addrs node_index dial net)"

section \<open>Consensus in the local group\<close>

definition comm_address :: "string \<Rightarrow> address" where
  "comm_address a = \<lparr>ip = a, port = py_str_int HIGH_POWER_TX_PORT\<rparr>"

text \<open>
  The loop of \<open>local_consensus\<close> over \<open>local_group.keys()\<close>, one access to the shared
  dictionary at a time. The iterator knows how many keys there were when it was made and how
  many it has returned; when asked for another it raises if their number has changed. In the
  body of the loop the key is looked up. While the loop runs only the listener writes to the
  dictionary, and it removes nothing, so the keys keep their places.
\<close>

datatype gather_pc =
    NextKey nat nat address_book
  | ReadKey string nat nat address_book
  | Gathered address_book

fun gather_step :: "members \<Rightarrow> gather_pc \<Rightarrow> py_error + gather_pc" where
  "gather_step local_group (NextKey used pos comm_dict) =
     (if length local_group \<noteq> used then Inl RuntimeError
      else if pos < used then Inr (ReadKey (fst (local_group ! pos)) used (Suc pos) comm_dict)
      else Inr (Gathered comm_dict))"
| "gather_step local_group (ReadKey key used pos comm_dict) =
     rbind (py_lookup local_group key) (\<lambda>(a, t).
     Inr (NextKey used pos (AList.update key (comm_address a) comm_dict)))"
| "gather_step local_group (Gathered comm_dict) = Inr (Gathered comm_dict)"

text \<open>The loop left alone: two steps for each key and one for the end.\<close>

fun gather_steps :: "nat \<Rightarrow> members \<Rightarrow> gather_pc \<Rightarrow> py_error + gather_pc" where
  "gather_steps 0 local_group pc = Inr pc"
| "gather_steps (Suc n) local_group pc = rbind (gather_step local_group pc) (gather_steps n local_group)"

fun book_so_far :: "gather_pc \<Rightarrow> address_book" where
  "book_so_far (NextKey used pos comm_dict) = comm_dict"
| "book_so_far (ReadKey key used pos comm_dict) = comm_dict"
| "book_so_far (Gathered comm_dict) = comm_dict"

definition gathered :: "members \<Rightarrow> py_error + address_book" where
  "gathered local_group =
     rbind (gather_steps (2 * length local_group + 1) local_group (NextKey (length local_group) 0 [])) (\<lambda>pc.
     Inr (book_so_far pc))"

text \<open>What comes after the loop: the device itself, the node, and what is asked of it.\<close>

definition comm_book :: "interface_table \<Rightarrow> int \<Rightarrow> address_book \<Rightarrow> py_error + address_book" where
  "comm_book addrs node_index comm_dict =
     rbind (get_address_on_interface addrs NETWORK_INTERFACE) (\<lambda>own.
     Inr (AList.update (py_str_int node_index) (comm_address own) comm_dict))"

definition local_consensus_book :: "interface_table \<Rightarrow> int \<Rightarrow> members \<Rightarrow> py_error + address_book" where
  "local_consensus_book addrs node_index local_group =
     rbind (gathered local_group) (comm_book addrs node_index)"

definition local_consensus_node ::
  "interface_table \<Rightarrow> int \<Rightarrow> members \<Rightarrow> rat \<Rightarrow> (nat \<Rightarrow> rat) \<Rightarrow> (int \<Rightarrow> int \<Rightarrow> int) \<Rightarrow> py_error + raft_node" where
  "local_consensus_node addrs node_index local_group draw clk od =
     rbind (local_consensus_book addrs node_index local_group) (\<lambda>comm_dict.
     RaftNode_init Map.empty (ConfigDict comm_dict) (py_str_int node_index) Follower draw clk od)"

text \<open>The value a device proposes, \<open>str(NODE_INDEX).__eq__("2")\<close> and so on.\<close>

definition local_consensus_value :: "int \<Rightarrow> pyval" where
  "local_consensus_value node_index =
     (if py_str_int node_index = ''2'' \<or> py_str_int node_index = ''3''
      then PyDict [(''val'', PyInt 2)] else PyDict [(''val'', PyInt 3)])"

text \<open>
  What \<open>local_consensus\<close> does to the node it has made, between the two waits: a request,
  a look at the last committed entry, and the end. \<open>work\<close> is what the node's own thread
  and the network make of the node while the main thread sleeps.
\<close>

definition local_consensus_session :: "int \<Rightarrow> (nat \<Rightarrow> raft_node \<Rightarrow> raft_node) \<Rightarrow> (raft_node, pyval) py" where
  "local_consensus_session node_index work =
     seq (modify (work 15))
     (seq (client_request (local_consensus_value node_index) (PyInt (- 1)))
     (seq (modify (work 5))
     (bnd (check_committed_entry PyNone) (\<lambda>last.
      seq (modify RaftNode_stop) (ret last)))))"

section \<open>The main thread\<close>

text \<open>
  What stays fixed while the device runs: its interfaces and index, what the system makes
  of its sends and connections, and what \<open>RaftNode\<close> needs from outside.
\<close>

record device =
  dv_addrs :: interface_table
  dv_index :: int
  dv_net :: "sending \<Rightarrow> int option"
  dv_dial :: "string \<times> int \<Rightarrow> int option"
  dv_draw :: rat
  dv_clock :: "nat \<Rightarrow> rat"
  dv_old_div :: "int \<Rightarrow> int \<Rightarrow> int"
  dv_work :: "nat \<Rightarrow> raft_node \<Rightarrow> raft_node"

text \<open>From the end of its loop on, \<open>local_consensus\<close> works on what it has gathered.\<close>

definition local_consensus :: "device \<Rightarrow> address_book \<Rightarrow> py_error + pyval" where
  "local_consensus dv comm_dict =
     rbind (comm_book (dv_addrs dv) (dv_index dv) comm_dict) (\<lambda>comm_dict'.
     rbind (RaftNode_init Map.empty (ConfigDict comm_dict') (py_str_int (dv_index dv)) Follower
       (dv_draw dv) (dv_clock dv) (dv_old_div dv))
       (\<lambda>n. fst (local_consensus_session (dv_index dv) (dv_work dv) n)))"

text \<open>
  The control points of the loop: waiting for the interval to pass, about to test the
  length of the snapshot of the keys, in \<open>local_consensus\<close>, about to test whether there is an
  edge server, about to compare its age, about to forget it, in the loop over the snapshot.
  An exception ends the thread.
\<close>

datatype main_pc =
    Waiting
  | Counting "string list"
  | Gathering "string list" gather_pc
  | EdgeCheck "string list"
  | EdgeAge "string list"
  | EdgeDrop "string list"
  | Sweeping sweep_pc
  | Died py_error

record node_main =
  nm_systime :: rat
  nm_group :: members
  nm_edge :: edge_link
  nm_sent :: "sending list"
  nm_pc :: main_pc

text \<open>One step of the main thread; \<open>now\<close> and \<open>now'\<close> are the two readings of the clock.\<close>

definition main_step :: "device \<Rightarrow> rat \<Rightarrow> rat \<Rightarrow> node_main \<Rightarrow> node_main" where
  "main_step dv now now' s =
     (case nm_pc s of
        Waiting \<Rightarrow>
          (if now - nm_systime s \<ge> BLUETOOTH_ADVERTISEMENT_INTERVAL
           then (let s' = s\<lparr>nm_systime := now'\<rparr> in
             case bluetooth_sender (dv_addrs dv) (dv_index dv) (dv_net dv) of
               Inl e \<Rightarrow> s'\<lparr>nm_pc := Died e\<rparr>
             | Inr d \<Rightarrow> s'\<lparr>nm_sent := nm_sent s @ [d], nm_pc := Counting (map fst (nm_group s))\<rparr>)
           else s)
      | Counting keylist \<Rightarrow>
          s\<lparr>nm_pc := if length keylist = 3 then Gathering keylist (NextKey (length (nm_group s)) 0 []) else EdgeCheck keylist\<rparr>
      | Gathering keylist (Gathered comm_dict) \<Rightarrow>
          s\<lparr>nm_pc := case local_consensus dv comm_dict of Inl e \<Rightarrow> Died e | Inr _ \<Rightarrow> EdgeCheck keylist\<rparr>
      | Gathering keylist pc \<Rightarrow>
          s\<lparr>nm_pc := case gather_step (nm_group s) pc of Inl e \<Rightarrow> Died e | Inr pc' \<Rightarrow> Gathering keylist pc'\<rparr>
      | EdgeCheck keylist \<Rightarrow>
          s\<lparr>nm_pc := case edge_server_address_time (nm_edge s) of
             None \<Rightarrow> Sweeping (Expiring keylist) | Some _ \<Rightarrow> EdgeAge keylist\<rparr>
      | EdgeAge keylist \<Rightarrow>
          s\<lparr>nm_pc := case edge_server_address_time (nm_edge s) of
             None \<Rightarrow> Died TypeError
           | Some (a, t) \<Rightarrow> if nm_systime s - t \<ge> EDGE_HEARTBEAT_TIMER then EdgeDrop keylist else Sweeping (Expiring keylist)\<rparr>
      | EdgeDrop keylist \<Rightarrow>
          s\<lparr>nm_edge := (nm_edge s)\<lparr>edge_server_address_time := None\<rparr>, nm_pc := Sweeping (Expiring keylist)\<rparr>
      | Sweeping (Expiring []) \<Rightarrow> s\<lparr>nm_pc := Waiting\<rparr>
      | Sweeping pc \<Rightarrow>
          (case sweep_step BLUETOOTH_HEARTBEAT_TIMER (nm_systime s) (nm_group s) pc of
             Inl e \<Rightarrow> s\<lparr>nm_pc := Died e\<rparr>
           | Inr (g, pc') \<Rightarrow> s\<lparr>nm_group := g, nm_pc := Sweeping pc'\<rparr>)
      | Died e \<Rightarrow> s)"

definition node_main_init :: "rat \<Rightarrow> node_main" where
  "node_main_init now =
     \<lparr>nm_systime = now, nm_group = [],
      nm_edge = \<lparr>edge_server_address_time = None, edge_peer = None, edge_sent = []\<rparr>,
      nm_sent = [], nm_pc = Waiting\<rparr>"

text \<open>The device: its main thread and its two listener threads, in any order.\<close>

inductive device_step :: "device \<Rightarrow> node_main \<Rightarrow> node_main \<Rightarrow> bool" for dv where
  main: "now \<le> now' \<Longrightarrow> device_step dv s (main_step dv now now' s)"
| bluetooth: "device_step dv s (s\<lparr>nm_group := bluetooth_listener data now (nm_group s)\<rparr>)"
| edge: "device_step dv s
    (s\<lparr>nm_edge := snd (edge_broadcast_listener (dv_addrs dv) (dv_index dv) (dv_dial dv) (dv_net dv) data now (nm_edge s))\<rparr>)"

inductive device_run :: "device \<Rightarrow> node_main \<Rightarrow> bool" for dv where
  start: "device_run dv (node_main_init now)"
| step: "device_run dv s \<Longrightarrow> device_step dv s s' \<Longrightarrow> device_run dv s'"

inductive_cases device_stepE: "device_step dv s s'"

section \<open>The history of a device\<close>

text \<open>
  An advertisement heard of is a datagram with an address, a comma and an id for its text;
  what the main thread does to the table it does in the loop over its snapshot.
\<close>

definition heard_in :: "byte list \<Rightarrow> rat \<Rightarrow> event list" where
  "heard_in data now =
     (case py_decode (recv_1024 data) of
        Inl _ \<Rightarrow> []
      | Inr text \<Rightarrow> (case py_split CHR '','' text of [a, k] \<Rightarrow> [Heard k a now] | _ \<Rightarrow> []))"

definition main_events :: "node_main \<Rightarrow> event list" where
  "main_events s = (case nm_pc s of Sweeping pc \<Rightarrow> sweep_events (nm_systime s) pc | _ \<Rightarrow> [])"

inductive device_event :: "device \<Rightarrow> node_main \<Rightarrow> event list \<Rightarrow> node_main \<Rightarrow> bool" for dv where
  main: "now \<le> now' \<Longrightarrow> device_event dv s (main_events s) (main_step dv now now' s)"
| bluetooth: "device_event dv s (heard_in data now) (s\<lparr>nm_group := bluetooth_listener data now (nm_group s)\<rparr>)"
| edge: "device_event dv s []
    (s\<lparr>nm_edge := snd (edge_broadcast_listener (dv_addrs dv) (dv_index dv) (dv_dial dv) (dv_net dv) data now (nm_edge s))\<rparr>)"

definition device_start :: "node_main \<Rightarrow> bool" where
  "device_start s \<longleftrightarrow> s = node_main_init (nm_systime s)"

abbreviation device_log :: "device \<Rightarrow> node_main \<Rightarrow> event list \<Rightarrow> bool" where
  "device_log dv \<equiv> logged_run device_start (device_event dv)"

lemma device_step_event: "device_step dv s s' \<longleftrightarrow> (\<exists>es. device_event dv s es s')"
  by (auto elim!: device_stepE device_event.cases intro: device_step.intros device_event.intros)

text \<open>The logged runs are the runs.\<close>

lemma device_run_log: "device_run dv s \<longleftrightarrow> (\<exists>H. device_log dv s H)"
proof
  assume "device_run dv s"
  then show "\<exists>H. device_log dv s H"
  proof induction
    case (start now)
    have "device_start (node_main_init now)"
      by (simp add: device_start_def node_main_init_def)
    then show ?case
      by (blast intro: logged_run.start)
  next
    case (step s s')
    then show ?case
      unfolding device_step_event by (blast intro: logged_run.move)
  qed
next
  assume "\<exists>H. device_log dv s H"
  then obtain H where "device_log dv s H"
    by blast
  then show "device_run dv s"
  proof induction
    case (start s)
    then show ?case
      unfolding device_start_def by (metis device_run.start)
  next
    case (move s H es s')
    then show ?case
      by (blast intro: device_run.step device_step_event [THEN iffD2])
  qed
qed

section \<open>The table under the three threads\<close>

definition gather_ok :: "members \<Rightarrow> gather_pc \<Rightarrow> bool" where
  "gather_ok g pc \<longleftrightarrow> (case pc of ReadKey k n p d \<Rightarrow> k \<in> fst ` set g | _ \<Rightarrow> True)"

definition keys_ok :: "members \<Rightarrow> string list \<Rightarrow> bool" where
  "keys_ok g ks \<longleftrightarrow> distinct ks \<and> set ks \<subseteq> fst ` set g"

definition main_ok :: "node_main \<Rightarrow> bool" where
  "main_ok s \<longleftrightarrow> table (nm_group s) \<and>
     (case nm_pc s of
        Waiting \<Rightarrow> True
      | Counting ks \<Rightarrow> keys_ok (nm_group s) ks
      | Gathering ks pc \<Rightarrow> keys_ok (nm_group s) ks \<and> gather_ok (nm_group s) pc
      | EdgeCheck ks \<Rightarrow> keys_ok (nm_group s) ks
      | EdgeAge ks \<Rightarrow> keys_ok (nm_group s) ks \<and> edge_server_address_time (nm_edge s) \<noteq> None
      | EdgeDrop ks \<Rightarrow> keys_ok (nm_group s) ks
      | Sweeping pc \<Rightarrow> sweep_ok (nm_group s) pc
      | Died e \<Rightarrow> True)"

definition condemned_peer :: "node_main \<Rightarrow> string option" where
  "condemned_peer s = (case nm_pc s of Sweeping pc \<Rightarrow> dropping pc | _ \<Rightarrow> None)"

text \<open>What the main thread may die of, if the device has an address.\<close>

definition fatal :: "py_error \<Rightarrow> bool" where
  "fatal e \<longleftrightarrow> e = IndexError \<or> e = RuntimeError \<or> (\<exists>n. e = OSError n)"

lemma local_consensus_error:
  assumes "get_address_on_interface (dv_addrs dv) NETWORK_INTERFACE = Inr own" and "local_consensus dv d = Inl e"
  shows "e = IndexError"
  using assms
  by (auto simp: local_consensus_def comm_book_def RaftNode_init_def
      local_consensus_session_def client_request_def check_committed_entry_def py_run py_getitem_def Let_def
      update_conv split: if_splits sum.splits option.splits prod.splits)

lemma gather_step_keys:
  assumes "gather_ok g pc"
  shows "(\<exists>pc'. gather_step g pc = Inr pc' \<and> gather_ok g pc') \<or> gather_step g pc = Inl RuntimeError"
proof (cases pc)
  case (ReadKey k n p d')
  then obtain a t where "py_lookup g k = Inr (a, t)"
    using assms(1) py_lookup_found [of k g] by (auto simp: gather_ok_def)
  with ReadKey show ?thesis
    by (simp add: gather_ok_def)
qed (use assms in \<open>auto simp: gather_ok_def\<close>)

lemma main_ok_main:
  assumes "main_ok s"
  shows "main_ok (main_step dv now now' s)
    \<and> (get_address_on_interface (dv_addrs dv) NETWORK_INTERFACE = Inr own \<and> nm_pc (main_step dv now now' s) = Died e
         \<longrightarrow> fatal e \<or> nm_pc s = Died e)
    \<and> expire BLUETOOTH_HEARTBEAT_TIMER (main_events s) (map_of (nm_group s), condemned_peer s)
        = Some (map_of (nm_group (main_step dv now now' s)), condemned_peer (main_step dv now now' s))"
proof (cases "nm_pc s")
  case Waiting
  with assms show ?thesis
    by (auto simp: main_step_def main_ok_def keys_ok_def bluetooth_sender_def Let_def table_def fatal_def main_events_def
        condemned_peer_def rbind_def split: option.split sum.splits)
next
  case (Counting ks)
  with assms show ?thesis
    by (simp add: main_step_def main_ok_def gather_ok_def main_events_def condemned_peer_def)
next
  case (Gathering ks pc)
  show ?thesis
  proof (cases "\<exists>d. pc = Gathered d")
    case True
    with Gathering assms local_consensus_error [of dv own] show ?thesis
      by (auto simp: main_step_def main_ok_def fatal_def main_events_def condemned_peer_def split: sum.splits)
  next
    case False
    then have step: "main_step dv now now' s =
        s\<lparr>nm_pc := case gather_step (nm_group s) pc of Inl e \<Rightarrow> Died e | Inr pc' \<Rightarrow> Gathering ks pc'\<rparr>"
      using Gathering by (cases pc) (simp_all add: main_step_def)
    from Gathering assms have "gather_ok (nm_group s) pc"
      by (simp add: main_ok_def)
    from gather_step_keys [OF this] False Gathering assms show ?thesis
      by (auto simp: step main_ok_def fatal_def main_events_def condemned_peer_def)
  qed
next
  case (EdgeCheck ks)
  with assms show ?thesis
    by (auto simp: main_step_def main_ok_def main_events_def condemned_peer_def keys_ok_def intro!: sweep_ok_start
        split: option.split)
next
  case (EdgeAge ks)
  with assms show ?thesis
    by (auto simp: main_step_def main_ok_def main_events_def condemned_peer_def keys_ok_def intro!: sweep_ok_start
        split: if_splits)
next
  case (EdgeDrop ks)
  with assms show ?thesis
    by (auto simp: main_step_def main_ok_def main_events_def condemned_peer_def keys_ok_def intro!: sweep_ok_start)
next
  case (Sweeping pc)
  then have "sweep_ok (nm_group s) pc" and g: "table (nm_group s)"
    using assms by (simp_all add: main_ok_def)
  from sweep_ok_step [OF this(1), of BLUETOOTH_HEARTBEAT_TIMER "nm_systime s"] obtain g' pc' where
    step: "sweep_step BLUETOOTH_HEARTBEAT_TIMER (nm_systime s) (nm_group s) pc = Inr (g', pc')" "sweep_ok g' pc'"
    by blast
  note expires = sweep_step_expires [OF step(1) g]
  show ?thesis
  proof (cases "pc = Expiring []")
    case True
    with Sweeping assms show ?thesis
      by (simp add: main_step_def main_ok_def main_events_def condemned_peer_def)
  next
    case False
    then have "main_step dv now now' s = s\<lparr>nm_group := g', nm_pc := Sweeping pc'\<rparr>"
      using Sweeping step(1) by (cases pc rule: sweep_pc.exhaust) (auto simp: main_step_def split: list.split)
    with Sweeping step(2) expires show ?thesis
      by (auto simp: main_ok_def sweep_ok_def main_events_def condemned_peer_def)
  qed
next
  case (Died e)
  with assms show ?thesis
    by (simp add: main_step_def main_ok_def main_events_def condemned_peer_def)
qed

lemma main_ok_update: "main_ok s \<Longrightarrow> main_ok (s\<lparr>nm_group := AList.update k v (nm_group s)\<rparr>)"
  by (auto simp: main_ok_def keys_ok_def gather_ok_def sweep_ok_update split: main_pc.splits gather_pc.splits)

text \<open>What the listener does to the table is what its datagram tells of.\<close>

lemma bluetooth_listener_heard:
  "bluetooth_listener data now g = g \<and> heard_in data now = []
   \<or> (\<exists>k a. bluetooth_listener data now g = AList.update k (a, now) g \<and> heard_in data now = [Heard k a now])"
  by (auto simp: bluetooth_listener_def bluetooth_process_advertisement_def heard_in_def rbind_def
      split: sum.splits list.splits)

lemma edge_listener_time:
  "edge_server_address_time s \<noteq> None \<Longrightarrow>
   edge_server_address_time (snd (edge_broadcast_listener addrs i dial net data now s)) \<noteq> None"
  by (auto simp: edge_broadcast_listener_def edge_process_advertisement_def edge_responder_def edge_connect_def
      edge_send_def try_oserror_def py_run split: option.splits sum.splits prod.splits py_error.splits)

lemma main_ok_event:
  assumes "main_ok s" and "device_event dv s es s'"
  shows "main_ok s'
    \<and> (get_address_on_interface (dv_addrs dv) NETWORK_INTERFACE = Inr own \<and> nm_pc s' = Died e \<longrightarrow> fatal e \<or> nm_pc s = Died e)
    \<and> expire BLUETOOTH_HEARTBEAT_TIMER es (map_of (nm_group s), condemned_peer s)
        = Some (map_of (nm_group s'), condemned_peer s')"
  using assms(2)
proof cases
  case (main now now')
  with main_ok_main [OF assms(1)] show ?thesis
    by simp
next
  case (bluetooth data now)
  with bluetooth_listener_heard [of data now "nm_group s"] main_ok_update [OF assms(1)] assms(1) show ?thesis
    by (auto simp: condemned_peer_def update_conv')
next
  case edge
  with assms(1) edge_listener_time show ?thesis
    by (cases "nm_pc s") (simp_all add: main_ok_def condemned_peer_def)
qed

interpretation peers: expiring_members device_start "device_event dv" main_ok "\<lambda>s. map_of (nm_group s)" condemned_peer
    BLUETOOTH_HEARTBEAT_TIMER for dv
proof
  fix s assume "device_start s"
  then have "nm_group s = []" "nm_pc s = Waiting"
    by (metis device_start_def node_main_init_def node_main.select_convs)+
  then show "main_ok s" "map_of (nm_group s) = Map.empty \<and> condemned_peer s = None"
    by (simp_all add: main_ok_def condemned_peer_def)
qed (use main_ok_event in blast)+

lemma dies_of_fatal:
  assumes "get_address_on_interface (dv_addrs dv) NETWORK_INTERFACE = Inr own" and "device_log dv s H"
  shows "nm_pc s = Died e \<longrightarrow> fatal e"
  using assms(2)
proof induction
  case (start s)
  then have "nm_pc s = Waiting"
    by (metis device_start_def node_main_init_def node_main.select_convs(5))
  then show ?case
    by simp
next
  case (move s H es s')
  from main_ok_event [OF peers.stays_ok [OF move(1)] move(2)] assms(1) move(3) show ?case
    by blast
qed

section \<open>One round of the loop\<close>

abbreviation reaches :: "device \<Rightarrow> rat \<Rightarrow> rat \<Rightarrow> nat \<Rightarrow> node_main \<Rightarrow> node_main \<Rightarrow> bool" where
  "reaches dv now now' n s t \<equiv> \<exists>m \<le> n. (main_step dv now now' ^^ m) s = t"

lemma reaches_trans: "reaches dv now now' n s t \<Longrightarrow> reaches dv now now' m t u \<Longrightarrow> reaches dv now now' (n + m) s u"
proof (elim exE conjE)
  fix i j assume "i \<le> n" "(main_step dv now now' ^^ i) s = t" "j \<le> m" "(main_step dv now now' ^^ j) t = u"
  then show "reaches dv now now' (n + m) s u"
    by (intro exI [of _ "j + i"]) (simp add: funpow_add)
qed

lemma reaches_step: "main_step dv now now' s = t \<Longrightarrow> reaches dv now now' 1 s t"
  by (intro exI [of _ 1]) simp

lemma reaches_gather:
  assumes "gather_steps n (nm_group s) pc = Inr (Gathered d)" and "nm_pc s = Gathering ks pc"
  shows "reaches dv now now' n s (s\<lparr>nm_pc := Gathering ks (Gathered d)\<rparr>)"
  using assms
proof (induction n arbitrary: s pc)
  case 0
  then show ?case
    by (intro exI [of _ 0]) simp
next
  case (Suc n)
  show ?case
  proof (cases "\<exists>d'. pc = Gathered d'")
    case True
    then obtain d' where pc: "pc = Gathered d'"
      by blast
    have "gather_steps m g (Gathered d') = Inr (Gathered d')" for m g
      by (induction m) simp_all
    with Suc.prems pc show ?thesis
      by (intro exI [of _ 0]) (simp del: gather_steps.simps)
  next
    case False
    from Suc.prems(1) obtain pc' where one: "gather_step (nm_group s) pc = Inr pc'"
      and rest: "gather_steps n (nm_group s) pc' = Inr (Gathered d)"
      by (auto simp: rbind_Inr_iff)
    let ?s = "s\<lparr>nm_pc := Gathering ks pc'\<rparr>"
    have "main_step dv now now' s = ?s"
      using False Suc.prems(2) one by (cases pc) (simp_all add: main_step_def)
    from reaches_trans [OF reaches_step [OF this], of n] Suc.IH [of ?s pc'] rest show ?thesis
      by simp
  qed
qed

lemma reaches_edge:
  assumes "nm_pc s = EdgeCheck ks" and "nm_systime s = sys"
  shows "reaches dv now now' 3 s (s\<lparr>nm_edge := (nm_edge s)\<lparr>edge_server_address_time :=
      case edge_server_address_time (nm_edge s) of None \<Rightarrow> None
      | Some (a, t) \<Rightarrow> if sys - t \<ge> EDGE_HEARTBEAT_TIMER then None else Some (a, t)\<rparr>,
    nm_pc := Sweeping (Expiring ks)\<rparr>)"
proof (cases "edge_server_address_time (nm_edge s)")
  case None
  have "(nm_edge s)\<lparr>edge_server_address_time := None\<rparr> = nm_edge s"
    using None by (cases "nm_edge s") simp
  with None assms show ?thesis
    by (intro exI [of _ 1]) (simp add: main_step_def)
next
  case (Some x)
  obtain a t where x: "x = (a, t)"
    by force
  let ?age = "s\<lparr>nm_pc := EdgeAge ks\<rparr>" and ?drop = "s\<lparr>nm_pc := EdgeDrop ks\<rparr>"
  have age: "main_step dv now now' s = ?age"
    using assms Some by (simp add: main_step_def)
  show ?thesis
  proof (cases "sys - t \<ge> EDGE_HEARTBEAT_TIMER")
    case True
    have "main_step dv now now' ?age = ?drop"
      using Some True by (simp add: main_step_def x assms(2))
    moreover have "main_step dv now now' ?drop =
        s\<lparr>nm_edge := (nm_edge s)\<lparr>edge_server_address_time := None\<rparr>, nm_pc := Sweeping (Expiring ks)\<rparr>"
      by (simp add: main_step_def)
    ultimately show ?thesis
      using Some True age by (intro exI [of _ 3]) (simp add: numeral_3_eq_3 x)
  next
    case False
    have "(nm_edge s)\<lparr>edge_server_address_time := Some (a, t)\<rparr> = nm_edge s"
      using Some x by (cases "nm_edge s") simp
    moreover have "main_step dv now now' ?age = s\<lparr>nm_pc := Sweeping (Expiring ks)\<rparr>"
      using Some False by (simp add: main_step_def x assms(2))
    ultimately show ?thesis
      using Some False age by (intro exI [of _ 2]) (simp add: numeral_2_eq_2 x)
  qed
qed

lemma reaches_sweep:
  assumes "sweep_steps n BLUETOOTH_HEARTBEAT_TIMER (nm_systime s) (nm_group s) pc = Inr (g, Expiring [])"
    and "nm_pc s = Sweeping pc"
  shows "reaches dv now now' n s (s\<lparr>nm_group := g, nm_pc := Sweeping (Expiring [])\<rparr>)"
  using assms
proof (induction n arbitrary: s pc)
  case 0
  then show ?case
    by (intro exI [of _ 0]) simp
next
  case (Suc n)
  show ?case
  proof (cases "pc = Expiring []")
    case True
    with Suc.prems show ?thesis
      by (intro exI [of _ 0]) simp
  next
    case False
    from Suc.prems(1) obtain g' pc' where
      one: "sweep_step BLUETOOTH_HEARTBEAT_TIMER (nm_systime s) (nm_group s) pc = Inr (g', pc')" and
      rest: "sweep_steps n BLUETOOTH_HEARTBEAT_TIMER (nm_systime s) g' pc' = Inr (g, Expiring [])"
      by (auto simp: rbind_def split: sum.splits prod.splits)
    let ?s = "s\<lparr>nm_group := g', nm_pc := Sweeping pc'\<rparr>"
    have step: "main_step dv now now' s = ?s"
      using False Suc.prems(2) one
      by (cases pc rule: sweep_pc.exhaust) (auto simp: main_step_def split: list.split)
    from reaches_trans [OF reaches_step [OF step], of n] Suc.IH [of ?s pc'] rest show ?thesis
      by simp
  qed
qed

section \<open>The address book of the group\<close>

lemma update_new: "k \<notin> fst ` set d \<Longrightarrow> AList.update k v d = d @ [(k, v)]"
  by (induction d) auto

lemma set_update:
  "distinct (map fst d) \<Longrightarrow> set (AList.update k v d) = insert (k, v) {e \<in> set d. fst e \<noteq> k}"
  by (induction d) force+

definition book_row :: "string \<times> string \<times> rat \<Rightarrow> string \<times> address" where
  "book_row e = (fst e, comm_address (fst (snd e)))"

lemma book_members:
  assumes "table g" and "fst ` set d \<inter> fst ` set g = {}"
  shows "foldl (\<lambda>d (k, a, t). AList.update k (comm_address a) d) d g = d @ map book_row g"
  using assms
proof (induction g arbitrary: d)
  case (Cons e g)
  obtain k a t where e: "e = (k, a, t)"
    by (cases e)
  have "fst ` set (d @ [(k, comm_address a)]) \<inter> fst ` set g = {}"
    using Cons.prems by (auto simp: e table_def)
  with Cons show ?case
    by (auto simp: e update_new table_def book_row_def)
qed simp

definition book_of :: "string \<Rightarrow> int \<Rightarrow> members \<Rightarrow> address_book" where
  "book_of own i g = AList.update (py_str_int i) (comm_address own) (map book_row g)"

lemma map_fst_book [simp]: "map (fst \<circ> book_row) g = map fst g"
  by (simp add: book_row_def)

lemma gather_steps_run:
  assumes "table g" and "p \<le> length g"
  shows "gather_steps (2 * (length g - p) + 1) g (NextKey (length g) p d) =
    Inr (Gathered (foldl (\<lambda>d (k, a, t). AList.update k (comm_address a) d) d (drop p g)))"
  using assms(2)
proof (induction "length g - p" arbitrary: p d)
  case 0
  then show ?case
    by simp
next
  case (Suc n)
  then have p: "p < length g" and n: "n = length g - Suc p"
    by simp_all
  obtain k a t where e: "g ! p = (k, a, t)"
    by (cases "g ! p")
  have "map_of g k = Some (a, t)"
    using assms(1) p nth_mem [OF p] by (simp add: e table_def)
  then have "py_lookup g k = Inr (a, t)"
    by (simp add: py_lookup_def)
  moreover have "gather_steps (2 * n + 1) g (NextKey (length g) (Suc p) (AList.update k (comm_address a) d)) =
      Inr (Gathered (foldl (\<lambda>d (k, a, t). AList.update k (comm_address a) d) (AList.update k (comm_address a) d) (drop (Suc p) g)))"
    using Suc.hyps(1) [of "Suc p"] n p by simp
  moreover have "2 * (length g - p) + 1 = Suc (Suc (2 * n + 1))"
    using n p by simp
  ultimately show ?case
    using p e Cons_nth_drop_Suc [OF p, symmetric] by simp
qed

lemma gathered_run: "table g \<Longrightarrow> gathered g = Inr (map book_row g)"
  using gather_steps_run [of g 0 "[]"] by (simp add: gathered_def book_members del: gather_steps.simps)

lemma local_consensus_book_run:
  "table g \<Longrightarrow> get_address_on_interface addrs NETWORK_INTERFACE = Inr own \<Longrightarrow>
   local_consensus_book addrs i g = Inr (book_of own i g)"
  by (simp add: local_consensus_book_def gathered_run comm_book_def book_of_def)

lemma distinct_book: "table g \<Longrightarrow> distinct (map fst (book_of own i g))"
  unfolding book_of_def table_def by (rule distinct_update) simp

lemma set_book:
  assumes "table g"
  shows "set (book_of own i g) = insert (py_str_int i, comm_address own)
     (book_row ` {e \<in> set g. fst e \<noteq> py_str_int i})"
  using assms unfolding book_of_def table_def
  by (subst set_update) (auto simp: book_row_def)

lemma set_member_addresses:
  "set (member_addresses ab) = (\<lambda>e. address_of (snd e)) ` {e \<in> set ab. fst e \<noteq> ''leader''}"
  by (force simp: member_addresses_def)

lemma book_filter:
  assumes "table g" and "P (py_str_int i)"
  shows "{e \<in> set (book_of own i g). P (fst e)} = insert (py_str_int i, comm_address own)
      (book_row ` {e \<in> set g. fst e \<noteq> py_str_int i \<and> P (fst e)})"
  unfolding set_book [OF assms(1)] using assms(2) by (auto simp: book_row_def)

lemma book_names: "table g \<Longrightarrow> fst ` set (book_of own i g) = insert (py_str_int i) (fst ` set g)"
  unfolding set_book by (force simp: book_row_def)

lemma length_member_addresses:
  assumes "distinct (map fst ab)"
  shows "length (member_addresses ab) = card (fst ` set ab - {''leader''})"
proof -
  let ?f = "filter (\<lambda>(a, ad). a \<noteq> ''leader'') ab"
  have "distinct (map fst ?f)"
    using assms by (simp add: distinct_map_filter)
  then have "length ?f = card (set (map fst ?f))"
    using distinct_card [of "map fst ?f"] by simp
  also have "set (map fst ?f) = fst ` set ab - {''leader''}"
    by force
  finally show ?thesis
    by (simp add: member_addresses_def)
qed

lemma reaches_consensus:
  assumes "nm_pc s = Counting ks" and "table (nm_group s)" and "length ks = length (nm_group s)"
    and "length (nm_group s) = 3 \<longrightarrow> (\<exists>v. rbind (gathered (nm_group s)) (local_consensus dv) = Inr v)"
  shows "reaches dv now now' (if length (nm_group s) = 3 then 9 else 1) s (s\<lparr>nm_pc := EdgeCheck ks\<rparr>)"
proof (cases "length (nm_group s) = 3")
  case True
  let ?s = "s\<lparr>nm_pc := Gathering ks (NextKey 3 0 [])\<rparr>" and ?d = "map book_row (nm_group s)"
  let ?t = "s\<lparr>nm_pc := Gathering ks (Gathered ?d)\<rparr>"
  have one: "reaches dv now now' 1 s ?s"
    using assms(1,3) True by (intro reaches_step) (simp add: main_step_def)
  have "gather_steps 7 (nm_group s) (NextKey 3 0 []) = Inr (Gathered ?d)"
    using gather_steps_run [OF assms(2), of 0 "[]"] True assms(2) by (simp add: book_members del: gather_steps.simps)
  then have two: "reaches dv now now' 7 ?s ?t"
    using reaches_gather [of 7 ?s "NextKey 3 0 []" ?d ks dv now now'] by simp
  obtain v where "local_consensus dv ?d = Inr v"
    using assms(4) True gathered_run [OF assms(2)] by auto
  then have three: "reaches dv now now' 1 ?t (s\<lparr>nm_pc := EdgeCheck ks\<rparr>)"
    by (intro reaches_step) (simp add: main_step_def)
  from reaches_trans [OF reaches_trans [OF one two] three] True show ?thesis
    by simp
next
  case False
  with assms(1,3) have "main_step dv now now' s = s\<lparr>nm_pc := EdgeCheck ks\<rparr>"
    by (simp add: main_step_def)
  from reaches_step [OF this] False show ?thesis
    by simp
qed

section \<open>Properties\<close>

definition sample_device :: "(sending \<Rightarrow> int option) \<Rightarrow> device" where
  "sample_device net = \<lparr>dv_addrs = [(NETWORK_INTERFACE, [(2, ''10.0.0.1'')])], dv_index = 1, dv_net = net,
     dv_dial = (\<lambda>_. None), dv_draw = 0, dv_clock = of_nat, dv_old_div = (div), dv_work = (\<lambda>_ n. n)\<rparr>"

lemma sample_device_simps [simp]:
  "dv_index (sample_device net) = 1" "dv_net (sample_device net) = net"
  "get_address_on_interface (dv_addrs (sample_device net)) NETWORK_INTERFACE = Inr ''10.0.0.1''"
  by (simp_all add: sample_device_def get_address_on_interface_def)

lemmas main_step_simps = main_step_def bluetooth_sender_def Let_def node_main_init_def
  BLUETOOTH_ADVERTISEMENT_INTERVAL_def BLUETOOTH_HEARTBEAT_TIMER_def

text \<open>
  C29. A device's group is what its history tells, under every interleaving of its three
  threads: the table has, for every peer, the address and the time of the last advertisement
  heard since it was last dropped, and nobody else. A peer is dropped only after the main
  thread has found its last advertisement to be five seconds old or older at the system time
  of the round, and nothing but hearing has happened in between; and a peer found to be that
  old is the next to be dropped, or the main thread is about to do so. What is heard of a
  peer between the test and the \<open>del\<close> does not save it.
\<close>

theorem group_members_are_recent:
  assumes "device_log dv s H"
  shows "map_of (nm_group s) = remembered H
    \<and> (\<forall>p k q. H = p @ Dropped k # q \<longrightarrow>
         (\<exists>p' now r a t. p = p' @ Judged k now # r \<and> list_all hearing r \<and> remembered p' k = Some (a, t) \<and> now - t \<ge> 5000000000))
    \<and> (\<forall>p k now q a t. H = p @ Judged k now # q \<and> remembered p k = Some (a, t) \<and> now - t \<ge> 5000000000 \<longrightarrow>
         (\<exists>r q'. q = r @ Dropped k # q' \<and> list_all hearing r)
         \<or> list_all hearing q \<and> (\<exists>ks. nm_pc s = Sweeping (Deleting k ks)))"
proof -
  have timer: "BLUETOOTH_HEARTBEAT_TIMER = 5000000000"
    by (simp add: BLUETOOTH_HEARTBEAT_TIMER_def BLUETOOTH_ADVERTISEMENT_INTERVAL_def)
  have "\<exists>ks. nm_pc s = Sweeping (Deleting k ks)" if "condemned_peer s = Some k" for k
    using that by (auto simp: condemned_peer_def split: main_pc.splits elim: dropping.elims)
  with assms show ?thesis
    using peers.knows_the_remembered [OF assms] peers.drops_the_old [of dv s] peers.old_fall [of dv s]
    unfolding timer by blast
qed

text \<open>A peer is heard of once, found too old in a later round, and dropped.\<close>

theorem group_members_are_recent_witness:
  "\<exists>s. device_log (sample_device (\<lambda>_. None)) s [Heard ''9'' ''10.0.0.9'' 0, Judged ''9'' 6000000000, Dropped ''9'']
     \<and> map_of (nm_group s) ''9'' = None"
proof -
  let ?dv = "sample_device (\<lambda>_. None)"
  let ?ad = "py_encode ''10.0.0.9,9''"
  let ?main = "main_step ?dv 6000000000 6000000000"
  let ?ad1 = "((BROADCAST_NODE_ADDRESS, BLUETOOTH_TX_PORT), py_encode (advertisement ''10.0.0.1'' 1))"
  let ?s0 = "(node_main_init 0)\<lparr>nm_group := bluetooth_listener ?ad 0 (nm_group (node_main_init 0))\<rparr>"
  let ?at = "\<lambda>pc. (node_main_init 6000000000)\<lparr>nm_group := [(''9'', ''10.0.0.9'', 0)], nm_sent := [?ad1], nm_pc := pc\<rparr>"
  have hear: "bluetooth_listener ?ad now g = AList.update ''9'' (''10.0.0.9'', now) g" for now g
    using bluetooth_listener_ad [of "''9''" "''10.0.0.9''" now g] by (simp add: plain_ad_def)
  have heard: "heard_in ?ad 0 = [Heard ''9'' ''10.0.0.9'' 0]"
    using bluetooth_listener_heard [of ?ad 0 "[]"] by (simp add: hear)
  have main: "device_log ?dv s H \<Longrightarrow> device_log ?dv (?main s) (H @ main_events s)" for s H
    by (rule logged_run.move, assumption, rule device_event.main) simp
  have "device_log ?dv (node_main_init 0) []"
    by (rule logged_run.start) (simp add: device_start_def node_main_init_def)
  from logged_run.move [OF this device_event.bluetooth] have "device_log ?dv ?s0 ([] @ heard_in ?ad 0)"
    by blast
  then have "device_log ?dv (?main ?s0) [Heard ''9'' ''10.0.0.9'' 0]"
    using main by (fastforce simp: heard main_events_def node_main_init_def)
  moreover have "?main ?s0 = ?at (Counting [''9''])"
    by (simp add: main_step_simps hear)
  ultimately have "device_log ?dv (?at (Counting [''9''])) [Heard ''9'' ''10.0.0.9'' 0]"
    by simp
  from main [OF this] have "device_log ?dv (?at (EdgeCheck [''9''])) [Heard ''9'' ''10.0.0.9'' 0]"
    by (simp add: main_step_def main_events_def)
  from main [OF this] have "device_log ?dv (?at (Sweeping (Expiring [''9'']))) [Heard ''9'' ''10.0.0.9'' 0]"
    by (simp add: main_step_def main_events_def node_main_init_def)
  from main [OF this] have "device_log ?dv (?at (Sweeping (Deleting ''9'' []))) [Heard ''9'' ''10.0.0.9'' 0, Judged ''9'' 6000000000]"
    by (simp add: main_step_simps main_events_def py_lookup_def)
  from main [OF this] have
    log: "device_log ?dv (?main (?at (Sweeping (Deleting ''9'' [])))) [Heard ''9'' ''10.0.0.9'' 0, Judged ''9'' 6000000000, Dropped ''9'']"
    by (simp add: main_events_def)
  with group_members_are_recent [OF log] show ?thesis
    by (auto simp: remembered_def)
qed

text \<open>
  C30. The main thread against its listeners: whatever the interleaving, reading and
  deleting keys of the shared table never raises a \<open>KeyError\<close> and the edge server is never
  compared when there is none; if the device has an address, the main thread can only die of
  a failing send, of a committed index beyond the log of its node, or of a peer that is new
  while \<open>local_consensus\<close> iterates over the table.
\<close>

theorem main_thread_never_misses_a_key:
  assumes "device_run dv s" and "get_address_on_interface (dv_addrs dv) NETWORK_INTERFACE = Inr own"
    and "nm_pc s = Died e"
  shows "e = IndexError \<or> e = RuntimeError \<or> (\<exists>n. e = OSError n)"
  using dies_of_fatal [OF assms(2)] assms(1,3) by (auto simp: device_run_log fatal_def)

theorem main_thread_never_misses_a_key_witness:
  "\<exists>s e. device_run (sample_device (\<lambda>_. Some 111)) s \<and> nm_pc s = Died e \<and> (e = IndexError \<or> e = RuntimeError \<or> (\<exists>n. e = OSError n))"
proof -
  let ?dv = "sample_device (\<lambda>_. Some 111)"
  let ?s = "main_step ?dv 1000000000 1000000000 (node_main_init 0)"
  have "device_run ?dv ?s"
    by (rule device_run.step [OF device_run.start device_step.main]) simp
  moreover have "nm_pc ?s = Died (OSError 111)"
    by (simp add: main_step_simps)
  ultimately show ?thesis
    using main_thread_never_misses_a_key [of ?dv ?s] by auto
qed

text \<open>
  A newcomer kills the main thread: with three peers in the group, consensus starts, and an
  advertisement of a fourth that comes while the loop runs raises a \<open>RuntimeError\<close>.
\<close>

lemma newcomer_kills_the_main_thread:
  "\<exists>s. device_run (sample_device (\<lambda>_. None)) s \<and> nm_pc s = Died RuntimeError"
proof -
  let ?dv = "sample_device (\<lambda>_. None)"
  let ?main = "main_step ?dv 6000000000 6000000000"
  let ?hear = "\<lambda>ad s. s\<lparr>nm_group := bluetooth_listener (py_encode ad) 0 (nm_group s)\<rparr>"
  have hear: "bluetooth_listener (py_encode ''10.0.0.6,6'') now g = AList.update ''6'' (''10.0.0.6'', now) g"
      "bluetooth_listener (py_encode ''10.0.0.7,7'') now g = AList.update ''7'' (''10.0.0.7'', now) g"
      "bluetooth_listener (py_encode ''10.0.0.8,8'') now g = AList.update ''8'' (''10.0.0.8'', now) g"
      "bluetooth_listener (py_encode ''10.0.0.9,9'') now g = AList.update ''9'' (''10.0.0.9'', now) g" for now g
    using bluetooth_listener_ad [of "''6''" "''10.0.0.6''" now g] bluetooth_listener_ad [of "''7''" "''10.0.0.7''" now g]
      bluetooth_listener_ad [of "''8''" "''10.0.0.8''" now g] bluetooth_listener_ad [of "''9''" "''10.0.0.9''" now g]
    by (simp_all add: plain_ad_def)
  have main: "device_run ?dv s \<Longrightarrow> device_run ?dv (?main s)" for s
    by (rule device_run.step, assumption, rule device_step.main) simp
  have heard: "device_run ?dv s \<Longrightarrow> device_run ?dv (?hear ad s)" for s ad
    by (rule device_run.step, assumption, rule device_step.bluetooth)
  let ?s = "?hear ''10.0.0.7,7'' (?hear ''10.0.0.8,8'' (?hear ''10.0.0.9,9'' (node_main_init 0)))"
  let ?t = "?main (?hear ''10.0.0.6,6'' (?main (?main ?s)))"
  have "device_run ?dv ?t"
    by (intro main heard device_run.start)
  moreover have "nm_pc ?t = Died RuntimeError"
    by (simp add: main_step_simps hear)
  ultimately show ?thesis
    by blast
qed

text \<open>
  C31. The lock excludes nobody: there is an interleaving in which a peer's advertisement
  arrives between the main thread's test and its \<open>del\<close>, so that a peer heard of after the
  time the sweep goes by is removed from the group.
\<close>

theorem fresh_peer_is_dropped:
  "\<exists>s t. device_run (sample_device (\<lambda>_. None)) s \<and> time_heard (nm_group s) ''9'' = Some t
     \<and> nm_systime s < t
     \<and> time_heard (nm_group (main_step (sample_device (\<lambda>_. None)) t t s)) ''9'' = None"
proof -
  let ?dv = "sample_device (\<lambda>_. None)"
  let ?ad = "py_encode ''10.0.0.9,9''"
  let ?main = "main_step ?dv 6000000000 6000000000"
  let ?hear = "\<lambda>now s. s\<lparr>nm_group := bluetooth_listener ?ad now (nm_group s)\<rparr>"
  let ?ad1 = "((BROADCAST_NODE_ADDRESS, BLUETOOTH_TX_PORT), py_encode (advertisement ''10.0.0.1'' 1))"
  let ?at = "\<lambda>pc. (node_main_init 6000000000)\<lparr>nm_group := [(''9'', ''10.0.0.9'', 0)], nm_sent := [?ad1], nm_pc := pc\<rparr>"
  let ?s = "?hear 6000000001 (?at (Sweeping (Deleting ''9'' [])))"
  have hear: "bluetooth_listener ?ad now g = AList.update ''9'' (''10.0.0.9'', now) g" for now g
    using bluetooth_listener_ad [of "''9''" "''10.0.0.9''" now g] by (simp add: plain_ad_def)
  have main: "device_run ?dv s \<Longrightarrow> device_run ?dv (?main s)" for s
    by (rule device_run.step, assumption, rule device_step.main) simp
  have heard: "device_run ?dv s \<Longrightarrow> device_run ?dv (?hear now s)" for s now
    by (rule device_run.step, assumption, rule device_step.bluetooth)
  have "?main (?hear 0 (node_main_init 0)) = ?at (Counting [''9''])"
    by (simp add: main_step_simps hear)
  moreover have "?main (?at (Counting [''9''])) = ?at (EdgeCheck [''9''])"
    by (simp add: main_step_def)
  moreover have "?main (?at (EdgeCheck [''9''])) = ?at (Sweeping (Expiring [''9'']))"
    by (simp add: main_step_def node_main_init_def)
  moreover have "?main (?at (Sweeping (Expiring [''9'']))) = ?at (Sweeping (Deleting ''9'' []))"
    by (simp add: main_step_simps py_lookup_def)
  moreover have "device_run ?dv (?main (?main (?main (?main (?hear 0 (node_main_init 0))))))"
    by (intro main heard device_run.start)
  ultimately have "device_run ?dv ?s"
    by (simp only: heard)
  then show ?thesis
    by (intro exI [of _ ?s] exI [of _ "6000000001"])
       (simp add: hear main_step_def py_del_def time_heard_def node_main_init_def)
qed

text \<open>
  C32. One round of the loop left alone: if the device has an address, the send of its
  advertisement succeeds, and so does consensus in a group of three, then once the interval
  has passed the thread sends its advertisement and is back at the head of the loop within
  two steps a member and six, and eight more in a group of three, with exactly the members
  heard of within the heartbeat time of the new system time, and without the edge server if
  that is older than its own limit.
\<close>

theorem one_round_of_the_loop:
  assumes "nm_pc s = Waiting" and "now - nm_systime s \<ge> BLUETOOTH_ADVERTISEMENT_INTERVAL" and "table (nm_group s)"
    and "get_address_on_interface (dv_addrs dv) NETWORK_INTERFACE = Inr own"
    and "dv_net dv ((BROADCAST_NODE_ADDRESS, BLUETOOTH_TX_PORT), py_encode (advertisement own (dv_index dv))) = None"
    and "length (nm_group s) = 3 \<longrightarrow> (\<exists>v. rbind (gathered (nm_group s)) (local_consensus dv) = Inr v)"
  shows "\<exists>n \<le> 2 * length (nm_group s) + (if length (nm_group s) = 3 then 14 else 6). \<exists>s'. (main_step dv now now' ^^ n) s = s'
     \<and> nm_pc s' = Waiting \<and> nm_systime s' = now'
     \<and> nm_group s' = filter (fresh BLUETOOTH_HEARTBEAT_TIMER now') (nm_group s)
     \<and> nm_sent s' = nm_sent s @ [((BROADCAST_NODE_ADDRESS, BLUETOOTH_TX_PORT), py_encode (advertisement own (dv_index dv)))]
     \<and> edge_server_address_time (nm_edge s') =
         (case edge_server_address_time (nm_edge s) of None \<Rightarrow> None
          | Some (a, t) \<Rightarrow> if now' - t \<ge> EDGE_HEARTBEAT_TIMER then None else Some (a, t))"
proof -
  let ?ks = "map fst (nm_group s)"
  let ?ad = "((BROADCAST_NODE_ADDRESS, BLUETOOTH_TX_PORT), py_encode (advertisement own (dv_index dv)))"
  let ?s1 = "s\<lparr>nm_systime := now', nm_sent := nm_sent s @ [?ad], nm_pc := Counting ?ks\<rparr>"
  let ?e = "case edge_server_address_time (nm_edge s) of None \<Rightarrow> None
          | Some (a, t) \<Rightarrow> if now' - t \<ge> EDGE_HEARTBEAT_TIMER then None else Some (a, t)"
  let ?s3 = "s\<lparr>nm_systime := now', nm_sent := nm_sent s @ [?ad], nm_edge := (nm_edge s)\<lparr>edge_server_address_time := ?e\<rparr>,
    nm_pc := Sweeping (Expiring ?ks)\<rparr>"
  let ?g = "filter (fresh BLUETOOTH_HEARTBEAT_TIMER now') (nm_group s)"
  have one: "reaches dv now now' 1 s ?s1"
    using assms by (intro reaches_step) (simp add: main_step_def bluetooth_sender_def Let_def)
  have two: "reaches dv now now' (if length (nm_group s) = 3 then 9 else 1) ?s1 (?s1\<lparr>nm_pc := EdgeCheck ?ks\<rparr>)"
    using reaches_consensus [of ?s1 ?ks dv now now'] assms(3,6) by simp
  have three: "reaches dv now now' 3 (?s1\<lparr>nm_pc := EdgeCheck ?ks\<rparr>) ?s3"
    using reaches_edge [of "?s1\<lparr>nm_pc := EdgeCheck ?ks\<rparr>" ?ks now' dv now now'] by simp
  have "sweep_steps (2 * length ?ks) BLUETOOTH_HEARTBEAT_TIMER (nm_systime ?s3) (nm_group ?s3) (Expiring ?ks)
      = Inr (filter (\<lambda>e. fst e \<in> set ?ks \<longrightarrow> fresh BLUETOOTH_HEARTBEAT_TIMER now' e) (nm_group s), Expiring [])"
    using assms(3) by (subst sweep_steps_run) (simp_all add: table_def)
  also have "filter (\<lambda>e. fst e \<in> set ?ks \<longrightarrow> fresh BLUETOOTH_HEARTBEAT_TIMER now' e) (nm_group s) = ?g"
    by (intro filter_cong) auto
  finally have four: "reaches dv now now' (2 * length ?ks) ?s3 (?s3\<lparr>nm_group := ?g, nm_pc := Sweeping (Expiring [])\<rparr>)"
    by (intro reaches_sweep) simp_all
  let ?s' = "?s3\<lparr>nm_group := ?g, nm_pc := Waiting\<rparr>"
  have five: "reaches dv now now' 1 (?s3\<lparr>nm_group := ?g, nm_pc := Sweeping (Expiring [])\<rparr>) ?s'"
    by (intro reaches_step) (simp add: main_step_def)
  from reaches_trans [OF reaches_trans [OF reaches_trans [OF reaches_trans [OF one two] three] four] five]
  obtain n where n: "n \<le> 1 + (if length (nm_group s) = 3 then 9 else 1) + 3 + 2 * length ?ks + 1"
      "(main_step dv now now' ^^ n) s = ?s'"
    by blast
  then show ?thesis
    by (intro exI [of _ n] conjI exI [of _ ?s']) (simp_all split: if_splits)
qed

theorem one_round_of_the_loop_witness:
  "\<exists>n \<le> 2 * length (nm_group (node_main_init 0)) + (if length (nm_group (node_main_init 0)) = 3 then 14 else 6). \<exists>s'.
       (main_step (sample_device (\<lambda>_. None)) 500000000 500000001 ^^ n) (node_main_init 0) = s'
     \<and> nm_pc s' = Waiting \<and> nm_systime s' = 500000001
     \<and> nm_group s' = filter (fresh BLUETOOTH_HEARTBEAT_TIMER 500000001) (nm_group (node_main_init 0))
     \<and> nm_sent s' = nm_sent (node_main_init 0) @ [((BROADCAST_NODE_ADDRESS, BLUETOOTH_TX_PORT),
          py_encode (advertisement ''10.0.0.1'' (dv_index (sample_device (\<lambda>_. None)))))]
     \<and> edge_server_address_time (nm_edge s') =
         (case edge_server_address_time (nm_edge (node_main_init 0)) of None \<Rightarrow> None
          | Some (a, t) \<Rightarrow> if 500000001 - t \<ge> EDGE_HEARTBEAT_TIMER then None else Some (a, t))"
  by (rule one_round_of_the_loop) (simp_all add: node_main_init_def BLUETOOTH_ADVERTISEMENT_INTERVAL_def)

text \<open>
  Answers stay with the first edge server: once the socket is connected, a device
  answers every edge advertisement on that connection, whichever server it came from, while
  it notes the new server as the one to talk to.
\<close>

theorem answers_go_to_the_first_server:
  assumes "edge_peer s = Some server" and "py_decode (recv_1024 data) = Inr message"
    and "get_address_on_interface addrs NETWORK_INTERFACE = Inr own" and "\<And>d. net d = None"
  shows "edge_broadcast_listener addrs node_index dial net data now s =
     (Inr (), s\<lparr>edge_server_address_time := Some (message, now),
        edge_sent := edge_sent s @ [(server, py_encode (advertisement own node_index))]\<rparr>)"
  using assms
  by (simp add: edge_broadcast_listener_def edge_process_advertisement_def edge_responder_def edge_connect_def
      edge_send_def try_oserror_def py_run)

theorem answers_go_to_the_first_server_witness:
  "edge_broadcast_listener (dv_addrs (sample_device (\<lambda>_. None))) 1 (\<lambda>_. None) (\<lambda>_. None) (py_encode ''10.0.0.8'') 5
       \<lparr>edge_server_address_time = Some (''10.0.0.7'', 0), edge_peer = Some (''10.0.0.7'', 61021), edge_sent = []\<rparr> =
     (Inr (), \<lparr>edge_server_address_time = Some (''10.0.0.7'', 0), edge_peer = Some (''10.0.0.7'', 61021), edge_sent = []\<rparr>
       \<lparr>edge_server_address_time := Some (''10.0.0.8'', 5),
        edge_sent := edge_sent \<lparr>edge_server_address_time = Some (''10.0.0.7'', 0), edge_peer = Some (''10.0.0.7'', 61021), edge_sent = []\<rparr>
          @ [((''10.0.0.7'', 61021), py_encode (advertisement ''10.0.0.1'' 1))]\<rparr>)"
  by (rule answers_go_to_the_first_server) simp_all

text \<open>
  C28. Consensus in the local group: for every table of members the node that runs it can
  be built; its own address is the device's, and its fellow nodes are the members of the
  group, each at the address of its last advertisement, except that the device itself stands
  for the member with its index and a member named \<open>leader\<close> is left out.
\<close>

theorem group_consensus_node:
  assumes "table g" and "get_address_on_interface addrs NETWORK_INTERFACE = Inr own"
  shows "\<exists>n. local_consensus_node addrs i g draw clk od = Inr n
     \<and> my_id n = own @ '':60021''
     \<and> set (all_ids n) = insert (own @ '':60021'')
          ((\<lambda>e. fst (snd e) @ '':60021'') ` {e \<in> set g. fst e \<noteq> py_str_int i \<and> fst e \<noteq> ''leader''})
     \<and> current_num_nodes n = int (card (insert (py_str_int i) (fst ` set g - {''leader''})))"
proof -
  let ?b = "book_of own i g"
  have port: "py_str_int HIGH_POWER_TX_PORT = ''60021''"
    by (simp add: HIGH_POWER_TX_PORT_def py_str_int_def digits.simps) code_simp
  have num: "py_str_int i \<noteq> ''leader''"
    using py_str_int_numeral [of "CHR ''l''" i] by (auto simp: numeral_char_def)
  have own: "map_of ?b (py_str_int i) = Some (comm_address own)"
    by (simp add: book_of_def update_conv)
  have "{e \<in> set ?b. fst e \<noteq> ''leader''} = insert (py_str_int i, comm_address own)
      (book_row ` {e \<in> set g. fst e \<noteq> py_str_int i \<and> fst e \<noteq> ''leader''})"
    using book_filter [of g "\<lambda>k. k \<noteq> ''leader''" i own] assms(1) num by simp
  then have "set (member_addresses ?b) = insert (own @ '':60021'')
          ((\<lambda>e. fst (snd e) @ '':60021'') ` {e \<in> set g. fst e \<noteq> py_str_int i \<and> fst e \<noteq> ''leader''})"
    by (simp add: set_member_addresses image_image book_row_def comm_address_def address_of_def port)
  moreover have "fst ` set ?b - {''leader''} = insert (py_str_int i) (fst ` set g - {''leader''})"
    unfolding book_names [OF assms(1)] using num by (simp only: insert_Diff_if) simp
  then have "length (member_addresses ?b) = card (insert (py_str_int i) (fst ` set g - {''leader''}))"
    by (simp add: length_member_addresses [OF distinct_book [OF assms(1)]])
  ultimately show ?thesis
    by (simp add: local_consensus_node_def local_consensus_book_run [OF assms] RaftNode_init_def own Let_def
        comm_address_def address_of_def port)
qed

theorem group_consensus_node_witness:
  "\<exists>n. local_consensus_node [(NETWORK_INTERFACE, [(2, ''10.0.0.1'')])] 1
         [(''2'', ''10.0.0.2'', 0), (''3'', ''10.0.0.3'', 0), (''4'', ''10.0.0.4'', 0)] 0 of_nat (div) = Inr n
     \<and> my_id n = ''10.0.0.1'' @ '':60021''
     \<and> set (all_ids n) = insert (''10.0.0.1'' @ '':60021'')
          ((\<lambda>e. fst (snd e) @ '':60021'') `
             {e \<in> set [(''2'', ''10.0.0.2'', 0), (''3'', ''10.0.0.3'', 0), (''4'', ''10.0.0.4'', 0::rat)].
                fst e \<noteq> py_str_int 1 \<and> fst e \<noteq> ''leader''})
     \<and> current_num_nodes n = int (card (insert (py_str_int 1)
          (fst ` set [(''2'', ''10.0.0.2'', 0), (''3'', ''10.0.0.3'', 0), (''4'', ''10.0.0.4'', 0::rat)] - {''leader''})))"
  by (rule group_consensus_node) (simp_all add: table_def get_address_on_interface_def)

end
