(* ===== verification/Edge_Server.thy ===== *)
theory Edge_Server
  imports Node_App
begin

text \<open>
  \<^verbatim>\<open>src/edge.py\<close>, the edge server: its main thread advertises and drops the nodes not
  heard of, and each connection accepted from a node is served by a worker of a pool of ten
  that records the node again with everything it receives. And \<^verbatim>\<open>src/edge/edge_node.py\<close>,
  the same server written as an application of the ns-3 simulator.
\<close>

section \<open>The edge server\<close>

definition EDGE_ADVERTISEMENT_INTERVAL :: rat where
  "EDGE_ADVERTISEMENT_INTERVAL = 1000000000"

definition EDGE_NODE_TIMER :: rat where
  "EDGE_NODE_TIMER = 10 * EDGE_ADVERTISEMENT_INTERVAL"

definition EDGE_BROADCAST_NODE_ADDRESS :: string where
  "EDGE_BROADCAST_NODE_ADDRESS = ''172.22.154.236''"

definition EDGE_BROADCAST_TX_PORT :: int where "EDGE_BROADCAST_TX_PORT = 63031"

definition broadcast_advertisement :: "interface_table \<Rightarrow> (sending \<Rightarrow> int option) \<Rightarrow> py_error + sending" where
  "broadcast_advertisement addrs net =
     rbind (get_address_on_interface addrs NETWORK_INTERFACE) (\<lambda>address.
     let d = ((EDGE_BROADCAST_NODE_ADDRESS, EDGE_BROADCAST_TX_PORT), py_encode address)
     in case net d of None \<Rightarrow> Inr d | Some e \<Rightarrow> Inl (OSError e))"

text \<open>
  One \<open>recv\<close> of \<open>maintain_existing_connection\<close>; a chunk without a comma, and so the empty
  chunk of a closed connection, raises an \<open>IndexError\<close>.
\<close>

definition maintain_existing_connection :: "byte list \<Rightarrow> rat \<Rightarrow> members \<Rightarrow> py_error + members" where
  "maintain_existing_connection chunk now known_nodes =
     rbind (py_decode chunk) (\<lambda>text. let message = py_split CHR '','' text in
     rbind (py_getitem message 0) (\<lambda>address.
     rbind (py_getitem message 1) (\<lambda>node_id.
     Inr (AList.update node_id (address, now) known_nodes))))"

text \<open>
  The connections in the order they were accepted, and the pool: the connections submitted
  that no worker has taken yet, in a queue, and those that a worker serves. A worker that is
  free takes the head of the queue, and keeps it until an exception ends the task.
\<close>

datatype connection = Open | Ended py_error

definition MAX_WORKERS :: nat where "MAX_WORKERS = 10"

datatype edge_pc = E_Waiting | E_Sweeping sweep_pc | E_Died py_error

record edge_server =
  es_systime :: rat
  es_known_nodes :: members
  es_connections :: "connection list"
  es_waiting :: "nat list"
  es_busy :: "nat list"
  es_sent :: "sending list"
  es_pc :: edge_pc

definition edge_init :: "rat \<Rightarrow> edge_server" where
  "edge_init now = \<lparr>es_systime = now, es_known_nodes = [], es_connections = [],
     es_waiting = [], es_busy = [], es_sent = [], es_pc = E_Waiting\<rparr>"

definition edge_main_step :: "interface_table \<Rightarrow> (sending \<Rightarrow> int option) \<Rightarrow> rat \<Rightarrow> rat \<Rightarrow> edge_server \<Rightarrow> edge_server" where
  "edge_main_step addrs net now now' s =
     (case es_pc s of
        E_Waiting \<Rightarrow>
          (if now - es_systime s \<ge> EDGE_ADVERTISEMENT_INTERVAL
           then (let s' = s\<lparr>es_systime := now'\<rparr> in
             case broadcast_advertisement addrs net of
               Inl e \<Rightarrow> s'\<lparr>es_pc := E_Died e\<rparr>
             | Inr d \<Rightarrow> s'\<lparr>es_sent := es_sent s @ [d], es_pc := E_Sweeping (Expiring (map fst (es_known_nodes s)))\<rparr>)
           else s)
      | E_Sweeping (Expiring []) \<Rightarrow> s\<lparr>es_pc := E_Waiting\<rparr>
      | E_Sweeping pc \<Rightarrow>
          (case sweep_step EDGE_NODE_TIMER (es_systime s) (es_known_nodes s) pc of
             Inl e \<Rightarrow> s\<lparr>es_pc := E_Died e\<rparr>
           | Inr (g, pc') \<Rightarrow> s\<lparr>es_known_nodes := g, es_pc := E_Sweeping pc'\<rparr>)
      | E_Died e \<Rightarrow> s)"

text \<open>The accepting thread submits the connection; a worker takes one; a worker reads a chunk.\<close>

definition parse_advertisement_response :: "edge_server \<Rightarrow> edge_server" where
  "parse_advertisement_response s =
     s\<lparr>es_connections := es_connections s @ [Open], es_waiting := queue_put (length (es_connections s)) (es_waiting s)\<rparr>"

definition worker_pick :: "edge_server \<Rightarrow> edge_server" where
  "worker_pick s =
     (if length (es_busy s) < MAX_WORKERS
      then (case queue_get_nowait (es_waiting s) of
              None \<Rightarrow> s
            | Some (i, q) \<Rightarrow> s\<lparr>es_waiting := q, es_busy := es_busy s @ [i]\<rparr>)
      else s)"

definition worker_step :: "nat \<Rightarrow> byte list \<Rightarrow> rat \<Rightarrow> edge_server \<Rightarrow> edge_server" where
  "worker_step i chunk now s =
     (if i \<in> set (es_busy s)
      then (case maintain_existing_connection chunk now (es_known_nodes s) of
              Inl e \<Rightarrow> s\<lparr>es_connections := (es_connections s)[i := Ended e], es_busy := remove1 i (es_busy s)\<rparr>
            | Inr g \<Rightarrow> s\<lparr>es_known_nodes := g\<rparr>)
      else s)"

inductive edge_run :: "interface_table \<Rightarrow> (sending \<Rightarrow> int option) \<Rightarrow> edge_server \<Rightarrow> bool" for addrs net where
  start: "edge_run addrs net (edge_init now)"
| main: "edge_run addrs net s \<Longrightarrow> now \<le> now' \<Longrightarrow> edge_run addrs net (edge_main_step addrs net now now' s)"
| accept: "edge_run addrs net s \<Longrightarrow> edge_run addrs net (parse_advertisement_response s)"
| pick: "edge_run addrs net s \<Longrightarrow> edge_run addrs net (worker_pick s)"
| receive: "edge_run addrs net s \<Longrightarrow> edge_run addrs net (worker_step i chunk now s)"

section \<open>The simulator's server\<close>

text \<open>
  \<open>ServerApplication\<close>: \<open>receive_data\<close> writes to a global \<open>known_nodes\<close> and \<open>send_data\<close>
  reads a global \<open>node\<close>; the module defines neither. Its times are the simulator's.
\<close>

definition edge_node_globals :: "string set" where
  "edge_node_globals = {''ns'', ''ServerApplication''}"

type_synonym sim_members = "(string \<times> rat) list"

definition sim_receive_data :: "string set \<Rightarrow> string \<Rightarrow> byte list \<Rightarrow> rat \<Rightarrow> sim_members \<Rightarrow> py_error + sim_members" where
  "sim_receive_data globals sender_address data now known_nodes =
     rbind (py_decode data) (\<lambda>_.
     if ''known_nodes'' \<in> globals then Inr (AList.update sender_address now known_nodes)
     else Inl (NameError ''known_nodes''))"

definition sim_send_data :: "string set \<Rightarrow> string \<Rightarrow> py_error + sending" where
  "sim_send_data globals address =
     (if ''node'' \<in> globals then Inr ((''0.0.0.0'', 63031), py_encode address)
      else Inl (NameError ''node''))"

fun update_keys :: "string list \<Rightarrow> rat \<Rightarrow> sim_members \<Rightarrow> py_error + sim_members" where
  "update_keys [] now d = Inr d"
| "update_keys (key # keylist) now d =
     rbind (py_lookup d key) (\<lambda>t.
     if now - t \<ge> 10 then rbind (py_del d key) (update_keys keylist now) else update_keys keylist now d)"

definition updateKeys :: "rat \<Rightarrow> sim_members \<Rightarrow> py_error + sim_members" where
  "updateKeys now known_nodes = update_keys (map fst known_nodes) now known_nodes"

section \<open>The nodes known as a table of members\<close>

lemma maintain_plain_ad:
  "plain_ad k a \<Longrightarrow> maintain_existing_connection (py_encode (a @ CHR '','' # k)) now g
     = Inr (AList.update k (a, now) g)"
  by (simp add: maintain_existing_connection_def plain_ad_def py_getitem_def py_norm_index_def Let_def)

lemma maintain_cases:
  "maintain_existing_connection chunk now g = Inr g' \<Longrightarrow> \<exists>k a. g' = AList.update k (a, now) g"
  by (auto simp: maintain_existing_connection_def rbind_def Let_def split: sum.splits)

section \<open>The history of an edge server\<close>

text \<open>What a worker hears of is the first two fields of a chunk, an address and an id.\<close>

definition heard_on :: "byte list \<Rightarrow> rat \<Rightarrow> event list" where
  "heard_on chunk now =
     (case py_decode chunk of
        Inl _ \<Rightarrow> []
      | Inr text \<Rightarrow> (case py_split CHR '','' text of a # k # _ \<Rightarrow> [Heard k a now] | _ \<Rightarrow> []))"

definition edge_main_events :: "edge_server \<Rightarrow> event list" where
  "edge_main_events s = (case es_pc s of E_Sweeping pc \<Rightarrow> sweep_events (es_systime s) pc | _ \<Rightarrow> [])"

inductive edge_event :: "interface_table \<Rightarrow> (sending \<Rightarrow> int option) \<Rightarrow> edge_server \<Rightarrow> event list \<Rightarrow> edge_server \<Rightarrow> bool"
  for addrs net where
  main: "now \<le> now' \<Longrightarrow> edge_event addrs net s (edge_main_events s) (edge_main_step addrs net now now' s)"
| accept: "edge_event addrs net s [] (parse_advertisement_response s)"
| pick: "edge_event addrs net s [] (worker_pick s)"
| receive: "edge_event addrs net s (if i \<in> set (es_busy s) then heard_on chunk now else []) (worker_step i chunk now s)"

definition edge_initial :: "edge_server \<Rightarrow> bool" where
  "edge_initial s \<longleftrightarrow> s = edge_init (es_systime s)"

abbreviation edge_log :: "interface_table \<Rightarrow> (sending \<Rightarrow> int option) \<Rightarrow> edge_server \<Rightarrow> event list \<Rightarrow> bool" where
  "edge_log addrs net \<equiv> logged_run edge_initial (edge_event addrs net)"

lemma edge_run_log: "edge_run addrs net s \<longleftrightarrow> (\<exists>H. edge_log addrs net s H)"
proof
  assume "edge_run addrs net s"
  then show "\<exists>H. edge_log addrs net s H"
  proof induction
    case (start now)
    have "edge_initial (edge_init now)"
      by (simp add: edge_initial_def edge_init_def)
    then show ?case
      by (blast intro: logged_run.start)
  qed (blast intro: logged_run.move edge_event.intros)+
next
  assume "\<exists>H. edge_log addrs net s H"
  then obtain H where "edge_log addrs net s H"
    by blast
  then show "edge_run addrs net s"
  proof induction
    case (start s)
    then show ?case
      unfolding edge_initial_def by (metis edge_run.start)
  next
    case (move s H es s')
    from move(2,3) show ?case
      by cases (auto intro: edge_run.intros)
  qed
qed

section \<open>The table under the threads\<close>

definition server_ok :: "edge_server \<Rightarrow> bool" where
  "server_ok s \<longleftrightarrow> table (es_known_nodes s) \<and>
     (case es_pc s of E_Sweeping pc \<Rightarrow> sweep_ok (es_known_nodes s) pc | _ \<Rightarrow> True)"

definition condemned_node :: "edge_server \<Rightarrow> string option" where
  "condemned_node s = (case es_pc s of E_Sweeping pc \<Rightarrow> dropping pc | _ \<Rightarrow> None)"

lemma server_ok_main:
  assumes "server_ok s"
  shows "server_ok (edge_main_step addrs net now now' s)
    \<and> (get_address_on_interface addrs NETWORK_INTERFACE = Inr own \<and> es_pc (edge_main_step addrs net now now' s) = E_Died e
         \<longrightarrow> (\<exists>n. e = OSError n) \<or> es_pc s = E_Died e)
    \<and> expire EDGE_NODE_TIMER (edge_main_events s) (map_of (es_known_nodes s), condemned_node s)
        = Some (map_of (es_known_nodes (edge_main_step addrs net now now' s)), condemned_node (edge_main_step addrs net now now' s))"
proof (cases "es_pc s")
  case E_Waiting
  with assms show ?thesis
    by (auto simp: edge_main_step_def server_ok_def broadcast_advertisement_def Let_def table_def sweep_ok_def
        to_visit_def edge_main_events_def condemned_node_def rbind_def split: option.split sum.splits)
next
  case (E_Sweeping pc)
  then have "sweep_ok (es_known_nodes s) pc" and g: "table (es_known_nodes s)"
    using assms by (simp_all add: server_ok_def)
  from sweep_ok_step [OF this(1), of EDGE_NODE_TIMER "es_systime s"] obtain g' pc' where
    step: "sweep_step EDGE_NODE_TIMER (es_systime s) (es_known_nodes s) pc = Inr (g', pc')" "sweep_ok g' pc'"
    by blast
  note expires = sweep_step_expires [OF step(1) g]
  show ?thesis
  proof (cases "pc = Expiring []")
    case True
    with E_Sweeping assms show ?thesis
      by (simp add: edge_main_step_def server_ok_def edge_main_events_def condemned_node_def)
  next
    case False
    then have "edge_main_step addrs net now now' s = s\<lparr>es_known_nodes := g', es_pc := E_Sweeping pc'\<rparr>"
      using E_Sweeping step(1) by (cases pc rule: sweep_pc.exhaust) (auto simp: edge_main_step_def split: list.split)
    with E_Sweeping step(2) expires show ?thesis
      by (auto simp: server_ok_def sweep_ok_def edge_main_events_def condemned_node_def)
  qed
next
  case (E_Died e)
  with assms show ?thesis
    by (simp add: edge_main_step_def server_ok_def edge_main_events_def condemned_node_def)
qed

lemma maintain_heard:
  "(\<exists>e. maintain_existing_connection chunk now g = Inl e) \<and> heard_on chunk now = []
   \<or> (\<exists>k a. maintain_existing_connection chunk now g = Inr (AList.update k (a, now) g) \<and> heard_on chunk now = [Heard k a now])"
  by (auto simp: maintain_existing_connection_def heard_on_def rbind_def py_getitem_def py_norm_index_def Let_def
      split: sum.splits list.splits)

lemma server_ok_update: "server_ok s \<Longrightarrow> server_ok (s\<lparr>es_known_nodes := AList.update k v (es_known_nodes s)\<rparr>)"
  by (cases "es_pc s") (simp_all add: server_ok_def sweep_ok_update)

lemma server_ok_event:
  assumes "server_ok s" and "edge_event addrs net s es s'"
  shows "server_ok s'
    \<and> (get_address_on_interface addrs NETWORK_INTERFACE = Inr own \<and> es_pc s' = E_Died e
         \<longrightarrow> (\<exists>n. e = OSError n) \<or> es_pc s = E_Died e)
    \<and> expire EDGE_NODE_TIMER es (map_of (es_known_nodes s), condemned_node s)
        = Some (map_of (es_known_nodes s'), condemned_node s')"
  using assms(2)
proof cases
  case (main now now')
  with server_ok_main [OF assms(1)] show ?thesis
    by simp
next
  case accept
  with assms(1) show ?thesis
    by (cases "es_pc s") (simp_all add: parse_advertisement_response_def server_ok_def condemned_node_def)
next
  case pick
  with assms(1) show ?thesis
    by (cases "es_pc s") (simp_all add: worker_pick_def server_ok_def condemned_node_def split: option.split)
next
  case (receive i chunk now)
  with maintain_heard [of chunk now "es_known_nodes s"] server_ok_update [OF assms(1)] assms(1) show ?thesis
    by (cases "es_pc s") (auto simp: worker_step_def condemned_node_def update_conv' server_ok_def)
qed

interpretation known: expiring_members edge_initial "edge_event addrs net" server_ok "\<lambda>s. map_of (es_known_nodes s)"
    condemned_node EDGE_NODE_TIMER for addrs net
proof
  fix s assume "edge_initial s"
  then have "es_known_nodes s = []" "es_pc s = E_Waiting"
    by (metis edge_initial_def edge_init_def edge_server.select_convs)+
  then show "server_ok s" "map_of (es_known_nodes s) = Map.empty \<and> condemned_node s = None"
    by (simp_all add: server_ok_def condemned_node_def)
qed (use server_ok_event in blast)+

lemma edge_dies_of:
  assumes "get_address_on_interface addrs NETWORK_INTERFACE = Inr own" and "edge_log addrs net s H"
  shows "es_pc s = E_Died e \<longrightarrow> (\<exists>n. e = OSError n)"
  using assms(2)
proof induction
  case (start s)
  then have "es_pc s = E_Waiting"
    by (metis edge_initial_def edge_init_def edge_server.select_convs)
  then show ?case
    by simp
next
  case (move s H es s')
  from server_ok_event [OF known.stays_ok [OF move(1)] move(2)] assms(1) move(3) show ?case
    by blast
qed

section \<open>The pool and the simulator\<close>

text \<open>The pool serves, and queues, the open connections in the order of their acceptance.\<close>

definition open_connections :: "connection list \<Rightarrow> nat list" where
  "open_connections cs = filter (\<lambda>i. cs ! i = Open) [0..<length cs]"

definition pool_ok :: "edge_server \<Rightarrow> bool" where
  "pool_ok s \<longleftrightarrow>
     es_busy s @ es_waiting s = open_connections (es_connections s) \<and> length (es_busy s) \<le> MAX_WORKERS"

lemma open_append: "open_connections (cs @ [Open]) = open_connections cs @ [length cs]"
  by (auto simp: open_connections_def nth_append intro!: filter_cong)

lemma open_ended: "open_connections (cs[i := Ended e]) = filter (\<lambda>j. j \<noteq> i) (open_connections cs)"
proof -
  have "cs[i := Ended e] ! x = (if x = i then Ended e else cs ! x)" if "x < length cs" for x
    using that by (cases "x = i") auto
  then show ?thesis
    by (auto simp: open_connections_def intro!: filter_cong split: if_splits)
qed

lemma distinct_open: "distinct (open_connections cs)"
  by (simp add: open_connections_def)

lemma pool_ok_run: "edge_run addrs net s \<Longrightarrow> pool_ok s"
proof (induction rule: edge_run.induct)
  case (start now)
  then show ?case
    by (simp add: edge_init_def pool_ok_def open_connections_def)
next
  case (main s now now')
  have "es_busy (edge_main_step addrs net now now' s) = es_busy s" "es_waiting (edge_main_step addrs net now now' s) = es_waiting s"
      "es_connections (edge_main_step addrs net now now' s) = es_connections s"
    by (auto simp: edge_main_step_def Let_def split: edge_pc.split sweep_pc.split list.split sum.split prod.split)
  with main show ?case
    by (simp add: pool_ok_def)
next
  case (accept s)
  then show ?case
    by (simp add: pool_ok_def parse_advertisement_response_def queue_put_def open_append flip: append_assoc)
next
  case (pick s)
  then show ?case
    by (auto simp: pool_ok_def worker_pick_def queue_get_nowait_def split: list.split)
next
  case (receive s i chunk now)
  show ?case
  proof (cases "i \<in> set (es_busy s)")
    case True
    have d: "distinct (es_busy s @ es_waiting s)"
      using receive distinct_open by (simp add: pool_ok_def)
    then have "filter (\<lambda>j. j \<noteq> i) (es_busy s @ es_waiting s) = remove1 i (es_busy s) @ es_waiting s"
    proof -
      have "filter (\<lambda>j. j \<noteq> i) xs = removeAll i xs" for xs :: "nat list"
        by (induction xs) auto
      moreover have "i \<notin> set (es_waiting s)"
        using True d by auto
      ultimately show ?thesis
        using d by (simp add: distinct_remove1_removeAll)
    qed
    with receive True show ?thesis
      by (auto simp: pool_ok_def worker_step_def open_ended length_remove1 split: sum.split)
  qed (use receive in \<open>simp add: worker_step_def\<close>)
qed

lemma update_keys_run:
  assumes "distinct keys" and "set keys \<subseteq> fst ` set d" and "distinct (map fst d)"
  shows "update_keys keys now d = Inr (filter (\<lambda>e. fst e \<in> set keys \<longrightarrow> now - snd e < 10) d)"
  using assms
proof (induction keys arbitrary: d)
  case (Cons k ks)
  then obtain t where t: "(k, t) \<in> set d"
    by auto
  then have look: "map_of d k = Some t"
    using Cons.prems(3) by simp
  have only: "snd e = t" if "e \<in> set d" "fst e = k" for e
    by (rule row_of_key [OF Cons.prems(3) that look])
  show ?case
  proof (cases "now - t \<ge> 10")
    case True
    let ?d = "filter (\<lambda>e. fst e \<noteq> k) d"
    have "set ks \<subseteq> fst ` set ?d"
      using Cons.prems(1,2) by force
    then have "update_keys ks now ?d = Inr (filter (\<lambda>e. fst e \<in> set ks \<longrightarrow> now - snd e < 10) ?d)"
      using Cons.prems by (intro Cons.IH) (auto simp: distinct_map_filter)
    moreover have "AList.delete k d = ?d"
      by (auto simp: AList.delete_eq intro!: filter_cong)
    moreover have "filter (\<lambda>e. fst e \<in> set ks \<longrightarrow> now - snd e < 10) ?d
        = filter (\<lambda>e. fst e \<in> set (k # ks) \<longrightarrow> now - snd e < 10) d"
      using only True Cons.prems(1) by (auto intro!: filter_cong)
    ultimately show ?thesis
      using True by (simp add: py_lookup_def py_del_def look)
  next
    case False
    have "update_keys ks now d = Inr (filter (\<lambda>e. fst e \<in> set ks \<longrightarrow> now - snd e < 10) d)"
      using Cons.prems by (intro Cons.IH) auto
    moreover have "filter (\<lambda>e. fst e \<in> set ks \<longrightarrow> now - snd e < 10) d
        = filter (\<lambda>e. fst e \<in> set (k # ks) \<longrightarrow> now - snd e < 10) d"
      using only False by (intro filter_cong) auto
    ultimately show ?thesis
      using False by (simp add: py_lookup_def look)
  qed
qed simp

section \<open>Properties\<close>

text \<open>
  The edge server knows what its history tells: of every node the last address and time heard
  since it was last dropped; and a node is dropped only after the main thread has found what
  was last heard of it to be ten seconds old or older, with nothing but hearing in between.
\<close>

theorem known_nodes_are_recent:
  assumes "edge_log addrs net s H"
  shows "map_of (es_known_nodes s) = remembered H
    \<and> (\<forall>p k q. H = p @ Dropped k # q \<longrightarrow>
         (\<exists>p' now r a t. p = p' @ Judged k now # r \<and> list_all hearing r \<and> remembered p' k = Some (a, t) \<and> now - t \<ge> 10000000000))"
proof -
  have "EDGE_NODE_TIMER = 10000000000"
    by (simp add: EDGE_NODE_TIMER_def EDGE_ADVERTISEMENT_INTERVAL_def)
  with assms show ?thesis
    using known.knows_the_remembered [OF assms] known.drops_the_old [of addrs net s] by auto
qed

text \<open>
  The edge server's threads: whatever the interleaving of its main thread, of new
  connections and of its workers, the main thread never dies of a missing key; with an
  address, it can only die of a failing send.
\<close>

theorem edge_never_misses_a_key:
  assumes "edge_run addrs net s" and "get_address_on_interface addrs NETWORK_INTERFACE = Inr own"
    and "es_pc s = E_Died e"
  shows "\<exists>n. e = OSError n"
  using edge_dies_of [OF assms(2)] assms(1,3) by (auto simp: edge_run_log)

theorem edge_never_misses_a_key_witness:
  "\<exists>s e. edge_run [(NETWORK_INTERFACE, [(2, ''10.0.0.7'')])] (\<lambda>_. Some 101) s \<and> es_pc s = E_Died e \<and> (\<exists>n. e = OSError n)"
proof -
  let ?addrs = "[(NETWORK_INTERFACE, [(2::int, ''10.0.0.7'')])]"
  let ?s = "edge_main_step ?addrs (\<lambda>_. Some 101) 1000000000 1000000000 (edge_init 0)"
  have own: "get_address_on_interface ?addrs NETWORK_INTERFACE = Inr ''10.0.0.7''"
    by (simp add: get_address_on_interface_def)
  have run: "edge_run ?addrs (\<lambda>_. Some 101) ?s"
    by (rule edge_run.main [OF edge_run.start]) simp
  have "es_pc ?s = E_Died (OSError 101)"
    by (simp add: edge_main_step_def edge_init_def EDGE_ADVERTISEMENT_INTERVAL_def broadcast_advertisement_def own Let_def)
  with edge_never_misses_a_key [OF run own this] run show ?thesis
    by blast
qed

text \<open>
  C33. At most ten connections are served, in the order of their acceptance: in every run,
  those that have a worker, followed by those that wait for one, are the connections that
  have not ended, the earliest accepted first; at most ten have a worker, and when no worker
  can take another they are the ten first, or all if there are fewer; and nothing that
  arrives on any other connection is read.
\<close>

theorem ten_connections_are_served:
  assumes "edge_run addrs net s"
  shows "es_busy s @ es_waiting s = filter (\<lambda>i. es_connections s ! i = Open) [0..<length (es_connections s)]
    \<and> length (es_busy s) \<le> 10
    \<and> (worker_pick s = s \<longrightarrow>
         es_busy s = take 10 (filter (\<lambda>i. es_connections s ! i = Open) [0..<length (es_connections s)]))
    \<and> (i \<in> set (es_busy s) \<or> worker_step i chunk now s = s)"
proof -
  have pool: "es_busy s @ es_waiting s = open_connections (es_connections s)" "length (es_busy s) \<le> 10"
    using pool_ok_run [OF assms] by (simp_all add: pool_ok_def MAX_WORKERS_def)
  moreover have "es_busy s = take 10 (open_connections (es_connections s))" if "worker_pick s = s"
  proof (cases "length (es_busy s) = 10")
    case True
    then show ?thesis
      by (simp flip: pool(1))
  next
    case False
    with pool(2) that have "es_waiting s = []"
      by (cases "es_waiting s") (auto simp: worker_pick_def MAX_WORKERS_def dest: arg_cong [of _ _ es_busy])
    with pool show ?thesis
      by (simp flip: pool(1))
  qed
  ultimately show ?thesis
    by (auto simp: open_connections_def worker_step_def)
qed

lemma accept_all:
  "(parse_advertisement_response ^^ m) (edge_init now) =
     (edge_init now)\<lparr>es_connections := replicate m Open, es_waiting := [0..<m]\<rparr>"
  by (induction m) (simp_all add: edge_init_def parse_advertisement_response_def queue_put_def replicate_append_same)

lemma pick_all:
  assumes "n \<le> 10" and "n \<le> m"
  shows "(worker_pick ^^ n) ((edge_init now)\<lparr>es_connections := replicate m Open, es_waiting := [0..<m]\<rparr>) =
     (edge_init now)\<lparr>es_connections := replicate m Open, es_waiting := [n..<m], es_busy := [0..<n]\<rparr>"
  using assms
proof (induction n)
  case (Suc n)
  then have "[n..<m] = n # [Suc n..<m]"
    by (simp add: upt_conv_Cons)
  with Suc show ?case
    by (simp add: worker_pick_def MAX_WORKERS_def edge_init_def)
qed (simp add: edge_init_def)

text \<open>Eleven connections are accepted; the last one waits.\<close>

theorem ten_connections_are_served_witness:
  "\<exists>s. edge_run [(NETWORK_INTERFACE, [(2, ''10.0.0.7'')])] (\<lambda>_. None) s
     \<and> es_busy s = [0..<10] \<and> es_waiting s = [10] \<and> worker_step 10 [] 0 s = s"
proof -
  let ?addrs = "[(NETWORK_INTERFACE, [(2::int, ''10.0.0.7'')])]"
  let ?s = "(worker_pick ^^ 10) ((parse_advertisement_response ^^ 11) (edge_init 0))"
  have "edge_run ?addrs (\<lambda>_. None) ((worker_pick ^^ n) ((parse_advertisement_response ^^ m) (edge_init 0)))" for n m
  proof (induction n)
    case 0
    show ?case
      by (induction m) (auto intro: edge_run.intros)
  qed (auto intro: edge_run.pick)
  then have run: "edge_run ?addrs (\<lambda>_. None) ?s" .
  have s: "es_connections ?s = replicate 11 Open" "worker_pick ?s = ?s"
    using pick_all [of 10 11 0] by (simp_all only: accept_all) (simp_all add: worker_pick_def MAX_WORKERS_def)
  have all: "filter (\<lambda>i. replicate 11 Open ! i = Open) [0..<11] = [0..<11]"
    by (rule filter_True) simp
  note served = ten_connections_are_served [OF run, of 10 "[]" 0, unfolded s(1) length_replicate all]
  then have busy: "es_busy ?s = [0..<10]"
    using s(2) by (simp add: take_upt)
  have "[0..<11] = [0..<10] @ [10::nat]"
    by code_simp
  with served busy have waiting: "es_waiting ?s = [10]"
    by (simp only: append.assoc same_append_eq)
  from served busy have "worker_step 10 [] 0 ?s = ?s"
    by simp
  with run busy waiting show ?thesis
    by blast
qed

text \<open>
  The stream has no frames: two advertisements that one \<open>recv\<close> returns together are
  recorded as one node that does not exist, with the address of the first and, for an id,
  the id of the first followed by the address of the second; neither node is recorded.
\<close>

theorem joined_advertisements:
  assumes "plain_ad k a" and "plain_ad k' b"
  shows "maintain_existing_connection (py_encode ((a @ CHR '','' # k) @ (b @ CHR '','' # k'))) now g
     = Inr (AList.update (k @ b) (a, now) g)"
proof -
  have "py_split CHR '','' ((a @ CHR '','' # k) @ (b @ CHR '','' # k')) = [a, k @ b, k']"
    using assms py_split_append [of "CHR '',''" "k @ b" k'] by (simp add: plain_ad_def)
  moreover have "py_ascii ((a @ CHR '','' # k) @ (b @ CHR '','' # k'))"
    using assms by (simp add: plain_ad_def)
  ultimately show ?thesis
    by (simp add: maintain_existing_connection_def py_getitem_def py_norm_index_def Let_def del: append_assoc)
qed

theorem joined_advertisements_witness:
  "maintain_existing_connection (py_encode ((''10.0.0.2'' @ CHR '','' # ''2'') @ (''10.0.0.2'' @ CHR '','' # ''2''))) 7 []
     = Inr (AList.update (''2'' @ ''10.0.0.2'') (''10.0.0.2'', 7) [])"
  by (rule joined_advertisements) (simp_all add: plain_ad_def)

end
