(* ===== verification/Broadcast_Nodes.thy ===== *)
theory Broadcast_Nodes
  imports Edge_Server
begin

text \<open>
  \<^verbatim>\<open>src/bluetooth_broadcast_node.py\<close> and \<^verbatim>\<open>src/edge_broadcast_node.py\<close>: two
  processes that stand for a broadcast medium. Each receives a datagram and sends it to
  every recipient it was started with except the one it came from. Their contract is stated
  once as a locale, and the discovery of peers and of the edge server is composed from the
  programs at both ends and the process in between.
\<close>

section \<open>The relays\<close>

definition ECONNREFUSED :: int where "ECONNREFUSED = 111"

definition RELAY_BLUETOOTH_TX_PORT :: int where "RELAY_BLUETOOTH_TX_PORT = 59031"
definition RELAY_NODE_TX_PORT :: int where "RELAY_NODE_TX_PORT = 63031"

text \<open>The state of a relay is what it has sent; \<open>net\<close> is what the system makes of a send.\<close>

type_synonym 'a relay = "(sending list, 'a) py"

definition relay_send :: "(sending \<Rightarrow> int option) \<Rightarrow> sending \<Rightarrow> unit relay" where
  "relay_send net d =
     (case net d of None \<Rightarrow> modify (\<lambda>out. out @ [d]) | Some e \<Rightarrow> raise (OSError e))"

definition relay_bluetooth_process_advertisement ::
  "string list \<Rightarrow> (sending \<Rightarrow> int option) \<Rightarrow> byte list \<Rightarrow> string \<Rightarrow> unit relay" where
  "relay_bluetooth_process_advertisement recipients net data address =
     bnd (lift_result (py_decode data)) (\<lambda>message.
     for_each recipients (\<lambda>listener.
       when_py (listener \<noteq> address)
         (try_oserror (\<lambda>e. e = ECONNREFUSED)
           (relay_send net ((listener, RELAY_BLUETOOTH_TX_PORT), py_encode message)))))"

definition relay_edge_process_advertisement ::
  "string list \<Rightarrow> (sending \<Rightarrow> int option) \<Rightarrow> byte list \<Rightarrow> string \<Rightarrow> unit relay" where
  "relay_edge_process_advertisement recipients net data address =
     bnd (lift_result (py_decode data)) (\<lambda>message.
     for_each recipients (\<lambda>listener.
       when_py (listener \<noteq> address)
         (try_oserror (\<lambda>e. e = ECONNREFUSED)
           (relay_send net ((listener, RELAY_NODE_TX_PORT), py_encode message)))))"

text \<open>
  The loops of the two processes over the datagrams they receive, each with the address it
  came from: \<open>result()\<close> raises what the task raised, and that ends the process.
\<close>

definition relay_bluetooth_listener ::
  "string list \<Rightarrow> (sending \<Rightarrow> int option) \<Rightarrow> (byte list \<times> string) list \<Rightarrow> unit relay" where
  "relay_bluetooth_listener recipients net datagrams =
     for_each datagrams (\<lambda>(data, address). relay_bluetooth_process_advertisement recipients net (recv_1024 data) address)"

definition relay_edge_listener ::
  "string list \<Rightarrow> (sending \<Rightarrow> int option) \<Rightarrow> (byte list \<times> string) list \<Rightarrow> unit relay" where
  "relay_edge_listener recipients net datagrams =
     for_each datagrams (\<lambda>(data, address). relay_edge_process_advertisement recipients net (recv_1024 data) address)"

section \<open>Their contract\<close>

text \<open>What goes out for one datagram: to every other recipient that can be reached.\<close>

definition relayed :: "int \<Rightarrow> string list \<Rightarrow> (sending \<Rightarrow> int option) \<Rightarrow> byte list \<times> string \<Rightarrow> sending list" where
  "relayed prt recipients net d =
     filter (\<lambda>s. net s = None) (map (\<lambda>l. ((l, prt), fst d)) (filter (\<lambda>l. l \<noteq> snd d) recipients))"

definition only_refused :: "int \<Rightarrow> string list \<Rightarrow> (sending \<Rightarrow> int option) \<Rightarrow> bool" where
  "only_refused prt recipients net \<longleftrightarrow>
     (\<forall>l \<in> set recipients. \<forall>data. net ((l, prt), data) = None \<or> net ((l, prt), data) = Some ECONNREFUSED)"

definition ascii_bytes :: "byte list \<Rightarrow> bool" where
  "ascii_bytes data \<longleftrightarrow> length data \<le> 1024 \<and> list_all (\<lambda>b. unat b < 128) data"

lemma recv_ascii: "ascii_bytes data \<Longrightarrow> recv_1024 data = data"
  by (simp add: ascii_bytes_def)

locale relay =
  fixes process :: "string list \<Rightarrow> (sending \<Rightarrow> int option) \<Rightarrow> byte list \<Rightarrow> string \<Rightarrow> unit relay"
    and prt :: int
  assumes forwards: "ascii_bytes data \<Longrightarrow> only_refused prt recipients net \<Longrightarrow>
      process recipients net data address out = (Inr (), out @ relayed prt recipients net (data, address))"
    and breaks: "ascii_bytes data \<Longrightarrow> recipients = ls @ l # rs \<Longrightarrow> l \<noteq> address \<Longrightarrow> only_refused prt ls net \<Longrightarrow>
      net ((l, prt), data) = Some e \<Longrightarrow> e \<noteq> ECONNREFUSED \<Longrightarrow>
      process recipients net data address out = (Inl (OSError e), out @ relayed prt ls net (data, address))"
begin

lemma forwards_all:
  assumes "only_refused prt recipients net" and "\<forall>d \<in> set datagrams. ascii_bytes (fst d)"
  shows "for_each datagrams (\<lambda>(data, address). process recipients net (recv_1024 data) address) out =
    (Inr (), out @ concat (map (relayed prt recipients net) datagrams))"
  using assms(2)
proof (induction datagrams arbitrary: out)
  case (Cons d ds)
  then show ?case
    by (cases d) (simp add: py_run forwards assms(1) recv_ascii)
qed (simp add: py_run)

end

lemma encode_decode: "ascii_bytes data \<Longrightarrow> \<exists>m. py_decode data = Inr m \<and> py_encode m = data"
  by (auto simp: ascii_bytes_def py_decode_def py_encode_def list_all_iff intro!: map_idI)

lemma ascii_encode: "py_ascii s \<Longrightarrow> length s \<le> 1024 \<Longrightarrow> ascii_bytes (py_encode s)"
  by (auto simp: ascii_bytes_def py_encode_def py_ascii_def list_all_iff)

definition relay_loop :: "int \<Rightarrow> (sending \<Rightarrow> int option) \<Rightarrow> byte list \<Rightarrow> string \<Rightarrow> string list \<Rightarrow> unit relay" where
  "relay_loop prt net data address recipients =
     for_each recipients (\<lambda>listener.
       when_py (listener \<noteq> address)
         (try_oserror (\<lambda>e. e = ECONNREFUSED) (relay_send net ((listener, prt), data))))"

lemma relay_loop_forwards:
  "only_refused prt recipients net \<Longrightarrow>
   relay_loop prt net data address recipients out = (Inr (), out @ relayed prt recipients net (data, address))"
proof (induction recipients arbitrary: out)
  case (Cons l ls)
  then have "only_refused prt ls net" and "net ((l, prt), data) = None \<or> net ((l, prt), data) = Some ECONNREFUSED"
    by (auto simp: only_refused_def)
  with Cons.IH show ?case
    by (auto simp: relay_loop_def relayed_def relay_send_def try_oserror_def py_run)
qed (simp add: relay_loop_def relayed_def py_run)

lemma for_each_append: "for_each (xs @ ys) f = seq (for_each xs f) (for_each ys f)"
  by (induction xs) (auto simp: py_run fun_eq_iff split: prod.splits sum.splits)

lemma relay_loop_breaks:
  assumes "l \<noteq> address" and "only_refused prt ls net" and "net ((l, prt), data) = Some e" and "e \<noteq> ECONNREFUSED"
  shows "relay_loop prt net data address (ls @ l # rs) out = (Inl (OSError e), out @ relayed prt ls net (data, address))"
proof -
  have "relay_loop prt net data address ls out = (Inr (), out @ relayed prt ls net (data, address))"
    by (rule relay_loop_forwards [OF assms(2)])
  with assms show ?thesis
    by (simp add: relay_loop_def for_each_append relay_send_def try_oserror_def py_run)
qed

interpretation bluetooth: relay relay_bluetooth_process_advertisement RELAY_BLUETOOTH_TX_PORT
proof unfold_locales
  fix data recipients net address out
  assume "ascii_bytes data" and refused: "only_refused RELAY_BLUETOOTH_TX_PORT recipients net"
  from encode_decode [OF this(1)] relay_loop_forwards [OF refused, of data address out]
  show "relay_bluetooth_process_advertisement recipients net data address out =
      (Inr (), out @ relayed RELAY_BLUETOOTH_TX_PORT recipients net (data, address))"
    by (auto simp: relay_bluetooth_process_advertisement_def relay_loop_def py_run)
next
  fix data recipients ls l rs address net e out
  assume "ascii_bytes data" and rs: "recipients = ls @ l # rs" and l: "l \<noteq> address"
    "only_refused RELAY_BLUETOOTH_TX_PORT ls net" "net ((l, RELAY_BLUETOOTH_TX_PORT), data) = Some e" "e \<noteq> ECONNREFUSED"
  from encode_decode [OF this(1)] relay_loop_breaks [OF l, of rs out]
  show "relay_bluetooth_process_advertisement recipients net data address out =
      (Inl (OSError e), out @ relayed RELAY_BLUETOOTH_TX_PORT ls net (data, address))"
    by (auto simp: relay_bluetooth_process_advertisement_def relay_loop_def py_run rs)
qed

interpretation edge_relay: relay relay_edge_process_advertisement RELAY_NODE_TX_PORT
proof unfold_locales
  fix data recipients net address out
  assume "ascii_bytes data" and refused: "only_refused RELAY_NODE_TX_PORT recipients net"
  from encode_decode [OF this(1)] relay_loop_forwards [OF refused, of data address out]
  show "relay_edge_process_advertisement recipients net data address out =
      (Inr (), out @ relayed RELAY_NODE_TX_PORT recipients net (data, address))"
    by (auto simp: relay_edge_process_advertisement_def relay_loop_def py_run)
next
  fix data recipients ls l rs address net e out
  assume "ascii_bytes data" and rs: "recipients = ls @ l # rs" and l: "l \<noteq> address"
    "only_refused RELAY_NODE_TX_PORT ls net" "net ((l, RELAY_NODE_TX_PORT), data) = Some e" "e \<noteq> ECONNREFUSED"
  from encode_decode [OF this(1)] relay_loop_breaks [OF l, of rs out]
  show "relay_edge_process_advertisement recipients net data address out =
      (Inl (OSError e), out @ relayed RELAY_NODE_TX_PORT ls net (data, address))"
    by (auto simp: relay_edge_process_advertisement_def relay_loop_def py_run rs)
qed

section \<open>Properties\<close>

text \<open>
  The broadcast medium: when the system refuses a send only because nobody listens,
  the relay forwards every datagram unchanged, in order of arrival and within a datagram in
  order of the recipients, to everyone that listens and to nobody that sent it.
\<close>

theorem relay_forwards_to_the_others:
  assumes "only_refused RELAY_BLUETOOTH_TX_PORT recipients net" and "\<forall>d \<in> set datagrams. ascii_bytes (fst d)"
  shows "relay_bluetooth_listener recipients net datagrams [] =
     (Inr (), concat (map (\<lambda>d. filter (\<lambda>s. net s = None)
        (map (\<lambda>l. ((l, RELAY_BLUETOOTH_TX_PORT), fst d)) (filter (\<lambda>l. l \<noteq> snd d) recipients))) datagrams))"
  using bluetooth.forwards_all [OF assms, of "[]"] by (simp add: relay_bluetooth_listener_def relayed_def [abs_def])

theorem relay_forwards_to_the_others_witness:
  "relay_bluetooth_listener [''10.0.0.1'', ''10.0.0.2'', ''10.0.0.3''] (\<lambda>s. if fst (fst s) = ''10.0.0.3'' then Some 111 else None)
       [(py_encode ''10.0.0.1,1'', ''10.0.0.1'')] [] =
     (Inr (), concat (map (\<lambda>d. filter (\<lambda>s. (if fst (fst s) = ''10.0.0.3'' then Some (111::int) else None) = None)
        (map (\<lambda>l. ((l, RELAY_BLUETOOTH_TX_PORT), fst d)) (filter (\<lambda>l. l \<noteq> snd d) [''10.0.0.1'', ''10.0.0.2'', ''10.0.0.3''])))
        [(py_encode ''10.0.0.1,1'', ''10.0.0.1'')]))"
  by (rule relay_forwards_to_the_others) (simp_all add: only_refused_def ECONNREFUSED_def ascii_encode)

text \<open>
  Any other failure ends the medium: at the first recipient for which a send fails
  with another error, the task raises it, the recipients after it get nothing, and the
  process ends with that error, whatever datagrams are still to come.
\<close>

theorem relay_ends_on_other_errors:
  assumes "only_refused RELAY_NODE_TX_PORT ls net" and "ascii_bytes data" and "l \<noteq> address"
    and "net ((l, RELAY_NODE_TX_PORT), data) = Some e" and "e \<noteq> ECONNREFUSED"
  shows "relay_edge_listener (ls @ l # rs) net ((data, address) # datagrams) [] =
     (Inl (OSError e), filter (\<lambda>s. net s = None)
        (map (\<lambda>l. ((l, RELAY_NODE_TX_PORT), data)) (filter (\<lambda>l. l \<noteq> address) ls)))"
  using edge_relay.breaks [OF assms(2) refl assms(3,1,4,5), of rs "[]"]
  by (simp add: relay_edge_listener_def relayed_def py_run recv_ascii [OF assms(2)])

theorem relay_ends_on_other_errors_witness:
  "relay_edge_listener ([] @ ''10.0.0.1'' # [''10.0.0.2'']) (\<lambda>_. Some 101) ((py_encode ''10.0.0.7'', ''10.0.0.7'') # []) [] =
     (Inl (OSError 101), filter (\<lambda>s. Some (101::int) = None)
        (map (\<lambda>l. ((l, RELAY_NODE_TX_PORT), py_encode ''10.0.0.7'')) (filter (\<lambda>l. l \<noteq> ''10.0.0.7'') [])))"
  by (rule relay_ends_on_other_errors) (simp_all add: only_refused_def ECONNREFUSED_def ascii_encode)

text \<open>
  C26. Discovery of peers, from end to end: the datagram a device sends out reaches, through
  the relay, every other recipient that listens, and there enters the table of the group
  under the sender's index, with the sender's address and the time of arrival.
\<close>

theorem peers_discover_each_other:
  assumes "get_address_on_interface addrs NETWORK_INTERFACE = Inr own" and "plain_ad (py_str_int i) own"
    and "bluetooth_sender addrs i send_net = Inr d" and "only_refused RELAY_BLUETOOTH_TX_PORT recipients net"
  shows "relay_bluetooth_listener recipients net [(snd d, own)] out =
      (Inr (), out @ filter (\<lambda>s. net s = None)
        (map (\<lambda>l. ((l, RELAY_BLUETOOTH_TX_PORT), snd d)) (filter (\<lambda>l. l \<noteq> own) recipients)))
    \<and> bluetooth_listener (snd d) now g = AList.update (py_str_int i) (own, now) g"
proof -
  have d: "snd d = py_encode (own @ CHR '','' # py_str_int i)"
    using assms(1,3) by (auto simp: bluetooth_sender_def advertisement_def Let_def split: option.splits)
  have ascii: "ascii_bytes (snd d)"
    unfolding d using assms(2) by (intro ascii_encode) (simp_all add: plain_ad_def)
  have "bluetooth_listener (snd d) now g = AList.update (py_str_int i) (own, now) g"
    unfolding d by (rule bluetooth_listener_ad [OF assms(2)])
  with bluetooth.forwards [OF ascii assms(4)] show ?thesis
    by (simp add: relay_bluetooth_listener_def recv_ascii [OF ascii] relayed_def py_run)
qed

lemma plain_sample: "plain_ad (py_str_int 1) ''10.0.0.1''"
proof -
  have "length (py_str_int 1) = 1"
    by (simp add: py_str_int_def digits.simps)
  then show ?thesis
    by (simp add: plain_ad_def)
qed

definition sample_ad :: sending where
  "sample_ad = ((BROADCAST_NODE_ADDRESS, BLUETOOTH_TX_PORT), py_encode (advertisement ''10.0.0.1'' 1))"

theorem peers_discover_each_other_witness:
  "relay_bluetooth_listener [''10.0.0.1'', ''10.0.0.2''] (\<lambda>_. None) [(snd sample_ad, ''10.0.0.1'')] [] =
      (Inr (), [] @ filter (\<lambda>s. None = (None :: int option))
        (map (\<lambda>l. ((l, RELAY_BLUETOOTH_TX_PORT),
            snd sample_ad))
          (filter (\<lambda>l. l \<noteq> ''10.0.0.1'') [''10.0.0.1'', ''10.0.0.2''])))
    \<and> bluetooth_listener (snd sample_ad) 5 [] =
        AList.update (py_str_int 1) (''10.0.0.1'', 5) []"
  by (rule peers_discover_each_other [of "dv_addrs (sample_device (\<lambda>_. None))" _ _ "\<lambda>_. None"])
     (simp_all add: plain_sample only_refused_def bluetooth_sender_def Let_def sample_ad_def)

text \<open>
  C27. Discovery of an edge server, from end to end: its broadcast, forwarded by the relay,
  makes a device that is not yet connected note the server, connect to it and answer; and
  the answer, read by the server from that connection, makes the device a known node.
\<close>

theorem edge_server_discovers_nodes:
  assumes "get_address_on_interface server_addrs NETWORK_INTERFACE = Inr server" and "py_ascii server" and "length server \<le> 1024"
    and "get_address_on_interface addrs NETWORK_INTERFACE = Inr own" and "plain_ad (py_str_int i) own"
    and "broadcast_advertisement server_addrs send_net = Inr d" and "only_refused RELAY_NODE_TX_PORT recipients net"
    and "edge_peer s = None" and "dial (server, EDGE_UNICAST_TX_PORT) = None" and "\<And>x. answer_net x = None"
  shows "\<exists>reply.
      relay_edge_listener recipients net [(snd d, server)] out =
        (Inr (), out @ filter (\<lambda>s. net s = None)
          (map (\<lambda>l. ((l, RELAY_NODE_TX_PORT), snd d)) (filter (\<lambda>l. l \<noteq> server) recipients)))
    \<and> edge_broadcast_listener addrs i dial answer_net (snd d) now s =
        (Inr (), s\<lparr>edge_server_address_time := Some (server, now), edge_peer := Some (server, EDGE_UNICAST_TX_PORT),
           edge_sent := edge_sent s @ [((server, EDGE_UNICAST_TX_PORT), reply)]\<rparr>)
    \<and> maintain_existing_connection reply now' known = Inr (AList.update (py_str_int i) (own, now') known)"
proof -
  have d: "snd d = py_encode server"
    using assms(1,6) by (auto simp: broadcast_advertisement_def Let_def split: option.splits)
  have ascii: "ascii_bytes (snd d)"
    unfolding d by (rule ascii_encode [OF assms(2,3)])
  have "maintain_existing_connection (py_encode (advertisement own i)) now' known
      = Inr (AList.update (py_str_int i) (own, now') known)"
    by (simp add: maintain_plain_ad assms(5) advertisement_def)
  moreover have "edge_broadcast_listener addrs i dial answer_net (snd d) now s =
        (Inr (), s\<lparr>edge_server_address_time := Some (server, now), edge_peer := Some (server, EDGE_UNICAST_TX_PORT),
           edge_sent := edge_sent s @ [((server, EDGE_UNICAST_TX_PORT), py_encode (advertisement own i))]\<rparr>)"
    using assms
    by (simp add: d edge_broadcast_listener_def edge_process_advertisement_def edge_responder_def edge_connect_def
        edge_send_def try_oserror_def py_run)
  ultimately show ?thesis
    using edge_relay.forwards [OF _ assms(7)] ascii
    by (intro exI [of _ "py_encode (advertisement own i)"])
       (simp add: relay_edge_listener_def recv_ascii relayed_def py_run)
qed

definition sample_hello :: sending where
  "sample_hello = ((''172.22.154.236'', 63031), py_encode ''10.0.0.7'')"

theorem edge_server_discovers_nodes_witness:
  "\<exists>reply.
      relay_edge_listener [''10.0.0.1''] (\<lambda>_. None) [(snd sample_hello, ''10.0.0.7'')] [] =
        (Inr (), [] @ filter (\<lambda>s. None = (None :: int option))
          (map (\<lambda>l. ((l, RELAY_NODE_TX_PORT), snd sample_hello))
            (filter (\<lambda>l. l \<noteq> ''10.0.0.7'') [''10.0.0.1''])))
    \<and> edge_broadcast_listener (dv_addrs (sample_device (\<lambda>_. None))) 1 (\<lambda>_. None) (\<lambda>_. None)
          (snd sample_hello) 3 (nm_edge (node_main_init 0)) =
        (Inr (), (nm_edge (node_main_init 0))\<lparr>edge_server_address_time := Some (''10.0.0.7'', 3),
           edge_peer := Some (''10.0.0.7'', EDGE_UNICAST_TX_PORT),
           edge_sent := edge_sent (nm_edge (node_main_init 0)) @ [((''10.0.0.7'', EDGE_UNICAST_TX_PORT), reply)]\<rparr>)
    \<and> maintain_existing_connection reply 4 [] = Inr (AList.update (py_str_int 1) (''10.0.0.1'', 4) [])"
  by (rule edge_server_discovers_nodes [where server_addrs = "[(NETWORK_INTERFACE, [(2, ''10.0.0.7'')])]" and send_net = "\<lambda>_. None"])
     (simp_all add: plain_sample only_refused_def broadcast_advertisement_def get_address_on_interface_def Let_def
       node_main_init_def sample_hello_def EDGE_BROADCAST_NODE_ADDRESS_def EDGE_BROADCAST_TX_PORT_def sample_device_def)

end
