(* ===== verification/Deployment.thy ===== *)
theory Deployment
  imports Broadcast_Nodes
begin

text \<open>
  How the programs start: the sockets that \<open>main\<close> of \<^verbatim>\<open>src/node.py\<close>, \<^verbatim>\<open>src/edge.py\<close> and of
  the two relays binds before anything else, and that what one program sends arrives at a
  port where the program it is meant for reads.
\<close>

section \<open>Binding several sockets\<close>

datatype connection_type = SOCK_DGRAM | SOCK_STREAM

text \<open>What the system makes of the \<open>k\<close>-th attempt to bind a port.\<close>

type_synonym machine = "int \<times> connection_type \<Rightarrow> nat \<Rightarrow> int option"

fun bind_sockets :: "machine \<Rightarrow> (int \<times> connection_type) list \<Rightarrow> (py_error + unit) option" where
  "bind_sockets m [] = Some (Inr ())"
| "bind_sockets m (s # ss) =
     (case bind_socket (m s) of
        None \<Rightarrow> None
      | Some (Inl e) \<Rightarrow> Some (Inl e)
      | Some (Inr _) \<Rightarrow> bind_sockets m ss)"

section \<open>The programs\<close>

definition BLUETOOTH_RX_PORT :: int where "BLUETOOTH_RX_PORT = 59031"
definition EDGE_BROADCAST_RX_PORT :: int where "EDGE_BROADCAST_RX_PORT = 63031"
definition EDGE_UNICAST_RX_PORT :: int where "EDGE_UNICAST_RX_PORT = 61031"

definition node_sockets :: "(int \<times> connection_type) list" where
  "node_sockets =
     [(BLUETOOTH_TX_PORT, SOCK_DGRAM), (BLUETOOTH_RX_PORT, SOCK_DGRAM), (EDGE_UNICAST_TX_PORT, SOCK_STREAM),
      (EDGE_UNICAST_RX_PORT, SOCK_STREAM), (EDGE_BROADCAST_RX_PORT, SOCK_DGRAM)]"

definition node_start :: "machine \<Rightarrow> rat \<Rightarrow> (py_error + node_main) option" where
  "node_start m now = map_option (\<lambda>r. rbind r (\<lambda>_. Inr (node_main_init now))) (bind_sockets m node_sockets)"

definition SERVER_UNICAST_TX_PORT :: int where "SERVER_UNICAST_TX_PORT = 61031"
definition SERVER_UNICAST_RX_PORT :: int where "SERVER_UNICAST_RX_PORT = 61021"

definition edge_sockets :: "(int \<times> connection_type) list" where
  "edge_sockets =
     [(EDGE_BROADCAST_TX_PORT, SOCK_DGRAM), (SERVER_UNICAST_TX_PORT, SOCK_STREAM), (SERVER_UNICAST_RX_PORT, SOCK_STREAM)]"

definition edge_start :: "machine \<Rightarrow> rat \<Rightarrow> (py_error + edge_server) option" where
  "edge_start m now = map_option (\<lambda>r. rbind r (\<lambda>_. Inr (edge_init now))) (bind_sockets m edge_sockets)"

definition RELAY_BLUETOOTH_RX_PORT :: int where "RELAY_BLUETOOTH_RX_PORT = 59021"
definition RELAY_EDGE_RX_PORT :: int where "RELAY_EDGE_RX_PORT = 63031"

text \<open>A relay goes from its sockets into the loop of its listener; these are its first datagrams.\<close>

definition bluetooth_broadcast_main ::
  "machine \<Rightarrow> string list \<Rightarrow> (sending \<Rightarrow> int option) \<Rightarrow> (byte list \<times> string) list \<Rightarrow> ((py_error + unit) \<times> sending list) option" where
  "bluetooth_broadcast_main m recipients net datagrams =
     (case bind_sockets m [(RELAY_BLUETOOTH_TX_PORT, SOCK_DGRAM), (RELAY_BLUETOOTH_RX_PORT, SOCK_DGRAM)] of
        None \<Rightarrow> None
      | Some (Inl e) \<Rightarrow> Some (Inl e, [])
      | Some (Inr _) \<Rightarrow> Some (relay_bluetooth_listener recipients net datagrams []))"

definition edge_broadcast_main ::
  "machine \<Rightarrow> string list \<Rightarrow> (sending \<Rightarrow> int option) \<Rightarrow> (byte list \<times> string) list \<Rightarrow> ((py_error + unit) \<times> sending list) option" where
  "edge_broadcast_main m recipients net datagrams =
     (case bind_sockets m [(RELAY_NODE_TX_PORT, SOCK_DGRAM), (RELAY_EDGE_RX_PORT, SOCK_DGRAM)] of
        None \<Rightarrow> None
      | Some (Inl e) \<Rightarrow> Some (Inl e, [])
      | Some (Inr _) \<Rightarrow> Some (relay_edge_listener recipients net datagrams []))"

section \<open>When a program comes up\<close>

definition obtainable :: "machine \<Rightarrow> int \<times> connection_type \<Rightarrow> bool" where
  "obtainable m s \<longleftrightarrow> (\<exists>k. m s k = None \<and> (\<forall>j < k. m s j = Some EADDRINUSE))"

lemma bind_socket_ok: "(\<exists>k. bind_socket (m s) = Some (Inr k)) \<longleftrightarrow> obtainable m s"
proof
  assume "\<exists>k. bind_socket (m s) = Some (Inr k)"
  then obtain k where run: "bind_from (m s) 0 = Some (Inr k)"
    by (auto simp: bind_socket_def)
  from bind_from_returns [OF this] obtain i where i: "m s i \<noteq> Some EADDRINUSE"
    by auto
  define n where "n = (LEAST n. m s n \<noteq> Some EADDRINUSE)"
  have n: "m s n \<noteq> Some EADDRINUSE" "\<forall>j < n. m s j = Some EADDRINUSE"
    using LeastI [of "\<lambda>n. m s n \<noteq> Some EADDRINUSE", OF i] not_less_Least by (auto simp: n_def)
  with bind_from_first [of 0 n "m s"] run show "obtainable m s"
    by (auto simp: obtainable_def bind_outcome_def split: option.splits)
next
  assume "obtainable m s"
  then obtain k where "m s k = None" "\<forall>j < k. m s j = Some EADDRINUSE"
    by (auto simp: obtainable_def)
  with bind_from_first [of 0 k "m s"] show "\<exists>k. bind_socket (m s) = Some (Inr k)"
    by (auto simp: bind_socket_def bind_outcome_def)
qed

lemma bind_sockets_ok: "bind_sockets m ss = Some (Inr ()) \<longleftrightarrow> (\<forall>s \<in> set ss. obtainable m s)"
  by (induction ss) (auto simp flip: bind_socket_ok split: option.splits sum.splits)

lemma device_starts:
  "node_start m now = Some (Inr s) \<longleftrightarrow> s = node_main_init now \<and> (\<forall>p \<in> set node_sockets. obtainable m p)"
  unfolding bind_sockets_ok [symmetric]
  by (cases "bind_sockets m node_sockets") (auto simp: node_start_def rbind_def split: sum.splits)

lemma edge_server_starts:
  "edge_start m now = Some (Inr s) \<longleftrightarrow> s = edge_init now \<and> (\<forall>p \<in> set edge_sockets. obtainable m p)"
  unfolding bind_sockets_ok [symmetric]
  by (cases "bind_sockets m edge_sockets") (auto simp: edge_start_def rbind_def split: sum.splits)

section \<open>Ports\<close>

text \<open>
  What a device, a relay and an edge server send goes to the port at which the relay, the
  device and the edge server read.
\<close>

lemma relayed_port: "d \<in> set (relayed prt recipients net m) \<Longrightarrow> snd (fst d) = prt"
  by (auto simp: relayed_def)

lemma ports_meet:
  "bluetooth_sender addrs i net = Inr d \<Longrightarrow> snd (fst d) = RELAY_BLUETOOTH_RX_PORT"
  "broadcast_advertisement addrs net = Inr d \<Longrightarrow> snd (fst d) = RELAY_EDGE_RX_PORT"
  "d \<in> set (relayed RELAY_BLUETOOTH_TX_PORT recipients net m) \<Longrightarrow> snd (fst d) = BLUETOOTH_RX_PORT"
  "d \<in> set (relayed RELAY_NODE_TX_PORT recipients net m) \<Longrightarrow> snd (fst d) = EDGE_BROADCAST_RX_PORT"
  "EDGE_UNICAST_TX_PORT = SERVER_UNICAST_RX_PORT"
  by (auto simp: bluetooth_sender_def broadcast_advertisement_def Let_def rbind_def relayed_port BLUETOOTH_TX_PORT_def
      RELAY_BLUETOOTH_RX_PORT_def EDGE_BROADCAST_TX_PORT_def RELAY_EDGE_RX_PORT_def RELAY_BLUETOOTH_TX_PORT_def
      BLUETOOTH_RX_PORT_def RELAY_NODE_TX_PORT_def EDGE_BROADCAST_RX_PORT_def EDGE_UNICAST_TX_PORT_def
      SERVER_UNICAST_RX_PORT_def split: option.splits sum.splits)

end
