(* ===== verification/Simulator.thy ===== *)
theory Simulator
  imports Edge_Server
begin

text \<open>
  Code written against the ns-3 simulator and beside it: the start of the application of
  \<^verbatim>\<open>src/edge/edge_node.py\<close>, the movement of \<^verbatim>\<open>src/node/node_movement.py\<close> and the nodes of
  \<^verbatim>\<open>tools/wireless-model.py\<close>. The simulator's vectors and numpy's square root are
  parameters.
\<close>

section \<open>The start of the server application\<close>

text \<open>
  \<open>StartApplication\<close> schedules two events; both are callbacks of \<open>send_data\<close>, under
  whatever name they are kept.
\<close>

datatype sim_callback = Send_data | Update_keys

record server_application =
  server_socket :: "int option"
  client_socket :: bool
  send_event1 :: "(rat \<times> sim_callback) option"
  update_keys_event :: "(rat \<times> sim_callback) option"
  known_nodes :: sim_members

definition ServerApplication_init :: server_application where
  "ServerApplication_init =
     \<lparr>server_socket = None, client_socket = False, send_event1 = None, update_keys_event = None, known_nodes = []\<rparr>"

definition StartApplication :: "server_application \<Rightarrow> server_application" where
  "StartApplication a =
     a\<lparr>server_socket := Some 61021, client_socket := True, send_event1 := Some (1000000000, Send_data),
       update_keys_event := Some (1, Send_data)\<rparr>"

definition fire :: "string set \<Rightarrow> string \<Rightarrow> rat \<Rightarrow> sim_callback \<Rightarrow> sim_members \<Rightarrow> py_error + sim_members" where
  "fire globals address now c known =
     (case c of
        Send_data \<Rightarrow> rbind (sim_send_data globals address) (\<lambda>_. Inr known)
      | Update_keys \<Rightarrow> updateKeys now known)"

lemma server_never_sweeps:
  assumes "(t, c) \<in> set_option (send_event1 (StartApplication a)) \<union> set_option (update_keys_event (StartApplication a))"
  shows "c = Send_data" and "fire edge_node_globals address now c known = Inl (NameError ''node'')"
  using assms by (auto simp: StartApplication_def fire_def sim_send_data_def edge_node_globals_def)

section \<open>Movement\<close>

record 'v vectors =
  vec :: "rat \<Rightarrow> rat \<Rightarrow> rat \<Rightarrow> 'v"
  vec_plus :: "'v \<Rightarrow> 'v \<Rightarrow> 'v"
  vec_times :: "'v \<Rightarrow> rat \<Rightarrow> 'v"

record 'v mobility =
  position :: 'v
  velocity :: 'v

definition CustomMobilityModel_init :: "'v vectors \<Rightarrow> rat \<Rightarrow> 'v mobility" where
  "CustomMobilityModel_init V v = \<lparr>position = vec V 0 0 0, velocity = vec V v 0 0\<rparr>"

definition DoGetPosition :: "'v mobility \<Rightarrow> 'v" where
  "DoGetPosition m = position m"

definition DoSetPosition :: "'v \<Rightarrow> 'v mobility \<Rightarrow> 'v mobility" where
  "DoSetPosition p m = m\<lparr>position := p\<rparr>"

definition DoGetVelocity :: "'v vectors \<Rightarrow> 'v mobility \<Rightarrow> 'v" where
  "DoGetVelocity V m = vec V 1 0 0"

definition DoUpdateLocation :: "'v vectors \<Rightarrow> rat \<Rightarrow> 'v mobility \<Rightarrow> 'v mobility" where
  "DoUpdateLocation V now m =
     (if now < 100 \<and> now > 50
      then DoSetPosition (vec_plus V (DoGetPosition m) (vec_times V (DoGetVelocity V m) now)) m
      else m)"

lemma position_update:
  "position (DoUpdateLocation V now m) =
     (if now < 100 \<and> now > 50 then vec_plus V (position m) (vec_times V (vec V 1 0 0) now) else position m)"
  by (simp add: DoUpdateLocation_def DoSetPosition_def DoGetPosition_def DoGetVelocity_def)

text \<open>The velocity a node is made with plays no part in where it goes.\<close>

lemma same_path:
  "DoGetPosition (fold (DoUpdateLocation V) ts (CustomMobilityModel_init V u))
   = DoGetPosition (fold (DoUpdateLocation V) ts (CustomMobilityModel_init V v))"
proof -
  have "position (fold (DoUpdateLocation V) ts m) = position (fold (DoUpdateLocation V) ts m')"
    if "position m = position m'" for m m'
    using that
  proof (induction ts arbitrary: m m')
    case (Cons t ts)
    then have "position (DoUpdateLocation V t m) = position (DoUpdateLocation V t m')"
      by (simp add: position_update)
    from Cons.IH [OF this] show ?case
      by simp
  qed simp
  then show ?thesis
    by (simp add: DoGetPosition_def CustomMobilityModel_init_def)
qed

text \<open>
  Each update moves the node by the time of the clock and not by the time since the last
  update, so that where it is depends on how often it was asked to move.
\<close>

definition axis :: "rat vectors" where
  "axis = \<lparr>vec = (\<lambda>x y z. x), vec_plus = (+), vec_times = (*)\<rparr>"

lemma moves_by_the_clock:
  assumes "\<forall>t \<in> set ts. 50 < t \<and> t < 100"
  shows "DoGetPosition (fold (DoUpdateLocation axis) ts (CustomMobilityModel_init axis v)) = sum_list ts"
proof -
  have "position (fold (DoUpdateLocation axis) ts m) = position m + sum_list ts" for m
    using assms
    by (induction ts arbitrary: m) (simp_all add: position_update axis_def)
  then show ?thesis
    by (simp add: DoGetPosition_def CustomMobilityModel_init_def axis_def)
qed

section \<open>Wireless nodes\<close>

record wireless_node =
  wn_x :: real
  wn_y :: real
  wn_z :: real
  wn_id :: int
  wn_energy :: real
  wn_range :: real

definition calc_distance :: "(real \<Rightarrow> real) \<Rightarrow> wireless_node \<Rightarrow> wireless_node \<Rightarrow> real" where
  "calc_distance np_sqrt a b = np_sqrt ((wn_x a - wn_x b)\<^sup>2 + (wn_y a - wn_y b)\<^sup>2 + (wn_z a - wn_z b)\<^sup>2)"

definition is_in_range :: "(real \<Rightarrow> real) \<Rightarrow> wireless_node \<Rightarrow> wireless_node \<Rightarrow> bool" where
  "is_in_range np_sqrt a b \<longleftrightarrow> calc_distance np_sqrt a b \<le> wn_range a"

definition same_node :: "wireless_node \<Rightarrow> wireless_node \<Rightarrow> bool" where
  "same_node a b \<longleftrightarrow> wn_id a = wn_id b"

definition signal_strength :: "real \<Rightarrow> real" where
  "signal_strength distance = 1 / (1 + distance\<^sup>2)"

lemma range_is_mutual:
  "wn_range a = wn_range b \<Longrightarrow> is_in_range np_sqrt a b \<longleftrightarrow> is_in_range np_sqrt b a"
  by (simp add: is_in_range_def calc_distance_def power2_commute)

lemma signal_fades: "0 \<le> d \<Longrightarrow> d < e \<Longrightarrow> signal_strength e < signal_strength d"
  by (simp add: signal_strength_def frac_less2 power_strict_mono add_pos_nonneg)

lemma signal_bounds: "0 < signal_strength d" "signal_strength d \<le> 1"
  by (simp_all add: signal_strength_def add_pos_nonneg)

end
