(* ===== verification/Py_Json.thy ===== *)
theory Py_Json
  imports Py_Text
begin

text \<open>
  \<open>json.dumps\<close> and \<open>json.loads\<close> on the values of the model, as text: the serialiser with
  its default separators and with everything outside printable ASCII escaped, and a parser
  for the texts without fractions and exponents (the model has no floats). Reading back
  what was written gives the value with tuples turned into lists.
\<close>

section \<open>Writing\<close>

definition hex_digit :: "nat \<Rightarrow> char" where
  "hex_digit n = (if n < 10 then char_of (48 + n) else char_of (87 + n))"

definition json_escape :: "char \<Rightarrow> string" where
  "json_escape c =
     (let n = (of_char c :: nat) in
      if c = CHR 0x22 then [CHR 0x5C, CHR 0x22]
      else if c = CHR 0x5C then [CHR 0x5C, CHR 0x5C]
      else if c = CHR 0x08 then [CHR 0x5C, CHR ''b'']
      else if c = CHR 0x09 then [CHR 0x5C, CHR ''t'']
      else if c = CHR 0x0A then [CHR 0x5C, CHR ''n'']
      else if c = CHR 0x0C then [CHR 0x5C, CHR ''f'']
      else if c = CHR 0x0D then [CHR 0x5C, CHR ''r'']
      else if 32 \<le> n \<and> n \<le> 126 then [c]
      else [CHR 0x5C, CHR ''u'', CHR ''0'', CHR ''0'', hex_digit (n div 16), hex_digit (n mod 16)])"

definition json_quote :: "string \<Rightarrow> string" where
  "json_quote s = CHR 0x22 # concat (map json_escape s) @ [CHR 0x22]"

fun json_join :: "string list \<Rightarrow> string" where
  "json_join [] = []"
| "json_join [s] = s"
| "json_join (s # ss) = s @ CHR '','' # CHR '' '' # json_join ss"

fun json_dumps :: "pyval \<Rightarrow> string" where
  "json_dumps PyNone = ''null''"
| "json_dumps (PyBool b) = (if b then ''true'' else ''false'')"
| "json_dumps (PyInt i) = py_str_int i"
| "json_dumps (PyStr s) = json_quote s"
| "json_dumps (PyList vs) = CHR ''['' # json_join (map json_dumps vs) @ '']''"
| "json_dumps (PyTuple vs) = CHR ''['' # json_join (map json_dumps vs) @ '']''"
| "json_dumps (PyDict d) =
     CHR ''{'' # json_join (map (\<lambda>(k, v). json_quote k @ CHR '':'' # CHR '' '' # json_dumps v) d) @ ''}''"

section \<open>Reading\<close>

definition json_space :: "char \<Rightarrow> bool" where
  "json_space c \<longleftrightarrow> c = CHR '' '' \<or> c = CHR 0x09 \<or> c = CHR 0x0A \<or> c = CHR 0x0D"

definition skip :: "string \<Rightarrow> string" where
  "skip s = dropWhile json_space s"

definition hex_value :: "char \<Rightarrow> nat option" where
  "hex_value c =
     (let n = (of_char c :: nat) in
      if 48 \<le> n \<and> n \<le> 57 then Some (n - 48)
      else if 97 \<le> n \<and> n \<le> 102 then Some (n - 87)
      else if 65 \<le> n \<and> n \<le> 70 then Some (n - 55)
      else None)"

definition json_unescape :: "char \<Rightarrow> char option" where
  "json_unescape c =
     (if c = CHR 0x22 \<or> c = CHR 0x5C \<or> c = CHR ''/'' then Some c
      else if c = CHR ''b'' then Some (CHR 0x08)
      else if c = CHR ''t'' then Some (CHR 0x09)
      else if c = CHR ''n'' then Some (CHR 0x0A)
      else if c = CHR ''f'' then Some (CHR 0x0C)
      else if c = CHR ''r'' then Some (CHR 0x0D)
      else None)"

text \<open>The rest of a string after its opening quote; only code points below 256 are read.\<close>

fun json_chars :: "string \<Rightarrow> (string \<times> string) option" where
  "json_chars [] = None"
| "json_chars (c # r) =
     (if c = CHR 0x22 then Some ([], r)
      else if c = CHR 0x5C then
        (case r of
           [] \<Rightarrow> None
         | e # r1 \<Rightarrow>
             if e = CHR ''u'' then
               (case r1 of
                  a # b # x # y # r2 \<Rightarrow>
                    (case (a = CHR ''0'' \<and> b = CHR ''0'', hex_value x, hex_value y) of
                       (True, Some h, Some l) \<Rightarrow> map_option (apfst (Cons (char_of (16 * h + l)))) (json_chars r2)
                     | _ \<Rightarrow> None)
                | _ \<Rightarrow> None)
             else (case json_unescape e of
                     None \<Rightarrow> None
                   | Some d \<Rightarrow> map_option (apfst (Cons d)) (json_chars r1)))
      else if (of_char c :: nat) < 32 then None
      else map_option (apfst (Cons c)) (json_chars r))"

definition is_digit :: "char \<Rightarrow> bool" where
  "is_digit c \<longleftrightarrow> 48 \<le> (of_char c :: nat) \<and> (of_char c :: nat) \<le> 57"

text \<open>A number: no leading zero before another digit, an optional minus sign.\<close>

definition json_nat :: "string \<Rightarrow> (nat \<times> string) option" where
  "json_nat s =
     (case s of
        [] \<Rightarrow> None
      | c # r \<Rightarrow>
          if c = CHR ''0'' then Some (0, r)
          else if is_digit c then Some (undigits (takeWhile is_digit s), dropWhile is_digit s)
          else None)"

definition json_number :: "string \<Rightarrow> (pyval \<times> string) option" where
  "json_number s =
     (case s of
        [] \<Rightarrow> None
      | c # r \<Rightarrow>
          if c = CHR ''-'' then map_option (apfst (\<lambda>n. PyInt (- int n))) (json_nat r)
          else map_option (apfst (\<lambda>n. PyInt (int n))) (json_nat s))"

definition json_literal :: "string \<Rightarrow> pyval \<Rightarrow> string \<Rightarrow> (pyval \<times> string) option" where
  "json_literal w v s = (if take (length w) s = w then Some (v, drop (length w) s) else None)"

text \<open>
  Values, the rest of a list after an element is due, and the rest of an object after a
  key is due. The first argument bounds the recursion; the length of the text is enough.
\<close>

fun json_value :: "nat \<Rightarrow> string \<Rightarrow> (pyval \<times> string) option"
  and json_items :: "nat \<Rightarrow> string \<Rightarrow> (pyval list \<times> string) option"
  and json_members :: "nat \<Rightarrow> string \<Rightarrow> ((string \<times> pyval) list \<times> string) option" where
  "json_value 0 s = None"
| "json_value (Suc n) s =
     (case skip s of
        [] \<Rightarrow> None
      | c # r \<Rightarrow>
          if c = CHR 0x22 then map_option (apfst PyStr) (json_chars r)
          else if c = CHR ''['' then
            (if take 1 (skip r) = '']'' then Some (PyList [], drop 1 (skip r))
             else map_option (apfst PyList) (json_items n r))
          else if c = CHR ''{'' then
            (if take 1 (skip r) = ''}'' then Some (PyDict [], drop 1 (skip r))
             else map_option (apfst (\<lambda>d. PyDict (py_dict_update [] d))) (json_members n r))
          else if c = CHR ''n'' then json_literal ''null'' PyNone (c # r)
          else if c = CHR ''t'' then json_literal ''true'' (PyBool True) (c # r)
          else if c = CHR ''f'' then json_literal ''false'' (PyBool False) (c # r)
          else json_number (c # r))"
| "json_items 0 s = None"
| "json_items (Suc n) s =
     (case json_value n s of
        None \<Rightarrow> None
      | Some (v, r) \<Rightarrow>
          if take 1 (skip r) = '']'' then Some ([v], drop 1 (skip r))
          else if take 1 (skip r) = '','' then map_option (apfst (Cons v)) (json_items n (drop 1 (skip r)))
          else None)"
| "json_members 0 s = None"
| "json_members (Suc n) s =
     (case skip s of
        [] \<Rightarrow> None
      | c # r \<Rightarrow>
          if c \<noteq> CHR 0x22 then None
          else case json_chars r of
            None \<Rightarrow> None
          | Some (k, r1) \<Rightarrow>
              if take 1 (skip r1) \<noteq> '':'' then None
              else case json_value n (drop 1 (skip r1)) of
                None \<Rightarrow> None
              | Some (v, r2) \<Rightarrow>
                  if take 1 (skip r2) = ''}'' then Some ([(k, v)], drop 1 (skip r2))
                  else if take 1 (skip r2) = '','' then
                    map_option (apfst (Cons (k, v))) (json_members n (drop 1 (skip r2)))
                  else None)"

text \<open>\<open>json.loads\<close>: nothing stands for \<open>JSONDecodeError\<close>.\<close>

definition json_loads :: "string \<Rightarrow> pyval option" where
  "json_loads s =
     (case json_value (Suc (length s)) s of
        None \<Rightarrow> None
      | Some (v, r) \<Rightarrow> if skip r = [] then Some v else None)"

section \<open>Reading back what was written\<close>

lemma hex_value_digit [simp]: "n < 16 \<Longrightarrow> hex_value (hex_digit n) = Some n"
  by (auto simp: hex_value_def hex_digit_def Let_def)

lemma of_char_below: "(of_char c :: nat) < 256"
proof -
  have "(of_char c :: nat) = of_char c mod 256"
    by simp
  also have "\<dots> < 256"
    by (rule mod_less_divisor) simp
  finally show ?thesis .
qed

lemma json_chars_escape: "json_chars (json_escape c @ r) = map_option (apfst (Cons c)) (json_chars r)"
proof -
  let ?n = "of_char c :: nat"
  have "?n div 16 < 16" and "?n mod 16 < 16"
    using of_char_below [of c] by (simp_all add: less_mult_imp_div_less)
  moreover have "char_of (16 * (?n div 16) + ?n mod 16) = c"
    by simp
  ultimately show ?thesis
    by (auto simp: json_escape_def json_unescape_def Let_def)
qed

lemma json_chars_quote: "json_chars (concat (map json_escape s) @ CHR 0x22 # r) = Some (s, r)"
  by (induction s) (simp_all add: json_chars_escape)

text \<open>What may follow a value inside a text: nothing that could belong to a number.\<close>

definition stops :: "string \<Rightarrow> bool" where
  "stops r \<longleftrightarrow> r = [] \<or> \<not> is_digit (hd r)"

lemma digits_first: "0 < n \<Longrightarrow> hd (digits n) \<noteq> CHR ''0'' \<and> is_digit (hd (digits n))"
proof (induction n rule: digits.induct)
  case (1 n)
  show ?case
  proof (cases "n < 10")
    case True
    then have code: "(of_char (char_of (48 + n) :: char) :: nat) = 48 + n"
      by simp
    have "(char_of (48 + n) :: char) \<noteq> CHR ''0''"
    proof
      assume "(char_of (48 + n) :: char) = CHR ''0''"
      with code have "48 + n = (of_char (CHR ''0'') :: nat)"
        by metis
      with 1(2) show False
        by simp
    qed
    with code True show ?thesis
      by (subst (1 2) digits.simps) (simp add: is_digit_def)
  next
    case False
    then have "0 < n div 10"
      by simp
    with 1(1) [OF False this] False show ?thesis
      by (subst (1 2) digits.simps) simp
  qed
qed

lemma digits_are_digits: "c \<in> set (digits n) \<Longrightarrow> is_digit c"
proof (induction n rule: digits.induct)
  case (1 n)
  then show ?case
    by (subst (asm) (2) digits.simps) (auto simp: is_digit_def split: if_splits)
qed

lemma json_nat_digits: "stops r \<Longrightarrow> json_nat (digits n @ r) = Some (n, r)"
proof (cases "n = 0")
  case True
  have "char_of (48::nat) = CHR ''0''"
    by code_simp
  with True show ?thesis
    by (subst digits.simps) (simp add: json_nat_def)
next
  case False
  assume "stops r"
  then have "takeWhile is_digit (digits n @ r) = digits n" and "dropWhile is_digit (digits n @ r) = r"
    using digits_are_digits [of _ n]
    by (auto simp: stops_def takeWhile_append2 dropWhile_append2 takeWhile_eq_Nil_iff dropWhile_eq_self_iff)
  moreover obtain c t where "digits n = c # t"
    by (cases "digits n") auto
  ultimately show ?thesis
    using digits_first [of n] False by (simp add: json_nat_def) (metis append_Cons undigits_digits)
qed

lemma json_number_int: "stops r \<Longrightarrow> json_number (py_str_int i @ r) = Some (PyInt i, r)"
proof -
  assume r: "stops r"
  obtain c t where c: "digits (nat i) = c # t" "is_digit c"
    using digits_are_digits [of _ "nat i"] by (cases "digits (nat i)") auto
  then have "c \<noteq> CHR ''-''"
    by (auto simp: is_digit_def)
  with c(1) json_nat_digits [OF r, of "nat i"] json_nat_digits [OF r, of "nat (- i)"] show ?thesis
    by (auto simp: json_number_def py_str_int_def)
qed

text \<open>The first character of a value says which kind it is, and is no blank.\<close>

lemma int_first:
  obtains c t where "py_str_int i = c # t" and "numeral_char c"
  using py_str_int_numeral [of _ i] by (cases "py_str_int i") auto

lemma numeral_first:
  "numeral_char c \<Longrightarrow> \<not> json_space c \<and> c \<notin> set (CHR 0x22 # ''[]{}ntf,:'')"
  by (auto simp: numeral_char_def json_space_def)

lemma dumps_first: "\<exists>c t. json_dumps v = c # t \<and> \<not> json_space c \<and> c \<notin> set '']},:''"
proof (cases v)
  case (PyInt i)
  then show ?thesis
    using numeral_first by (cases rule: int_first [of i]) auto
qed (simp_all add: json_space_def json_quote_def)

lemma skip_dumps [simp]: "skip (json_dumps v @ r) = json_dumps v @ r"
  using dumps_first [of v] by (auto simp: skip_def)

lemma skip_simps [simp]:
  "skip (CHR '' '' # r) = skip r"
  "skip (CHR '','' # r) = CHR '','' # r"
  "skip (CHR '']'' # r) = CHR '']'' # r"
  "skip (CHR ''}'' # r) = CHR ''}'' # r"
  "skip (CHR '':'' # r) = CHR '':'' # r"
  "skip (CHR 0x22 # r) = CHR 0x22 # r"
  "skip [] = []"
  by (simp_all add: skip_def json_space_def)

lemma skip_first: "\<not> json_space c \<Longrightarrow> skip (c # t) = c # t"
  by (simp add: skip_def)

lemma skip_idem [simp]: "skip (skip s) = skip s"
  by (simp add: skip_def)

lemma json_value_blank [simp]: "json_value n (CHR '' '' # s) = json_value n s"
  by (cases n) simp_all

lemma json_items_blank [simp]: "json_items n (CHR '' '' # s) = json_items n s"
  by (cases n) simp_all

lemma json_members_blank [simp]: "json_members n (CHR '' '' # s) = json_members n s"
  by (cases n) simp_all

fun json_ok :: "pyval \<Rightarrow> bool" where
  "json_ok (PyList vs) = list_all json_ok vs"
| "json_ok (PyTuple vs) = list_all json_ok vs"
| "json_ok (PyDict d) = (distinct (map fst d) \<and> list_all (\<lambda>(k, v). json_ok v) d)"
| "json_ok _ = True"

fun need :: "pyval \<Rightarrow> nat" where
  "need (PyList vs) = Suc (sum_list (map (\<lambda>v. Suc (need v)) vs))"
| "need (PyTuple vs) = Suc (sum_list (map (\<lambda>v. Suc (need v)) vs))"
| "need (PyDict d) = Suc (sum_list (map (\<lambda>(k, v). Suc (need v)) d))"
| "need _ = 1"

definition reads :: "pyval \<Rightarrow> bool" where
  "reads v \<longleftrightarrow> (\<forall>n r. need v \<le> n \<longrightarrow> stops r \<longrightarrow> json_value n (json_dumps v @ r) = Some (json_norm v, r))"

lemma readsD: "reads v \<Longrightarrow> need v \<le> n \<Longrightarrow> stops r \<Longrightarrow> json_value n (json_dumps v @ r) = Some (json_norm v, r)"
  by (simp add: reads_def)

lemma stops_simps [simp]:
  "stops []" "stops (CHR '','' # r)" "stops (CHR '']'' # r)" "stops (CHR ''}'' # r)"
  by (simp_all add: stops_def is_digit_def)

lemma json_items_read:
  assumes "\<forall>v \<in> set vs. reads v" and "vs \<noteq> []" and "sum_list (map (\<lambda>v. Suc (need v)) vs) \<le> n"
  shows "json_items n (json_join (map json_dumps vs) @ CHR '']'' # r) = Some (map json_norm vs, r)"
  using assms
proof (induction vs arbitrary: n)
  case (Cons v vs)
  then obtain m where n: "n = Suc m" and m: "need v \<le> m" "vs \<noteq> [] \<Longrightarrow> sum_list (map (\<lambda>v. Suc (need v)) vs) \<le> m"
    by (cases n) auto
  show ?case
  proof (cases vs)
    case Nil
    with Cons.prems(1) m(1) show ?thesis
      by (simp add: n readsD)
  next
    case (Cons w ws)
    with Cons.IH [OF _ _ m(2)] Cons.prems(1) m(1) show ?thesis
      by (simp add: n readsD)
  qed
qed simp

lemma json_members_read:
  assumes "\<forall>e \<in> set d. reads (snd e)" and "d \<noteq> []" and "sum_list (map (\<lambda>(k, v). Suc (need v)) d) \<le> n"
  shows "json_members n (json_join (map (\<lambda>(k, v). json_quote k @ CHR '':'' # CHR '' '' # json_dumps v) d) @ CHR ''}'' # r)
     = Some (map (\<lambda>(k, v). (k, json_norm v)) d, r)"
  using assms
proof (induction d arbitrary: n)
  case (Cons e d)
  obtain k v where e: "e = (k, v)"
    by (cases e)
  from Cons.prems obtain m where n: "n = Suc m" and m: "need v \<le> m"
    "d \<noteq> [] \<Longrightarrow> sum_list (map (\<lambda>(k, v). Suc (need v)) d) \<le> m"
    by (cases n) (auto simp: e)
  show ?case
  proof (cases d)
    case Nil
    with Cons.prems(1) m(1) show ?thesis
      by (simp add: n e readsD json_quote_def json_chars_quote)
  next
    case (Cons w ws)
    with Cons.IH [OF _ _ m(2)] Cons.prems(1) m(1) show ?thesis
      by (simp add: n e readsD json_quote_def json_chars_quote)
  qed
qed simp

lemma dict_update_new: "distinct (map fst (a @ d)) \<Longrightarrow> py_dict_update a d = a @ d"
proof (induction d arbitrary: a)
  case (Cons e d)
  obtain k v where e: "e = (k, v)"
    by (cases e)
  have "AList.update k v a = a @ [(k, v)]"
    using Cons.prems by (induction a) (auto simp: e)
  with Cons show ?case
    by (simp add: e py_dict_update_def)
qed (simp add: py_dict_update_def)

lemma join_first:
  "vs \<noteq> [] \<Longrightarrow> \<exists>c t. json_join (map json_dumps vs) @ r = c # t \<and> \<not> json_space c \<and> c \<notin> set '']},:''"
  using dumps_first [of "hd vs"] by (cases vs; cases "tl vs") auto

lemma reads_list:
  assumes "\<forall>v \<in> set vs. reads v" and "Suc (sum_list (map (\<lambda>v. Suc (need v)) vs)) \<le> n"
  shows "json_value n (CHR ''['' # json_join (map json_dumps vs) @ CHR '']'' # r) = Some (PyList (map json_norm vs), r)"
proof -
  obtain m where n: "n = Suc m" and m: "sum_list (map (\<lambda>v. Suc (need v)) vs) \<le> m"
    using assms(2) by (cases n) auto
  have open_list: "skip (CHR ''['' # s) = CHR ''['' # s" for s
    by (simp add: skip_def json_space_def)
  show ?thesis
  proof (cases "vs = []")
    case True
    then show ?thesis
      by (simp add: n open_list)
  next
    case False
    from join_first [OF this, of "CHR '']'' # r"] json_items_read [OF assms(1) False m, of r]
    show ?thesis
      by (elim exE conjE) (simp add: n open_list skip_first)
  qed
qed

lemma reads_dict:
  assumes "\<forall>e \<in> set d. reads (snd e)" and "Suc (sum_list (map (\<lambda>(k, v). Suc (need v)) d)) \<le> n" and "distinct (map fst d)"
  shows "json_value n (CHR ''{'' # json_join (map (\<lambda>(k, v). json_quote k @ CHR '':'' # CHR '' '' # json_dumps v) d) @ CHR ''}'' # r)
     = Some (PyDict (map (\<lambda>(k, v). (k, json_norm v)) d), r)"
proof -
  obtain m where n: "n = Suc m" and m: "sum_list (map (\<lambda>(k, v). Suc (need v)) d) \<le> m"
    using assms(2) by (cases n) auto
  have open_dict: "skip (CHR ''{'' # s) = CHR ''{'' # s" for s
    by (simp add: skip_def json_space_def)
  have "map fst (map (\<lambda>(k, v). (k, json_norm v)) d) = map fst d"
    by auto
  then have dict: "py_dict_update [] (map (\<lambda>(k, v). (k, json_norm v)) d) = map (\<lambda>(k, v). (k, json_norm v)) d"
    using assms(3) by (simp add: dict_update_new del: map_map)
  show ?thesis
  proof (cases d)
    case Nil
    then show ?thesis
      by (simp add: n open_dict)
  next
    case (Cons e es)
    obtain t where "json_join (map (\<lambda>(k, v). json_quote k @ CHR '':'' # CHR '' '' # json_dumps v) d) @ CHR ''}'' # r = CHR 0x22 # t"
      by (cases es; cases e) (auto simp: Cons json_quote_def)
    with json_members_read [OF assms(1) _ m, of r] Cons dict show ?thesis
      by (simp add: n open_dict)
  qed
qed

lemma reads_atom: "reads PyNone" "reads (PyBool b)" "reads (PyInt i)" "reads (PyStr s)"
proof -
  show "reads PyNone" "reads (PyBool b)"
    by (auto simp: reads_def json_literal_def skip_def json_space_def dest: Suc_le_D)
  obtain c t where "py_str_int i = c # t" and "numeral_char c"
    by (rule int_first [of i])
  with numeral_first [of c] json_number_int [of _ i] show "reads (PyInt i)"
    by (auto simp: reads_def skip_def dest!: Suc_le_D)
  show "reads (PyStr s)"
    by (auto simp: reads_def json_quote_def json_chars_quote dest!: Suc_le_D)
qed

lemma dumps_reads: "json_ok v \<Longrightarrow> reads v"
proof (induction v rule: json_ok.induct)
  case (1 vs)
  then show ?case
    by (auto simp: reads_def list_all_iff intro: reads_list)
next
  case (2 vs)
  then show ?case
    by (auto simp: reads_def list_all_iff intro: reads_list)
next
  case (3 d)
  then have "\<forall>e \<in> set d. reads (snd e)"
    by (auto simp: list_all_iff)
  moreover have "distinct (map fst d)"
    using 3 by simp
  ultimately show ?case
    unfolding reads_def [of "PyDict d"] by (auto intro!: reads_dict)
qed (auto intro: reads_atom)

lemma need_length: "need v \<le> length (json_dumps v)"
proof -
  have join: "sum_list (map (\<lambda>s. Suc (length s)) ss) \<le> Suc (length (json_join ss))" for ss
    by (induction ss rule: json_join.induct) auto
  have items: "sum_list (map (\<lambda>v. Suc (need v)) vs) \<le> Suc (length (json_join (map json_dumps vs)))"
    if "\<And>v. v \<in> set vs \<Longrightarrow> need v \<le> length (json_dumps v)" for vs
    using join [of "map json_dumps vs"] sum_list_mono [of vs "\<lambda>v. Suc (need v)" "\<lambda>v. Suc (length (json_dumps v))"] that
    by (simp add: comp_def)
  show ?thesis
  proof (induction v rule: json_dumps.induct)
    case (5 vs)
    with items [of vs] show ?case
      by simp
  next
    case (6 vs)
    with items [of vs] show ?case
      by simp
  next
    case (7 d)
    let ?f = "\<lambda>(k, v). json_quote k @ CHR '':'' # CHR '' '' # json_dumps v"
    have "sum_list (map (\<lambda>(k, v). Suc (need v)) d) \<le> sum_list (map (\<lambda>e. Suc (length (?f e))) d)"
      using 7 by (intro sum_list_mono) (fastforce simp: le_SucI trans_le_add2)
    also have "\<dots> \<le> Suc (length (json_join (map ?f d)))"
      using join [of "map ?f d"] by (simp add: comp_def)
    finally show ?case
      by simp
  qed (use py_str_int_nonempty in \<open>auto simp: json_quote_def Suc_le_eq\<close>)
qed

text \<open>Reading back: the value itself, up to tuples.\<close>

lemma loads_dumps: "json_ok v \<Longrightarrow> json_loads (json_dumps v) = Some (json_norm v)"
  using readsD [OF dumps_reads, of v "Suc (length (json_dumps v))" "[]"] need_length [of v]
  by (simp add: json_loads_def)

lemma dumps_ascii: "py_ascii (json_dumps v)"
proof -
  have hex: "(of_char (hex_digit n) :: nat) < 128" if "n < 16" for n
    using that by (auto simp: hex_digit_def)
  have "py_ascii (json_escape c)" for c
    using of_char_below [of c] by (auto simp: json_escape_def Let_def intro!: hex less_mult_imp_div_less)
  then have quote: "py_ascii (json_quote s)" for s
    by (induction s) (auto simp: json_quote_def)
  have join: "py_ascii (json_join ss)" if "\<forall>s \<in> set ss. py_ascii s" for ss
    using that by (induction ss rule: json_join.induct) auto
  show ?thesis
    by (induction v rule: json_dumps.induct) (auto simp: quote intro!: join)
qed

end
