(* ===== verification/Berkeley_Interface.thy ===== *)
theory Berkeley_Interface
  imports Py_Json Raft_Transport Utility_Functions
begin

text \<open>
  \<^verbatim>\<open>src/raft/berkeley_socket_interface.py\<close>: the talker and the listener once more, over
  stream sockets. There is one connection per peer, and since a stream has no messages the
  talker sends each JSON text after its length in two bytes and the listener's handlers
  take the stream apart again. A stream is the list of its bytes; how many of the bytes
  asked for a \<open>recv\<close> returns is the system's choice.
\<close>

section \<open>Frames\<close>

definition to_bytes_2 :: "nat \<Rightarrow> py_error + byte list" where
  "to_bytes_2 n =
     (if n < 65536 then Inr [word_of_nat (n div 256), word_of_nat (n mod 256)] else Inl OverflowError)"

definition from_bytes :: "byte list \<Rightarrow> nat" where
  "from_bytes bs = foldl (\<lambda>acc b. 256 * acc + unat b) 0 bs"

text \<open>\<open>messagelen.to_bytes(2, "big") + message.encode()\<close>.\<close>

definition frame_message :: "pyval \<Rightarrow> py_error + byte list" where
  "frame_message msg =
     (let message = json_dumps msg; messagelen = length (py_encode message) in
      rbind (to_bytes_2 messagelen) (\<lambda>header. Inr (header @ py_encode message)))"

section \<open>Sockets\<close>

definition INTERFACE_TX_PORT :: int where "INTERFACE_TX_PORT = 60021"
definition INTERFACE_RX_PORT :: int where "INTERFACE_RX_PORT = 60031"

text \<open>The module has its own copy of \<open>bind_socket\<close>.\<close>

definition interface_bind_socket :: "(nat \<Rightarrow> int option) \<Rightarrow> (py_error + nat) option" where
  "interface_bind_socket attempt = bind_from attempt 0"

section \<open>Talker\<close>

text \<open>
  The connections are kept as what has been sent on each. The process waits until it has
  accepted one for every address of its list, before it signals that it is ready.
\<close>

datatype btalker_pc = B_Binding | B_Accepting | B_Backoff | B_Running | B_Closed | B_Crashed py_error

record btalker =
  b_address_list :: "string list"
  b_address :: string
  b_port :: string
  b_messages :: "pyval list"
  b_ready :: bool
  b_stop :: bool
  b_connections :: "byte list list"
  b_pc :: btalker_pc

definition split_address :: "string \<Rightarrow> py_error + string \<times> string" where
  "split_address a = (case py_split CHR '':'' a of [ad, p] \<Rightarrow> Inr (ad, p) | _ \<Rightarrow> Inl ValueError)"

definition BTalker_init :: "string list \<Rightarrow> string \<Rightarrow> py_error + btalker" where
  "BTalker_init port_list my_id =
     rbind (split_address my_id) (\<lambda>(ad, p).
     Inr \<lparr>b_address_list = port_list, b_address = ad, b_port = p, b_messages = [], b_ready = False,
          b_stop = False, b_connections = [], b_pc = B_Binding\<rparr>)"

definition BTalker_stop :: "btalker \<Rightarrow> btalker" where
  "BTalker_stop t = t\<lparr>b_stop := True\<rparr>"

definition BTalker_send_message :: "pyval \<Rightarrow> btalker \<Rightarrow> btalker" where
  "BTalker_send_message msg t = t\<lparr>b_messages := queue_put msg (b_messages t)\<rparr>"

definition BTalker_wait_until_ready :: "btalker \<Rightarrow> bool option" where
  "BTalker_wait_until_ready t = (if b_ready t then Some True else None)"

text \<open>
  One step of \<open>run\<close>; \<open>bound\<close> is what the system makes of an attempt to bind the socket, and
  \<open>accepted\<close> says whether \<open>accept\<close> has a new connection. The number of bytes \<open>to_bytes\<close>
  has room for is the one bound on a message; beyond it the exception ends the process,
  before anything of the message is sent.
\<close>

definition BTalker_run_step :: "int option \<Rightarrow> bool \<Rightarrow> btalker \<Rightarrow> btalker" where
  "BTalker_run_step bound accepted t =
     (case b_pc t of
        B_Binding \<Rightarrow>
          (case bound of
             None \<Rightarrow> t\<lparr>b_pc := B_Accepting\<rparr>
           | Some e \<Rightarrow> if e = EADDRINUSE then t else t\<lparr>b_pc := B_Crashed (OSError e)\<rparr>)
      | B_Accepting \<Rightarrow>
          (if length (b_connections t) < length (b_address_list t)
           then (if accepted then t\<lparr>b_connections := b_connections t @ [[]]\<rparr> else t)
           else t\<lparr>b_pc := B_Backoff\<rparr>)
      | B_Backoff \<Rightarrow> t\<lparr>b_pc := B_Running, b_ready := True\<rparr>
      | B_Running \<Rightarrow>
          (if b_stop t then t\<lparr>b_pc := B_Closed\<rparr>
           else case queue_get_nowait (b_messages t) of
                  None \<Rightarrow> t
                | Some (msg, q) \<Rightarrow>
                    (if b_connections t = [] then t\<lparr>b_messages := q\<rparr>
                     else case frame_message msg of
                            Inl e \<Rightarrow> t\<lparr>b_messages := q, b_pc := B_Crashed e\<rparr>
                          | Inr f \<Rightarrow> t\<lparr>b_messages := q, b_connections := map (\<lambda>c. c @ f) (b_connections t)\<rparr>))
      | _ \<Rightarrow> t)"

section \<open>Listener\<close>

text \<open>
  The listener tries each address ten times, a second apart, and leaves out a peer that
  refuses every time; another error ends the process.
\<close>

fun connect_attempts :: "nat \<Rightarrow> nat \<Rightarrow> (nat \<Rightarrow> int option) \<Rightarrow> py_error + bool" where
  "connect_attempts 0 k connect = Inr False"
| "connect_attempts (Suc n) k connect =
     (case connect k of
        None \<Rightarrow> Inr True
      | Some errno \<Rightarrow> if errno = 111 then connect_attempts n (Suc k) connect else Inl (OSError errno))"

fun connect_all ::
  "nat \<Rightarrow> string list \<Rightarrow> (int \<Rightarrow> nat \<Rightarrow> int option) \<Rightarrow> (string \<times> int \<Rightarrow> nat \<Rightarrow> int option) \<Rightarrow> (py_error + string list) option" where
  "connect_all i [] bind connect = Some (Inr [])"
| "connect_all i (a # address_list) bind connect =
     (case interface_bind_socket (bind (INTERFACE_RX_PORT + int i)) of
        None \<Rightarrow> None
      | Some (Inl e) \<Rightarrow> Some (Inl e)
      | Some (Inr _) \<Rightarrow>
          (case rbind (split_address a) (\<lambda>(address, p). connect_attempts 10 0 (connect (address, INTERFACE_TX_PORT))) of
             Inl e \<Rightarrow> Some (Inl e)
           | Inr joined \<Rightarrow>
               map_option (\<lambda>r. rbind r (\<lambda>rest. Inr (if joined then a # rest else rest)))
                 (connect_all (Suc i) address_list bind connect)))"

text \<open>
  One handler: its socket's unread bytes and the queue it shares with the other handlers.
  \<open>recv(n)\<close> returns at most \<open>n\<close> of the bytes there are, \<open>chosen\<close> by the system; at the end of the stream
  it returns nothing, which is a frame of length zero. A text that is not JSON is
  reported and dropped; bytes that do not decode end the handler.
\<close>

definition sock_recv :: "nat \<Rightarrow> nat \<Rightarrow> byte list \<Rightarrow> byte list \<times> byte list" where
  "sock_recv n chosen stream = (take (min n chosen) stream, drop (min n chosen) stream)"

definition handle_socket :: "nat \<Rightarrow> nat \<Rightarrow> byte list \<times> pyval list \<Rightarrow> py_error + byte list \<times> pyval list" where
  "handle_socket chosen1 chosen2 sq =
     (let (header, rest) = sock_recv 2 chosen1 (fst sq);
          (body, rest') = sock_recv (from_bytes header) chosen2 rest in
      rbind (py_decode body) (\<lambda>msg.
      Inr (rest', case json_loads msg of None \<Rightarrow> snd sq | Some v \<Rightarrow> queue_put v (snd sq))))"

fun handle_rounds :: "(nat \<times> nat) list \<Rightarrow> byte list \<times> pyval list \<Rightarrow> py_error + byte list \<times> pyval list" where
  "handle_rounds [] sq = Inr sq"
| "handle_rounds ((c1, c2) # cs) sq = rbind (handle_socket c1 c2 sq) (handle_rounds cs)"

definition BListener_get_message :: "pyval list \<Rightarrow> pyval \<times> pyval list" where
  "BListener_get_message q =
     (case queue_get_nowait q of None \<Rightarrow> (PyNone, q) | Some (msg, q') \<Rightarrow> (msg, q'))"

section \<open>What a connection carries\<close>

lemma from_to_bytes: "to_bytes_2 n = Inr bs \<Longrightarrow> length bs = 2 \<and> from_bytes bs = n"
proof -
  assume bs: "to_bytes_2 n = Inr bs"
  then have "n < 65536"
    by (simp add: to_bytes_2_def split: if_splits)
  then have "n div 256 < 256"
    by simp
  then have "unat (word_of_nat (n div 256) :: byte) = n div 256"
    by (simp add: unat_of_nat)
  moreover have "unat (word_of_nat (n mod 256) :: byte) = n mod 256"
    by (simp add: unat_of_nat)
  ultimately show ?thesis
    using bs by (auto simp: to_bytes_2_def from_bytes_def split: if_splits)
qed

lemma frame_cases:
  "frame_message msg =
     (if length (json_dumps msg) < 65536
      then Inr ([word_of_nat (length (json_dumps msg) div 256), word_of_nat (length (json_dumps msg) mod 256)]
             @ py_encode (json_dumps msg))
      else Inl OverflowError)"
  by (simp add: frame_message_def to_bytes_2_def Let_def)

text \<open>The bytes of a sequence of messages, frame after frame.\<close>

definition framed :: "pyval list \<Rightarrow> byte list" where
  "framed ms = concat (map (\<lambda>m. projr (frame_message m)) ms)"

lemma framed_simps [simp]: "framed [] = []" "framed (m # ms) = projr (frame_message m) @ framed ms"
  by (simp_all add: framed_def)

definition fits :: "pyval \<Rightarrow> bool" where
  "fits m \<longleftrightarrow> json_ok m \<and> length (json_dumps m) < 65536"

lemma fits_frame: "fits m \<Longrightarrow> frame_message m = Inr (projr (frame_message m))"
  by (simp add: frame_cases fits_def)

lemma handle_frame:
  assumes "frame_message msg = Inr f" and "json_ok msg" and "2 \<le> c1" and "length (json_dumps msg) \<le> c2"
  shows "handle_socket c1 c2 (f @ stream, q) = Inr (stream, q @ [json_norm msg])"
proof -
  let ?m = "py_encode (json_dumps msg)"
  obtain header where f: "f = header @ ?m" and header: "to_bytes_2 (length ?m) = Inr header"
    using assms(1) by (auto simp: frame_message_def Let_def rbind_Inr_iff)
  from from_to_bytes [OF header] have len: "length header = 2" "from_bytes header = length ?m"
    by simp_all
  then show ?thesis
    using assms(2-4) by (simp add: f handle_socket_def sock_recv_def min_def dumps_ascii loads_dumps queue_put_def)
qed

text \<open>Whether the two reads of a round return all the bytes of the frame of a message.\<close>

definition whole_frame :: "(nat \<times> nat) \<times> pyval \<Rightarrow> bool" where
  "whole_frame = (\<lambda>((c1, c2), m). 2 \<le> c1 \<and> length (json_dumps m) \<le> c2)"

lemma handle_frames:
  assumes "\<forall>m \<in> set ms. fits m" and "j = length (takeWhile whole_frame (zip cs ms))"
  shows "handle_rounds (take j cs) (framed ms, q) = Inr (framed (drop j ms), q @ map json_norm (take j ms))"
  using assms
proof (induction ms arbitrary: cs q j)
  case (Cons m ms)
  show ?case
  proof (cases cs)
    case Nil
    with Cons.prems show ?thesis
      by simp
  next
    case (Cons c cs')
    show ?thesis
    proof (cases "whole_frame (c, m)")
      case True
      let ?j = "length (takeWhile whole_frame (zip cs' ms))"
      have j: "j = Suc ?j"
        using True Cons Cons.prems(2) by simp
      have "handle_socket (fst c) (snd c) (framed (m # ms), q) = Inr (framed ms, q @ [json_norm m])"
        using True Cons.prems(1) fits_frame [of m]
        by (simp add: handle_frame whole_frame_def fits_def split: prod.splits)
      moreover have "handle_rounds (take ?j cs') (framed ms, q @ [json_norm m])
          = Inr (framed (drop ?j ms), (q @ [json_norm m]) @ map json_norm (take ?j ms))"
        using Cons.prems(1) by (intro Cons.IH) simp_all
      ultimately show ?thesis
        by (cases c) (simp add: j Cons del: framed_simps(2))
    next
      case False
      with Cons Cons.prems show ?thesis
        by simp
    qed
  qed
qed simp

lemma talker_sends:
  assumes "b_pc t = B_Running" and "\<not> b_stop t" and "b_connections t \<noteq> []"
    and "map frame_message ms = map Inr fs" and "b_messages t = ms"
  shows "(BTalker_run_step None True ^^ length ms) t
    = t\<lparr>b_messages := [], b_connections := map (\<lambda>c. c @ concat fs) (b_connections t)\<rparr>"
  using assms
proof (induction ms arbitrary: t fs)
  case (Cons m ms)
  then obtain f fs' where fs: "fs = f # fs'" "frame_message m = Inr f" "map frame_message ms = map Inr fs'"
    by (cases fs) auto
  let ?t = "t\<lparr>b_messages := ms, b_connections := map (\<lambda>c. c @ f) (b_connections t)\<rparr>"
  have one: "BTalker_run_step None True t = ?t"
    using Cons.prems fs(2) by (simp add: BTalker_run_step_def queue_get_nowait_def)
  have "(BTalker_run_step None True ^^ length ms) ?t =
      ?t\<lparr>b_messages := [], b_connections := map (\<lambda>c. c @ concat fs') (b_connections ?t)\<rparr>"
    using Cons.prems fs(3) by (intro Cons.IH) simp_all
  then show ?case
    by (simp add: funpow_Suc_right one fs(1) comp_def del: funpow.simps)
qed simp

section \<open>Properties\<close>

text \<open>
  C36. Messages cross the streams up to the first short read: what a running talker has
  queued, as long as every text fits the two bytes of its length, arrives on each of its
  connections if every \<open>send\<close> takes the whole frame; and however many bytes the system lets
  each \<open>recv\<close> of a handler return there, the handler has queued, before the first round in
  which a \<open>recv\<close> returns less than it asks for, one message for each round, in the order
  sent and as JSON carries it, and left the frames of the others: nothing, if no read is
  short and it makes enough rounds.
\<close>

theorem messages_cross_the_streams:
  assumes "b_pc t = B_Running" and "\<not> b_stop t" and "b_connections t = replicate (Suc n) []" and "b_messages t = ms"
    and "\<forall>msg \<in> set ms. json_ok msg \<and> length (json_dumps msg) < 65536"
    and "j = length (takeWhile (\<lambda>((c1, c2), msg). 2 \<le> c1 \<and> length (json_dumps msg) \<le> c2) (zip cs ms))"
  shows "(BTalker_run_step None True ^^ length ms) t = t\<lparr>b_messages := [], b_connections := replicate (Suc n) (framed ms)\<rparr>
     \<and> handle_rounds (take j cs) (framed ms, []) = Inr (framed (drop j ms), map json_norm (take j ms))"
proof -
  have fits: "\<forall>m \<in> set ms. fits m"
    using assms(5) by (simp add: fits_def)
  then have "map frame_message ms = map Inr (map (\<lambda>m. projr (frame_message m)) ms)"
    using fits_frame by simp
  from talker_sends [OF assms(1,2) _ this assms(4)] assms(3)
  have "(BTalker_run_step None True ^^ length ms) t = t\<lparr>b_messages := [], b_connections := replicate (Suc n) (framed ms)\<rparr>"
    by (simp add: map_replicate_const framed_def)
  with handle_frames [OF fits, of j cs "[]"] assms(6) show ?thesis
    by (simp add: whole_frame_def)
qed

definition sample_btalker :: btalker where
  "sample_btalker = \<lparr>b_address_list = [''h:1'', ''h:2''], b_address = ''h'', b_port = ''1'',
     b_messages = [PyTuple [PyNone], PyNone, PyBool True], b_ready = True, b_stop = False,
     b_connections = [[], []], b_pc = B_Running\<rparr>"

text \<open>The third read is cut short: two messages are queued, and the frame of the third is left.\<close>

theorem messages_cross_the_streams_witness:
  "(BTalker_run_step None True ^^ 3) sample_btalker = sample_btalker\<lparr>b_messages := [],
       b_connections := replicate (Suc 1) (framed [PyTuple [PyNone], PyNone, PyBool True])\<rparr>
     \<and> handle_rounds [(2, 65536), (2, 4)] (framed [PyTuple [PyNone], PyNone, PyBool True], [])
       = Inr (framed [PyBool True], map json_norm [PyTuple [PyNone], PyNone])"
  using messages_cross_the_streams [of sample_btalker 1 "[PyTuple [PyNone], PyNone, PyBool True]" 2 "[(2, 65536), (2, 4), (1, 0)]"]
  by (simp add: sample_btalker_def numeral_2_eq_2 numeral_3_eq_3 del: framed_simps)

text \<open>
  The one bound on a message: a text of less than 65536 bytes is framed by its exact
  length; a longer one raises an \<open>OverflowError\<close> that ends a talker with connections, with
  nothing of the message sent and the messages behind it never sent.
\<close>

theorem frame_bound:
  assumes "b_pc t = B_Running" and "\<not> b_stop t" and "b_connections t \<noteq> []" and "b_messages t = msg # q"
  shows "if length (json_dumps msg) < 65536
     then \<exists>header. length header = 2 \<and> from_bytes header = length (json_dumps msg)
       \<and> BTalker_run_step bound accepted t =
           t\<lparr>b_messages := q, b_connections := map (\<lambda>c. c @ header @ py_encode (json_dumps msg)) (b_connections t)\<rparr>
     else (BTalker_run_step bound accepted ^^ Suc n) t = t\<lparr>b_messages := q, b_pc := B_Crashed OverflowError\<rparr>"
proof (cases "length (json_dumps msg) < 65536")
  case True
  then obtain header where header: "to_bytes_2 (length (json_dumps msg)) = Inr header"
    by (simp add: to_bytes_2_def)
  with from_to_bytes [OF header] True assms show ?thesis
    by (auto simp: BTalker_run_step_def queue_get_nowait_def frame_message_def Let_def intro!: exI [of _ header])
next
  case False
  let ?t = "t\<lparr>b_messages := q, b_pc := B_Crashed OverflowError\<rparr>"
  have "BTalker_run_step bound accepted t = ?t"
    using assms False by (simp add: BTalker_run_step_def queue_get_nowait_def frame_cases)
  moreover have "(BTalker_run_step bound accepted ^^ n) ?t = ?t"
    by (induction n) (simp_all add: BTalker_run_step_def)
  ultimately show ?thesis
    using False by (simp add: funpow_Suc_right del: funpow.simps)
qed

theorem frame_bound_witness:
  "if length (json_dumps (PyTuple [PyNone])) < 65536
     then \<exists>header. length header = 2 \<and> from_bytes header = length (json_dumps (PyTuple [PyNone]))
       \<and> BTalker_run_step None True sample_btalker =
           sample_btalker\<lparr>b_messages := [PyNone, PyBool True],
             b_connections := map (\<lambda>c. c @ header @ py_encode (json_dumps (PyTuple [PyNone]))) (b_connections sample_btalker)\<rparr>
     else (BTalker_run_step None True ^^ Suc 4) sample_btalker = sample_btalker\<lparr>b_messages := [PyNone, PyBool True], b_pc := B_Crashed OverflowError\<rparr>"
  by (rule frame_bound) (simp_all add: sample_btalker_def)

text \<open>A read cut short by the system loses the message: here the length is read as one byte.\<close>

lemma short_read_loses_a_message:
  "\<exists>f. frame_message PyNone = Inr f \<and> handle_rounds [(1, 0), (2, 65536)] (f, []) = Inr ([], [])"
proof -
  let ?rest = "py_encode ''ull''"
  have null: "py_encode ''null'' = 110 # ?rest"
    by (simp add: py_encode_def)
  have no_text: "json_loads [] = None" and no_value: "json_loads ''ull'' = None"
    by (simp_all add: json_loads_def skip_first json_space_def json_number_def json_nat_def is_digit_def)
  have "handle_socket 1 0 (0 # 4 # 110 # ?rest, []) = Inr (4 # 110 # ?rest, [])"
    using decode_encode [of "[]"] by (simp add: handle_socket_def sock_recv_def from_bytes_def no_text py_encode_def)
  moreover have "handle_socket 2 65536 (4 # 110 # ?rest, []) = Inr ([], [])"
    by (simp add: handle_socket_def sock_recv_def from_bytes_def no_value min_def)
  ultimately show ?thesis
    by (intro exI [of _ "0 # 4 # 110 # ?rest"]) (simp add: frame_cases null)
qed

text \<open>
  The two interfaces are not equivalent: a message for another node, which the
  listener of \<open>interface.py\<close> drops, is queued for the node by a handler of this module.
\<close>

theorem other_peoples_messages_are_queued:
  assumes "json_ok m" and "json_plain m" and "length (json_dumps m) < 65536" and "addressed_to (l_my_id l) m = Inr False"
  shows "\<exists>f. frame_message m = Inr f
     \<and> handle_socket 2 65536 (f, l_messages l) = Inr ([], l_messages l @ [m])
     \<and> l_messages (Listener_run_step (Some m) l) = l_messages l"
proof -
  obtain f where f: "frame_message m = Inr f"
    using assms(3) by (simp add: frame_cases)
  with handle_frame [OF f assms(1), of 2 65536 "[]"] assms(2,3,4) show ?thesis
    by (simp add: Listener_run_step_def split: listener_pc.split)
qed

theorem other_peoples_messages_are_queued_witness:
  "\<exists>f. frame_message (PyDict [(''receiver'', PyStr ''h:2'')]) = Inr f
     \<and> handle_socket 2 65536 (f, l_messages (Listener_init [''h:1'', ''h:2''] ''h:1''))
         = Inr ([], l_messages (Listener_init [''h:1'', ''h:2''] ''h:1'') @ [PyDict [(''receiver'', PyStr ''h:2'')]])
     \<and> l_messages (Listener_run_step (Some (PyDict [(''receiver'', PyStr ''h:2'')])) (Listener_init [''h:1'', ''h:2''] ''h:1''))
         = l_messages (Listener_init [''h:1'', ''h:2''] ''h:1'')"
  by (rule other_peoples_messages_are_queued)
     (simp_all add: json_quote_def json_escape_def Let_def addressed_to_def py_subscript_def Listener_init_def)

end
