(* ===== verification/Berkeley_Listener.thy ===== *)
theory Berkeley_Listener
  imports Berkeley_Interface "HOL-Library.Sublist"
begin

text \<open>
  The listener process of \<^verbatim>\<open>src/raft/berkeley_socket_interface.py\<close>: it connects to its
  peers, hands each connection to a thread of a pool, and when it is stopped waits for
  those threads. The handlers run at the same time and put what they read into one queue;
  each of their calls of \<open>recv\<close> is a step of its own, since it waits for its peer.
\<close>

section \<open>A handler\<close>

text \<open>
  Where a handler stands: not yet submitted to the pool, before the test of the stop event,
  in the \<open>recv\<close> of a length, in the \<open>recv\<close> of that many bytes, or ended, possibly by an
  exception, which stays in the future.
\<close>

datatype handler_pc = H_New | H_Test | H_Length | H_Text nat | H_Ended "py_error option"

record handler =
  h_stream :: "byte list"
  h_closed :: bool
  h_pc :: handler_pc

text \<open>
  A \<open>recv\<close> of no bytes returns at once; another one waits while its stream is empty and the
  peer has not closed it, and returns at least one byte if there are any.
\<close>

definition blocked :: "handler \<Rightarrow> bool" where
  "blocked h \<longleftrightarrow> h_stream h = [] \<and> \<not> h_closed h \<and>
     (case h_pc h of H_Length \<Rightarrow> True | H_Text n \<Rightarrow> 0 < n | _ \<Rightarrow> False)"

definition handler_step :: "bool \<Rightarrow> nat \<Rightarrow> handler \<times> pyval list \<Rightarrow> handler \<times> pyval list" where
  "handler_step stop chosen = (\<lambda>(h, messages).
     if blocked h then (h, messages)
     else case h_pc h of
       H_Test \<Rightarrow> (h\<lparr>h_pc := if stop then H_Ended None else H_Length\<rparr>, messages)
     | H_Length \<Rightarrow>
         (let (header, rest) = sock_recv 2 (max 1 chosen) (h_stream h) in
          (h\<lparr>h_stream := rest, h_pc := H_Text (from_bytes header)\<rparr>, messages))
     | H_Text msglen \<Rightarrow>
         (let (body, rest) = sock_recv msglen (max 1 chosen) (h_stream h) in
          case py_decode body of
            Inl e \<Rightarrow> (h\<lparr>h_stream := rest, h_pc := H_Ended (Some e)\<rparr>, messages)
          | Inr msg \<Rightarrow>
              (h\<lparr>h_stream := rest, h_pc := H_Test\<rparr>,
               case json_loads msg of None \<Rightarrow> messages | Some v \<Rightarrow> queue_put v messages))
     | _ \<Rightarrow> (h, messages))"

section \<open>The process\<close>

datatype blistener_pc = BL_Connecting | BL_Backoff | BL_Running | BL_Waiting | BL_Closed | BL_Crashed py_error

record blistener =
  bl_address_list :: "string list"
  bl_my_id :: string
  bl_messages :: "pyval list"
  bl_stop :: bool
  bl_handlers :: "handler list"
  bl_pc :: blistener_pc

definition BListener_init :: "string list \<Rightarrow> string \<Rightarrow> blistener" where
  "BListener_init port_list my_id =
     \<lparr>bl_address_list = port_list, bl_my_id = my_id, bl_messages = [], bl_stop = False, bl_handlers = [],
      bl_pc = BL_Connecting\<rparr>"

definition BListener_stop :: "blistener \<Rightarrow> blistener" where
  "BListener_stop l = l\<lparr>bl_stop := True\<rparr>"

text \<open>
  One step of \<open>run\<close>. The pool has a worker for every connection, so all handlers run once
  they are submitted. The socket closed at the end is the last one of the loop that
  connects, a name that is not bound if there was no address.
\<close>

definition ended :: "handler \<Rightarrow> bool" where
  "ended h \<longleftrightarrow> (case h_pc h of H_Ended _ \<Rightarrow> True | _ \<Rightarrow> False)"

definition BListener_run_step ::
  "(int \<Rightarrow> nat \<Rightarrow> int option) \<Rightarrow> (string \<times> int \<Rightarrow> nat \<Rightarrow> int option) \<Rightarrow> blistener \<Rightarrow> blistener" where
  "BListener_run_step bind connect l =
     (case bl_pc l of
        BL_Connecting \<Rightarrow>
          (case connect_all 0 (bl_address_list l) bind connect of
             None \<Rightarrow> l
           | Some (Inl e) \<Rightarrow> l\<lparr>bl_pc := BL_Crashed e\<rparr>
           | Some (Inr sub_sockets) \<Rightarrow>
               l\<lparr>bl_handlers := map (\<lambda>_. \<lparr>h_stream = [], h_closed = False, h_pc = H_New\<rparr>) sub_sockets,
                 bl_pc := BL_Backoff\<rparr>)
      | BL_Backoff \<Rightarrow> l\<lparr>bl_handlers := map (\<lambda>h. h\<lparr>h_pc := H_Test\<rparr>) (bl_handlers l), bl_pc := BL_Running\<rparr>
      | BL_Running \<Rightarrow> if bl_stop l then l\<lparr>bl_pc := BL_Waiting\<rparr> else l
      | BL_Waiting \<Rightarrow>
          (if list_all ended (bl_handlers l)
           then l\<lparr>bl_pc := if bl_address_list l = [] then BL_Crashed (NameError ''sub_sock'') else BL_Closed\<rparr>
           else l)
      | _ \<Rightarrow> l)"

text \<open>
  What can happen next: a step of the process, one of a handler, a chunk of bytes that a
  peer has sent, the end of a connection, and the call of \<open>stop\<close>.
\<close>

datatype blistener_move = Run | Handle nat nat | Arrive nat "byte list" | Hang_up nat | Stop_called

definition handle_at :: "nat \<Rightarrow> nat \<Rightarrow> blistener \<Rightarrow> blistener" where
  "handle_at i chosen l =
     (if i < length (bl_handlers l)
      then (case handler_step (bl_stop l) chosen (bl_handlers l ! i, bl_messages l) of
              (h, messages) \<Rightarrow> l\<lparr>bl_handlers := (bl_handlers l)[i := h], bl_messages := messages\<rparr>)
      else l)"

definition at_handler :: "nat \<Rightarrow> (handler \<Rightarrow> handler) \<Rightarrow> blistener \<Rightarrow> blistener" where
  "at_handler i f l =
     (if i < length (bl_handlers l) then l\<lparr>bl_handlers := (bl_handlers l)[i := f (bl_handlers l ! i)]\<rparr> else l)"

fun blistener_step ::
  "(int \<Rightarrow> nat \<Rightarrow> int option) \<Rightarrow> (string \<times> int \<Rightarrow> nat \<Rightarrow> int option) \<Rightarrow> blistener_move \<Rightarrow> blistener \<Rightarrow> blistener" where
  "blistener_step bind connect Run l = BListener_run_step bind connect l"
| "blistener_step bind connect (Handle i chosen) l = handle_at i chosen l"
| "blistener_step bind connect (Arrive i bs) l =
     at_handler i (\<lambda>h. if h_closed h then h else h\<lparr>h_stream := h_stream h @ bs\<rparr>) l"
| "blistener_step bind connect (Hang_up i) l = at_handler i (\<lambda>h. h\<lparr>h_closed := True\<rparr>) l"
| "blistener_step bind connect Stop_called l = BListener_stop l"

abbreviation blistener_run where
  "blistener_run bind connect ms l \<equiv> fold (blistener_step bind connect) ms l"

section \<open>One pass of a handler\<close>

text \<open>Three steps that do not wait are one pass of the loop.\<close>

lemma handler_pass:
  assumes "h_pc h = H_Test" and "h_closed h \<or> 2 \<le> length (h_stream h)" and "2 \<le> c"
    and "h_closed h \<or> drop 2 (h_stream h) \<noteq> []"
  shows "handler_step stop d (handler_step stop c (handler_step False b (h, q))) =
    (case handle_socket 2 (max 1 d) (h_stream h, q) of
       Inr (rest, q') \<Rightarrow> (h\<lparr>h_stream := rest, h_pc := H_Test\<rparr>, q')
     | Inl e \<Rightarrow>
        (h\<lparr>h_stream := drop (min (from_bytes (take 2 (h_stream h))) (max 1 d)) (drop 2 (h_stream h)),
           h_pc := H_Ended (Some e)\<rparr>, q))"
proof -
  have one: "handler_step False b (h, q) = (h\<lparr>h_pc := H_Length\<rparr>, q)"
    using assms(1) by (simp add: handler_step_def blocked_def)
  have two: "handler_step stop c (h\<lparr>h_pc := H_Length\<rparr>, q) =
      (h\<lparr>h_stream := drop 2 (h_stream h), h_pc := H_Text (from_bytes (take 2 (h_stream h)))\<rparr>, q)"
    using assms(2,3) by (auto simp: handler_step_def blocked_def sock_recv_def min_def)
  show ?thesis
    unfolding one two using assms(4)
    by (auto simp: handler_step_def blocked_def handle_socket_def sock_recv_def rbind_def min_def
        split: sum.splits option.splits)
qed

text \<open>A handler whose peer is gone goes round and round: it reads nothing, and nothing is no JSON text.\<close>

lemma hung_up_handler_spins:
  assumes "h_pc h = H_Test" and "h_closed h" and "h_stream h = []"
  shows "handler_step stop d (handler_step stop c (handler_step False b (h, q))) = (h, q)"
proof -
  have "py_decode [] = Inr []"
    using decode_encode [of "[]"] by (simp add: py_encode_def)
  then show ?thesis
    using assms by (auto simp: handler_step_def blocked_def sock_recv_def from_bytes_def json_loads_def skip_first)
qed

section \<open>What the handlers still have to read\<close>

text \<open>
  A handler between two messages, or after the length of one. What its peer sends later
  makes up the rest: \<open>fut\<close>. At the end of a closed stream the length read is that of nothing.
\<close>

definition carrying :: "handler \<Rightarrow> byte list \<Rightarrow> pyval list \<Rightarrow> bool" where
  "carrying h fut ms \<longleftrightarrow>
     (case h_pc h of
        H_Ended _ \<Rightarrow> True
      | H_Text n \<Rightarrow>
          n = 0 \<and> h_stream h = [] \<and> h_closed h \<and> fut = framed ms
          \<or> (\<exists>m ms'. ms = m # ms' \<and> n = length (json_dumps m) \<and> h_stream h @ fut = py_encode (json_dumps m) @ framed ms')
      | _ \<Rightarrow> h_stream h @ fut = framed ms)"

text \<open>How many steps are left until all is read.\<close>

definition steps_left :: "handler \<Rightarrow> pyval list \<Rightarrow> nat" where
  "steps_left h ms = 3 * length ms - (case h_pc h of H_Length \<Rightarrow> 1 | H_Text _ \<Rightarrow> 2 | _ \<Rightarrow> 0)"

text \<open>
  A step of a handler is not a short read if it waits, reads nothing, finds the end of the
  stream in place of a length, or is returned as many bytes as it has asked for.
\<close>

definition whole_read :: "nat \<Rightarrow> handler \<Rightarrow> bool" where
  "whole_read chosen h \<longleftrightarrow> blocked h \<or>
     (case h_pc h of
        H_Length \<Rightarrow> h_stream h = [] \<or> 2 \<le> chosen \<and> 2 \<le> length (h_stream h)
      | H_Text n \<Rightarrow> n \<le> max 1 chosen \<and> n \<le> length (h_stream h)
      | _ \<Rightarrow> True)"

lemma frame_split:
  assumes "fits m"
  obtains b1 b2 where "projr (frame_message m) = b1 # b2 # py_encode (json_dumps m)"
    and "from_bytes [b1, b2] = length (json_dumps m)"
proof -
  let ?n = "length (json_dumps m)"
  have "to_bytes_2 ?n = Inr [word_of_nat (?n div 256), word_of_nat (?n mod 256)]"
    using assms by (simp add: to_bytes_2_def fits_def)
  from from_to_bytes [OF this] that assms show ?thesis
    by (simp add: frame_cases fits_def)
qed

lemma framed_Nil_iff: "\<forall>m \<in> set ms. fits m \<Longrightarrow> framed ms = [] \<longleftrightarrow> ms = []"
  by (cases ms) (auto elim: frame_split)

lemma text_nonempty: "json_dumps m \<noteq> []" "py_encode (json_dumps m) \<noteq> []"
  using dumps_first [of m] by (auto simp: py_encode_def)

lemma decode_Nil: "py_decode [] = Inr []"
  using decode_encode [of "[]"] by (simp add: py_encode_def)

lemma loads_Nil: "json_loads [] = None"
  by (simp add: json_loads_def skip_first)

text \<open>The two reads of a handler, neither of them short.\<close>

lemma carrying_length:
  assumes "carrying h fut ms" and "\<forall>m \<in> set ms. fits m" and "whole_read chosen h" and "h_pc h = H_Length"
    and "\<not> blocked h" and "handler_step stop chosen (h, q) = (h', q')"
  shows "q' = q \<and> carrying h' fut ms \<and> h_closed h' = h_closed h \<and> (\<exists>n. h_pc h' = H_Text n)"
proof (cases "h_stream h = []")
  case True
  with assms show ?thesis
    by (auto simp: handler_step_def blocked_def carrying_def sock_recv_def from_bytes_def)
next
  case False
  with assms(3,4,5) have read: "2 \<le> chosen" "2 \<le> length (h_stream h)"
    by (simp_all add: whole_read_def)
  have stream: "h_stream h @ fut = framed ms"
    using assms(1,4) by (simp add: carrying_def)
  with False assms(2) obtain m ms' where ms: "ms = m # ms'" "fits m"
    by (cases ms) auto
  then obtain b1 b2 where frame: "projr (frame_message m) = b1 # b2 # py_encode (json_dumps m)"
      "from_bytes [b1, b2] = length (json_dumps m)"
    by (auto elim: frame_split)
  obtain rest where rest: "h_stream h = b1 # b2 # rest" "rest @ fut = py_encode (json_dumps m) @ framed ms'"
    using stream read(2) by (auto simp: ms frame(1) numeral_2_eq_2 Suc_le_length_iff)
  have "h' = h\<lparr>h_stream := rest, h_pc := H_Text (length (json_dumps m))\<rparr>" "q' = q"
    using assms(4,5,6) read(1) rest(1) frame(2)
    by (auto simp: handler_step_def sock_recv_def min_def max_def numeral_2_eq_2)
  with rest(2) ms(1) show ?thesis
    by (simp add: carrying_def)
qed

lemma carrying_text:
  assumes "carrying h fut ms" and "\<forall>m \<in> set ms. fits m" and "whole_read chosen h" and "h_pc h = H_Text n"
    and "\<not> blocked h" and "handler_step stop chosen (h, q) = (h', q')"
  shows "h_closed h' = h_closed h \<and> h_pc h' = H_Test
    \<and> (q' = q \<and> fut = framed ms \<and> carrying h' fut ms
       \<or> (\<exists>m ms'. ms = m # ms' \<and> q' = q @ [json_norm m] \<and> carrying h' fut ms'))"
proof (cases "n = 0 \<and> h_stream h = [] \<and> h_closed h \<and> fut = framed ms")
  case True
  with assms(4,5,6) have "h' = h\<lparr>h_pc := H_Test\<rparr>" "q' = q"
    by (auto simp: handler_step_def sock_recv_def decode_Nil loads_Nil)
  with True show ?thesis
    by (simp add: carrying_def)
next
  case False
  with assms(1,4) obtain m ms' where ms: "ms = m # ms'" "n = length (json_dumps m)"
      "h_stream h @ fut = py_encode (json_dumps m) @ framed ms'"
    by (auto simp: carrying_def)
  have read: "n \<le> max 1 chosen" "n \<le> length (h_stream h)"
    using assms(3,4,5) by (simp_all add: whole_read_def)
  obtain rest where rest: "h_stream h = py_encode (json_dumps m) @ rest" "rest @ fut = framed ms'"
  proof
    have "take n (h_stream h @ fut) = py_encode (json_dumps m)"
      by (simp add: ms(2,3) py_encode_def)
    with read(2) show stream: "h_stream h = py_encode (json_dumps m) @ drop n (h_stream h)"
      by (metis append_take_drop_id take_append diff_is_0_eq append_Nil2 take_0)
    from ms(3) show "drop n (h_stream h) @ fut = framed ms'"
      by (subst (asm) stream) simp
  qed
  have "json_ok m"
    using assms(2) ms(1) by (simp add: fits_def)
  then have "h' = h\<lparr>h_stream := rest, h_pc := H_Test\<rparr>" "q' = q @ [json_norm m]"
    using assms(4,5,6) read(1) rest(1) ms(2)
    by (auto simp: handler_step_def sock_recv_def dumps_ascii loads_dumps queue_put_def min_absorb1)
  with rest(2) ms(1) show ?thesis
    by (simp add: carrying_def)
qed

text \<open>
  After \<open>c\<close> steps since all has arrived, a handler has queued the first \<open>k\<close> of the messages
  on its connection, and as many as \<open>c\<close> allows if it was not stopped.
\<close>

definition progress :: "pyval list \<Rightarrow> nat \<Rightarrow> nat \<Rightarrow> byte list \<Rightarrow> bool \<Rightarrow> handler \<Rightarrow> bool" where
  "progress ms k c fut stop h \<longleftrightarrow>
     k \<le> length ms \<and> h_pc h \<noteq> H_New \<and> carrying h fut (drop k ms)
     \<and> (\<not> stop \<longrightarrow> \<not> ended h \<and> steps_left h (drop k ms) \<le> 3 * length ms - c)"

lemma progress_step:
  assumes "progress ms k c fut stop h" and "\<forall>m \<in> set ms. fits m" and "whole_read chosen h"
    and "c' = 0 \<or> fut = [] \<and> c' = Suc c" and "handler_step stop chosen (h, q) = (h', q')"
  shows "\<exists>k'. k \<le> k' \<and> progress ms k' c' fut stop h' \<and> h_closed h' = h_closed h
    \<and> q' = q @ map json_norm (take (k' - k) (drop k ms))"
proof -
  let ?ms = "drop k ms"
  from assms(1) have k: "k \<le> length ms" and new: "h_pc h \<noteq> H_New" and carry: "carrying h fut ?ms"
      and rate: "\<not> stop \<Longrightarrow> \<not> ended h \<and> steps_left h ?ms \<le> 3 * length ms - c"
    by (simp_all add: progress_def)
  have fits: "\<forall>m \<in> set ?ms. fits m"
    using assms(2) by (auto dest: in_set_dropD)
  have rest: "steps_left h' ms' \<le> 3 * length ms" if "length ms' \<le> length ms" for h' and ms' :: "pyval list"
    using that by (simp add: steps_left_def le_diff_conv trans_le_add1)
  show ?thesis
  proof (cases "blocked h")
    case True
    with assms(5) have "h' = h" "q' = q"
      by (simp_all add: handler_step_def)
    moreover have "steps_left h ?ms = 0" if "fut = []"
      using True carry that text_nonempty framed_Nil_iff [OF fits]
      by (auto simp: blocked_def carrying_def steps_left_def split: handler_pc.splits)
    ultimately show ?thesis
      using k new carry rate assms(4) rest [of ?ms] by (intro exI [of _ k]) (auto simp: progress_def)
  next
    case free: False
    show ?thesis
    proof (cases "h_pc h")
      case H_Test
      with free assms(5) carry k rate assms(4) rest [of ?ms] show ?thesis
        by (intro exI [of _ k]) (auto simp: progress_def handler_step_def carrying_def ended_def steps_left_def split: if_splits)
    next
      case H_Length
      from carrying_length [OF carry fits assms(3) H_Length free assms(5)] H_Length k rate assms(4) rest [of ?ms] show ?thesis
        by (intro exI [of _ k]) (auto simp: progress_def ended_def steps_left_def)
    next
      case (H_Text n)
      from carrying_text [OF carry fits assms(3) H_Text free assms(5)] show ?thesis
      proof (elim conjE disjE exE)
        assume "h_closed h' = h_closed h" "h_pc h' = H_Test" "q' = q" "fut = framed ?ms" "carrying h' fut ?ms"
        with k assms(4) framed_Nil_iff [OF fits] show ?thesis
          by (intro exI [of _ k]) (auto simp: progress_def ended_def steps_left_def)
      next
        fix m ms'
        assume h': "h_closed h' = h_closed h" "h_pc h' = H_Test" "?ms = m # ms'" "q' = q @ [json_norm m]" "carrying h' fut ms'"
        have ms': "drop (Suc k) ms = ms'" "length ms = Suc (k + length ms')"
        proof -
          have "tl (drop k ms) = ms'" "length (drop k ms) = Suc (length ms')"
            by (simp_all only: h'(3) list.sel list.size add_0_right add_Suc_right One_nat_def)
          with k show "drop (Suc k) ms = ms'" "length ms = Suc (k + length ms')"
            by (simp_all add: drop_Suc tl_drop)
        qed
        have "steps_left h' ms' = 3 * length ms'" "steps_left h ?ms = 3 * length ms' + 1"
          using h'(2,3) H_Text by (simp_all add: steps_left_def)
        with rate assms(4) have "\<not> stop \<Longrightarrow> steps_left h' ms' \<le> 3 * length ms - c'"
          using ms'(2) by auto
        with h' ms' have "progress ms (Suc k) c' fut stop h'"
          by (simp add: progress_def ended_def)
        with h' show ?thesis
          by (intro exI [of _ "Suc k"]) simp
      qed
    next
      case (H_Ended e)
      with free assms(5) carry k rate assms(4) rest [of ?ms] show ?thesis
        by (intro exI [of _ k]) (auto simp: progress_def handler_step_def ended_def)
    qed (use new in simp)
  qed
qed

section \<open>Runs\<close>

definition handles :: "nat \<Rightarrow> blistener_move \<Rightarrow> bool" where
  "handles i m \<longleftrightarrow> (case m of Handle j _ \<Rightarrow> j = i | _ \<Rightarrow> False)"

definition handled :: "nat \<Rightarrow> blistener_move list \<Rightarrow> nat" where
  "handled i ms = length (filter (handles i) ms)"

lemma handled_simps: "handled i [] = 0" "handled i (m # ms) = handled i [m] + handled i ms"
  by (simp_all add: handled_def)

text \<open>What peer \<open>i\<close> sends in the course of the moves, until it hangs up.\<close>

fun arrived :: "nat \<Rightarrow> blistener_move list \<Rightarrow> byte list" where
  "arrived i [] = []"
| "arrived i (Arrive j bs # mvs) = (if j = i then bs @ arrived i mvs else arrived i mvs)"
| "arrived i (Hang_up j # mvs) = (if j = i then [] else arrived i mvs)"
| "arrived i (mv # mvs) = arrived i mvs"

text \<open>A run in which no read is short.\<close>

fun whole_run ::
  "(int \<Rightarrow> nat \<Rightarrow> int option) \<Rightarrow> (string \<times> int \<Rightarrow> nat \<Rightarrow> int option) \<Rightarrow> blistener_move list \<Rightarrow> blistener \<Rightarrow> bool" where
  "whole_run bind connect [] l = True"
| "whole_run bind connect (mv # mvs) l =
     ((case mv of
         Handle i chosen \<Rightarrow> length (bl_handlers l) \<le> i \<or> whole_read chosen (bl_handlers l ! i)
       | _ \<Rightarrow> True)
      \<and> whole_run bind connect mvs (blistener_step bind connect mv l))"

lemma whole_run_append:
  "whole_run bind connect (xs @ ys) l \<longleftrightarrow>
     whole_run bind connect xs l \<and> whole_run bind connect ys (blistener_run bind connect xs l)"
  by (induction xs arbitrary: l) simp_all

definition tells_apart :: "(nat \<Rightarrow> pyval \<Rightarrow> bool) \<Rightarrow> pyval list list \<Rightarrow> bool" where
  "tells_apart is_from mss \<longleftrightarrow>
     (\<forall>i < length mss. \<forall>j < length mss. \<forall>m \<in> set (mss ! j). is_from i (json_norm m) \<longleftrightarrow> i = j)"

text \<open>What a handler may still be sent: what arrives, and what never does.\<close>

definition to_come :: "(nat \<Rightarrow> byte list) \<Rightarrow> blistener_move list \<Rightarrow> blistener \<Rightarrow> nat \<Rightarrow> byte list" where
  "to_come tails mvs l i = (if h_closed (bl_handlers l ! i) then [] else arrived i mvs) @ tails i"

definition delivering ::
  "(nat \<Rightarrow> pyval \<Rightarrow> bool) \<Rightarrow> pyval list list \<Rightarrow> (nat \<Rightarrow> byte list) \<Rightarrow> (nat \<Rightarrow> nat) \<Rightarrow> (nat \<Rightarrow> nat) \<Rightarrow> blistener \<Rightarrow> bool" where
  "delivering is_from mss futs ks c l \<longleftrightarrow>
     bl_pc l \<noteq> BL_Connecting \<and> bl_pc l \<noteq> BL_Backoff \<and> length (bl_handlers l) = length mss
     \<and> (\<forall>i < length mss. progress (mss ! i) (ks i) (c i) (futs i) (bl_stop l) (bl_handlers l ! i)
          \<and> filter (is_from i) (bl_messages l) = map json_norm (take (ks i) (mss ! i)))
     \<and> set (bl_messages l) \<subseteq> json_norm ` (\<Union>ms \<in> set mss. set ms)"

lemma delivering_handle:
  assumes "delivering is_from mss futs ks c l" and "tells_apart is_from mss"
    and "\<forall>ms \<in> set mss. \<forall>m \<in> set ms. fits m" and "i < length mss" and "whole_read chosen (bl_handlers l ! i)"
    and "c' = 0 \<or> futs i = [] \<and> c' = Suc (c i)"
  shows "\<exists>ks'. delivering is_from mss futs ks' (c(i := c')) (handle_at i chosen l)
    \<and> (\<forall>j. h_closed (bl_handlers (handle_at i chosen l) ! j) = h_closed (bl_handlers l ! j))"
proof -
  let ?ms = "mss ! i"
  from assms(1,4) have l: "length (bl_handlers l) = length mss"
      "progress ?ms (ks i) (c i) (futs i) (bl_stop l) (bl_handlers l ! i)"
    by (simp_all add: delivering_def)
  obtain h q where hq: "handler_step (bl_stop l) chosen (bl_handlers l ! i, bl_messages l) = (h, q)"
    by fastforce
  have "\<forall>m \<in> set ?ms. fits m"
    using assms(3,4) nth_mem by blast
  from progress_step [OF l(2) this assms(5,6) hq] obtain k' where k': "ks i \<le> k'" "progress ?ms k' c' (futs i) (bl_stop l) h"
      "h_closed h = h_closed (bl_handlers l ! i)" "q = bl_messages l @ map json_norm (take (k' - ks i) (drop (ks i) ?ms))"
    by blast
  let ?new = "take (k' - ks i) (drop (ks i) ?ms)"
  have new: "set ?new \<subseteq> set ?ms"
    by (meson order_trans set_drop_subset set_take_subset)
  have take: "take (ks i) ?ms @ ?new = take k' ?ms"
    using k'(1) by (simp flip: take_add)
  have queue: "filter (is_from j) q = map json_norm (take ((ks(i := k')) j) (mss ! j))" if j: "j < length mss" for j
  proof -
    have "is_from j (json_norm m) \<longleftrightarrow> j = i" if "m \<in> set ?new" for m
    proof -
      from new that have "m \<in> set ?ms" ..
      with assms(2,4) j show ?thesis
        by (simp add: tells_apart_def)
    qed
    then have "filter (is_from j) (map json_norm ?new) = (if j = i then map json_norm ?new else [])"
      by (auto simp: filter_empty_conv intro!: filter_True)
    moreover have "filter (is_from j) (bl_messages l) = map json_norm (take (ks j) (mss ! j))"
      using assms(1) j by (simp add: delivering_def)
    ultimately show ?thesis
      by (simp add: k'(4) flip: take)
  qed
  have "json_norm ` set ?new \<subseteq> json_norm ` (\<Union>ms \<in> set mss. set ms)"
    using new assms(4) by (intro image_mono) (auto dest: nth_mem)
  with assms(1) have "set q \<subseteq> json_norm ` (\<Union>ms \<in> set mss. set ms)"
    by (simp add: delivering_def k'(4))
  with assms(1,4) queue l(1) k'(2) have "delivering is_from mss futs (ks(i := k')) (c(i := c')) (handle_at i chosen l)"
    unfolding delivering_def handle_at_def by (simp add: hq nth_list_update)
  moreover have "h_closed (bl_handlers (handle_at i chosen l) ! j) = h_closed (bl_handlers l ! j)" for j
    using assms(4) l(1) k'(3) by (simp add: handle_at_def hq nth_list_update)
  ultimately show ?thesis
    by blast
qed

text \<open>A handler is told of bytes, or of the end, between its steps.\<close>

lemma progress_arrive:
  "progress ms k c (bs @ fut) stop h \<Longrightarrow> \<not> h_closed h \<Longrightarrow> progress ms k c fut stop (h\<lparr>h_stream := h_stream h @ bs\<rparr>)"
  by (cases "h_pc h") (auto simp: progress_def carrying_def ended_def steps_left_def)

lemma progress_hang_up: "progress ms k c fut stop h \<Longrightarrow> progress ms k c fut stop (h\<lparr>h_closed := True\<rparr>)"
  by (cases "h_pc h") (auto simp: progress_def carrying_def ended_def steps_left_def)

lemma progress_slower: "progress ms k c fut stop h \<Longrightarrow> c' \<le> c \<Longrightarrow> progress ms k c' fut stop h"
  by (auto simp: progress_def)

lemma delivering_slower:
  "delivering is_from mss futs ks c l \<Longrightarrow> (\<And>j. j < length mss \<Longrightarrow> c' j \<le> c j) \<Longrightarrow> delivering is_from mss futs ks c' l"
  by (auto simp: delivering_def intro: progress_slower)

text \<open>The steps counted of a handler are those after which nothing is to come.\<close>

definition counts :: "(nat \<Rightarrow> byte list) \<Rightarrow> blistener_move \<Rightarrow> (nat \<Rightarrow> nat) \<Rightarrow> nat \<Rightarrow> nat" where
  "counts futs mv c i = (if futs i = [] then c i + handled i [mv] else 0)"

lemma at_handler_simps [simp]:
  "bl_pc (at_handler i f l) = bl_pc l" "bl_messages (at_handler i f l) = bl_messages l"
  "bl_stop (at_handler i f l) = bl_stop l" "length (bl_handlers (at_handler i f l)) = length (bl_handlers l)"
  by (simp_all add: at_handler_def)

lemma delivering_move:
  assumes "delivering is_from mss (to_come tails (mv # mvs) l) ks c l" and "tells_apart is_from mss"
    and "\<forall>ms \<in> set mss. \<forall>m \<in> set ms. fits m" and "whole_run bind connect (mv # mvs) l"
  shows "\<exists>ks'. delivering is_from mss (to_come tails mvs (blistener_step bind connect mv l)) ks'
    (counts (to_come tails (mv # mvs) l) mv c) (blistener_step bind connect mv l)"
proof -
  let ?f = "to_come tails (mv # mvs) l"
  from assms(1) have l: "bl_pc l \<noteq> BL_Connecting" "bl_pc l \<noteq> BL_Backoff" "length (bl_handlers l) = length mss"
      "set (bl_messages l) \<subseteq> json_norm ` (\<Union>ms \<in> set mss. set ms)"
    and each: "\<And>i. i < length mss \<Longrightarrow> progress (mss ! i) (ks i) (c i) (?f i) (bl_stop l) (bl_handlers l ! i)"
    and queue: "\<And>i. i < length mss \<Longrightarrow> filter (is_from i) (bl_messages l) = map json_norm (take (ks i) (mss ! i))"
    by (simp_all add: delivering_def)
  have slow: "counts ?f mv c i \<le> c i" if "handled i [mv] = 0" for i
    using that by (simp add: counts_def)
  show ?thesis
  proof (cases mv)
    case Run
    let ?l = "BListener_run_step bind connect l"
    have same: "bl_handlers ?l = bl_handlers l" "bl_messages ?l = bl_messages l" "bl_stop ?l = bl_stop l"
        "bl_pc ?l \<noteq> BL_Connecting" "bl_pc ?l \<noteq> BL_Backoff"
      using l(1,2) by (auto simp: BListener_run_step_def split: blistener_pc.split)
    then have futs: "to_come tails mvs ?l = ?f"
      by (auto simp: to_come_def Run)
    have "counts ?f mv c j \<le> c j" for j
      by (rule slow) (simp add: Run handled_def handles_def)
    with same l queue show ?thesis
      unfolding Run blistener_step.simps futs [unfolded Run]
      by (intro exI [of _ ks]) (auto simp: delivering_def Run intro: progress_slower [OF each [unfolded Run]])
  next
    case (Handle i chosen)
    have futs: "to_come tails mvs l = ?f"
      by (auto simp: to_come_def Handle)
    have others: "counts ?f mv c j \<le> c j" if "j \<noteq> i" for j
      using that by (intro slow) (simp add: Handle handled_def handles_def)
    show ?thesis
    proof (cases "i < length mss")
      case True
      have one: "counts ?f mv c i = 0 \<or> ?f i = [] \<and> counts ?f mv c i = Suc (c i)"
        by (simp add: counts_def Handle handled_def handles_def)
      have "whole_read chosen (bl_handlers l ! i)"
        using assms(4) True l(3) by (simp add: Handle)
      from delivering_handle [OF assms(1,2,3) True this one] obtain ks' where
        ks': "delivering is_from mss ?f ks' (c(i := counts ?f mv c i)) (handle_at i chosen l)"
        and closed: "\<And>j. h_closed (bl_handlers (handle_at i chosen l) ! j) = h_closed (bl_handlers l ! j)"
        by blast
      have "delivering is_from mss ?f ks' (counts ?f mv c) (handle_at i chosen l)"
        by (rule delivering_slower [OF ks']) (use others in \<open>simp split: if_splits\<close>)
      moreover have "to_come tails mvs (handle_at i chosen l) = ?f"
        using closed by (auto simp: to_come_def Handle)
      ultimately show ?thesis
        by (auto simp: Handle)
    next
      case False
      with l each queue others show ?thesis
        unfolding Handle blistener_step.simps handle_at_def
        by (intro exI [of _ ks])
           (auto simp: delivering_def futs [unfolded Handle] Handle intro!: progress_slower [OF each [unfolded Handle]])
    qed
  next
    case (Arrive i bs)
    let ?l = "blistener_step bind connect mv l"
    have "progress (mss ! j) (ks j) (counts ?f mv c j) (to_come tails mvs ?l j) (bl_stop l) (bl_handlers ?l ! j)"
      if "j < length mss" for j
    proof (cases "j = i \<and> \<not> h_closed (bl_handlers l ! i)")
      case True
      then have "?f j = bs @ to_come tails mvs ?l j"
        using that l(3) by (simp add: Arrive to_come_def at_handler_def)
      with each [OF that] have "progress (mss ! j) (ks j) (c j) (bs @ to_come tails mvs ?l j) (bl_stop l) (bl_handlers l ! j)"
        by simp
      with True that l(3) have "progress (mss ! j) (ks j) (c j) (to_come tails mvs ?l j) (bl_stop l) (bl_handlers ?l ! j)"
        using progress_arrive by (simp add: Arrive at_handler_def)
      then show ?thesis
        by (rule progress_slower, intro slow) (simp add: Arrive handled_def handles_def)
    next
      case False
      then have "bl_handlers ?l ! j = bl_handlers l ! j" "?f j = to_come tails mvs ?l j"
        using that l(3) by (auto simp: Arrive to_come_def at_handler_def nth_list_update)
      with progress_slower [OF each [OF that]] slow [of j] show ?thesis
        by (simp add: Arrive handled_def handles_def)
    qed
    with l queue show ?thesis
      by (intro exI [of _ ks]) (simp add: delivering_def Arrive)
  next
    case (Hang_up i)
    let ?l = "blistener_step bind connect mv l"
    have "progress (mss ! j) (ks j) (counts ?f mv c j) (to_come tails mvs ?l j) (bl_stop l) (bl_handlers ?l ! j)"
      if "j < length mss" for j
    proof -
      have "?f j = to_come tails mvs ?l j" "bl_handlers ?l ! j = bl_handlers l ! j
          \<or> bl_handlers ?l ! j = (bl_handlers l ! j)\<lparr>h_closed := True\<rparr>"
        using that l(3) by (auto simp: Hang_up to_come_def at_handler_def nth_list_update)
      with progress_slower [OF progress_hang_up [OF each [OF that]]] progress_slower [OF each [OF that]] slow [of j] show ?thesis
        by (auto simp: Hang_up handled_def handles_def)
    qed
    with l queue show ?thesis
      by (intro exI [of _ ks]) (simp add: delivering_def Hang_up)
  next
    case Stop_called
    have "progress (mss ! j) (ks j) (counts ?f mv c j) (to_come tails mvs (BListener_stop l) j) True (bl_handlers l ! j)"
      if "j < length mss" for j
      using each [OF that] slow [of j]
      by (auto simp: progress_def Stop_called to_come_def BListener_stop_def handled_def handles_def)
    with l queue show ?thesis
      by (intro exI [of _ ks]) (auto simp: delivering_def Stop_called BListener_stop_def)
  qed
qed

lemma handler_step_closed: "h_closed (fst (handler_step stop chosen (h, q))) = h_closed h"
  by (auto simp: handler_step_def Let_def split: handler_pc.split sum.split prod.split)

lemma to_come_move:
  assumes "bl_pc l \<noteq> BL_Connecting" and "bl_pc l \<noteq> BL_Backoff" and "i < length (bl_handlers l)"
  shows "to_come tails (mv # mvs) l i =
    (if h_closed (bl_handlers l ! i) then [] else arrived i [mv]) @ to_come tails mvs (blistener_step bind connect mv l) i"
proof (cases mv)
  case Run
  have "bl_handlers (BListener_run_step bind connect l) = bl_handlers l"
    using assms(1,2) by (auto simp: BListener_run_step_def split: blistener_pc.split)
  with Run show ?thesis
    by (simp add: to_come_def)
next
  case (Handle j chosen)
  have "h_closed (bl_handlers (handle_at j chosen l) ! i) = h_closed (bl_handlers l ! i)"
    using assms(3) handler_step_closed [of "bl_stop l" chosen "bl_handlers l ! j" "bl_messages l"]
    by (auto simp: handle_at_def nth_list_update split: prod.split)
  with Handle show ?thesis
    by (simp add: to_come_def)
next
  case (Arrive j bs)
  with assms(3) show ?thesis
    by (auto simp: to_come_def at_handler_def nth_list_update)
next
  case (Hang_up j)
  with assms(3) show ?thesis
    by (auto simp: to_come_def at_handler_def nth_list_update)
next
  case Stop_called
  then show ?thesis
    by (simp add: to_come_def BListener_stop_def)
qed

lemma running_move:
  assumes "bl_pc l \<noteq> BL_Connecting" and "bl_pc l \<noteq> BL_Backoff"
  shows "bl_pc (blistener_step bind connect mv l) \<noteq> BL_Connecting" "bl_pc (blistener_step bind connect mv l) \<noteq> BL_Backoff"
    "length (bl_handlers (blistener_step bind connect mv l)) = length (bl_handlers l)"
  using assms
  by (cases mv; auto simp: BListener_run_step_def handle_at_def BListener_stop_def split: blistener_pc.splits prod.split)+

lemma to_come_append:
  assumes "bl_pc l \<noteq> BL_Connecting" and "bl_pc l \<noteq> BL_Backoff" and "i < length (bl_handlers l)"
  shows "to_come tails (xs @ ys) l i = to_come (to_come tails ys (blistener_run bind connect xs l)) xs l i"
  using assms
proof (induction xs arbitrary: l)
  case Nil
  then show ?case
    by (simp add: to_come_def)
next
  case (Cons mv xs)
  let ?l = "blistener_step bind connect mv l"
  have "to_come tails (xs @ ys) ?l i = to_come (to_come tails ys (blistener_run bind connect xs ?l)) xs ?l i"
    using running_move [OF Cons.prems(1,2)] Cons.prems(3) by (intro Cons.IH) simp_all
  then show ?case
    unfolding append_Cons to_come_move [OF Cons.prems, of _ mv _ bind connect] by simp
qed

lemma delivering_cong:
  "delivering is_from mss futs ks c l \<Longrightarrow> (\<And>j. j < length mss \<Longrightarrow> futs' j = futs j) \<Longrightarrow> delivering is_from mss futs' ks c l"
  by (simp add: delivering_def)

lemma delivering_run:
  assumes "delivering is_from mss (to_come tails mvs l) ks c l" and "tells_apart is_from mss"
    and "\<forall>ms \<in> set mss. \<forall>m \<in> set ms. fits m" and "whole_run bind connect mvs l"
  shows "\<exists>ks'. delivering is_from mss tails ks' (\<lambda>i. if to_come tails mvs l i = [] then c i + handled i mvs else 0)
    (blistener_run bind connect mvs l)"
  using assms(1,4)
proof (induction mvs arbitrary: ks c l)
  case Nil
  have "to_come tails [] l = tails"
    by (auto simp: to_come_def)
  with Nil(1) show ?case
    by (intro exI [of _ ks]) (auto simp: handled_simps intro: delivering_slower)
next
  case (Cons mv mvs)
  let ?l = "blistener_step bind connect mv l" and ?f = "to_come tails (mv # mvs) l"
  from delivering_move [OF Cons.prems(1) assms(2,3) Cons.prems(2)] obtain ks' where
    "delivering is_from mss (to_come tails mvs ?l) ks' (counts ?f mv c) ?l"
    by blast
  from Cons.IH [OF this] Cons.prems(2) obtain ks'' where
    run: "delivering is_from mss tails ks'' (\<lambda>i. if to_come tails mvs ?l i = [] then counts ?f mv c i + handled i mvs else 0)
      (blistener_run bind connect mvs ?l)"
    by auto
  have len: "length mss = length (bl_handlers l)" and pc: "bl_pc l \<noteq> BL_Connecting" "bl_pc l \<noteq> BL_Backoff"
    using Cons.prems(1) by (simp_all add: delivering_def)
  have "to_come tails mvs ?l i = []" if "?f i = []" "i < length mss" for i
    using to_come_move [OF pc, of i tails mv mvs bind connect] that len by simp
  then show ?case
    by (intro exI [of _ ks'']) (use delivering_slower [OF run] in \<open>simp add: counts_def handled_simps(2) [of _ mv mvs] add.assoc\<close>)
qed


lemma stop_only_called:
  "\<not> bl_stop l \<Longrightarrow> Stop_called \<notin> set mvs \<Longrightarrow> \<not> bl_stop (blistener_run bind connect mvs l)"
proof (induction mvs arbitrary: l)
  case (Cons mv mvs)
  then have "\<not> bl_stop (blistener_step bind connect mv l)"
    by (cases mv)
       (auto simp: BListener_run_step_def handle_at_def at_handler_def
         split: blistener_pc.split option.split sum.split prod.split)
  with Cons show ?case
    by simp
qed simp

section \<open>Stopping\<close>

text \<open>How many steps a handler whose peer is gone takes at most once it has been stopped.\<close>

definition steps_to_end :: "handler \<Rightarrow> nat" where
  "steps_to_end h = (case h_pc h of H_Ended _ \<Rightarrow> 0 | H_Test \<Rightarrow> 1 | H_Text _ \<Rightarrow> 2 | _ \<Rightarrow> 3)"

definition hung_up :: "handler \<Rightarrow> bool" where
  "hung_up h \<longleftrightarrow> h_closed h \<and> h_pc h \<noteq> H_New"

lemma stopping_step:
  assumes "hung_up h" and "handler_step True chosen (h, q) = (h', q')"
  shows "hung_up h' \<and> steps_to_end h' \<le> steps_to_end h - 1"
  using assms
  by (cases "h_pc h")
     (auto simp: handler_step_def blocked_def hung_up_def steps_to_end_def Let_def split: sum.splits prod.splits)

definition stopping :: "(nat \<Rightarrow> nat) \<Rightarrow> blistener \<Rightarrow> bool" where
  "stopping c l \<longleftrightarrow>
     bl_stop l \<and> bl_pc l \<in> {BL_Running, BL_Waiting, BL_Closed} \<and> bl_address_list l \<noteq> []
     \<and> (\<forall>i < length (bl_handlers l). hung_up (bl_handlers l ! i) \<and> steps_to_end (bl_handlers l ! i) \<le> 3 - c i)
     \<and> (bl_pc l = BL_Closed \<longrightarrow> list_all ended (bl_handlers l))"

lemma ended_iff: "ended h \<longleftrightarrow> steps_to_end h = 0"
  by (cases "h_pc h") (simp_all add: ended_def steps_to_end_def)

lemma stopping_move:
  assumes "stopping c l"
  shows "stopping (\<lambda>i. c i + handled i [mv]) (blistener_step bind connect mv l)
    \<and> length (bl_handlers (blistener_step bind connect mv l)) = length (bl_handlers l)"
proof (cases mv)
  case Run
  with assms show ?thesis
    by (auto simp: stopping_def BListener_run_step_def handled_def handles_def)
next
  case (Handle i chosen)
  obtain h q where hq: "handler_step True chosen (bl_handlers l ! i, bl_messages l) = (h, q)"
    by fastforce
  have "bl_pc l = BL_Closed \<Longrightarrow> i < length (bl_handlers l) \<Longrightarrow> ended h"
    using assms stopping_step [OF _ hq] by (auto simp: stopping_def ended_iff list_all_length)
  with Handle assms stopping_step [OF _ hq] show ?thesis
    by (force simp: stopping_def handle_at_def hq handled_def handles_def nth_list_update list_all_length)
next
  case (Arrive i bs)
  with assms show ?thesis
    by (auto simp: stopping_def at_handler_def handled_def handles_def hung_up_def nth_list_update)
next
  case (Hang_up i)
  have "hung_up (h\<lparr>h_closed := True\<rparr>)" "steps_to_end (h\<lparr>h_closed := True\<rparr>) = steps_to_end h" if "hung_up h" for h
    using that by (simp_all add: hung_up_def steps_to_end_def)
  with Hang_up assms show ?thesis
    by (auto simp: stopping_def at_handler_def handled_def handles_def nth_list_update list_all_length ended_iff)
qed (use assms in \<open>simp add: stopping_def BListener_stop_def handled_def handles_def\<close>)

lemma stopping_run:
  assumes "stopping c l"
  shows "stopping (\<lambda>i. c i + handled i mvs) (blistener_run bind connect mvs l)
    \<and> length (bl_handlers (blistener_run bind connect mvs l)) = length (bl_handlers l)"
  using assms
proof (induction mvs arbitrary: c l)
  case (Cons mv mvs)
  from stopping_move [OF Cons.prems, of mv bind connect]
    Cons.IH [of "\<lambda>i. c i + handled i [mv]" "blistener_step bind connect mv l"] show ?case
    by (simp add: handled_simps(2) [of _ mv mvs] add.assoc)
qed (simp add: handled_simps)

text \<open>A handler that waits for its peer stays where it is until the peer does something.\<close>

definition leaves_alone :: "nat \<Rightarrow> blistener_move \<Rightarrow> bool" where
  "leaves_alone i m \<longleftrightarrow> (case m of Arrive j _ \<Rightarrow> j \<noteq> i | Hang_up j \<Rightarrow> j \<noteq> i | _ \<Rightarrow> True)"

definition awaiting :: "nat \<Rightarrow> handler \<Rightarrow> blistener \<Rightarrow> bool" where
  "awaiting i h l \<longleftrightarrow>
     i < length (bl_handlers l) \<and> bl_handlers l ! i = h \<and> bl_pc l \<in> {BL_Running, BL_Waiting}"

lemma awaiting_run:
  assumes "awaiting i h l" and "blocked h" and "\<forall>mv \<in> set mvs. leaves_alone i mv"
  shows "awaiting i h (blistener_run bind connect mvs l)"
  using assms(1,3)
proof (induction mvs arbitrary: l)
  case (Cons mv mvs)
  have "\<not> ended h"
    using assms(2) by (auto simp: blocked_def ended_def split: handler_pc.splits)
  then have "\<not> list_all ended (bl_handlers l)"
    using Cons.prems(1) by (auto simp: awaiting_def list_all_length)
  with Cons.prems assms(2) have "awaiting i h (blistener_step bind connect mv l)"
    by (cases mv)
       (auto simp: awaiting_def leaves_alone_def BListener_run_step_def handle_at_def at_handler_def BListener_stop_def
         nth_list_update handler_step_def split: prod.splits)
  with Cons show ?case
    by simp
qed simp

section \<open>Properties\<close>

text \<open>
  C39. Messages are not lost, mixed up or reordered by the handlers, as long as no read is
  short: in whatever chunks the bytes of the peers arrive and in whatever order the handlers
  move, and whenever peers hang up or the listener is stopped, if every \<open>recv\<close> so far has
  returned as many bytes as it asked for, or none at the end of a stream in place of a
  length, then the messages of a peer that are in the queue are the first ones of what it
  sends, in order; nothing else is in the queue; and without a stop they are all there after
  three steps of their handler per message once the last byte has arrived.
\<close>

theorem handlers_keep_the_order_of_a_peer:
  assumes "bl_pc l = BL_Running" and "\<not> bl_stop l" and "bl_messages l = []" and "length (bl_handlers l) = length mss"
    and "\<forall>h \<in> set (bl_handlers l). h_pc h = H_Test \<and> h_stream h = [] \<and> \<not> h_closed h"
    and "\<forall>ms \<in> set mss. \<forall>m \<in> set ms. json_ok m \<and> length (json_dumps m) < 65536"
    and "\<forall>j < length mss. prefix (arrived j (before @ after)) (framed (mss ! j))"
    and "tells_apart is_from mss" and "whole_run bind connect (before @ after) l" and "i < length mss"
  shows "\<exists>k. filter (is_from i) (bl_messages (blistener_run bind connect (before @ after) l)) = map json_norm (take k (mss ! i))
     \<and> (arrived i before = framed (mss ! i) \<and> Stop_called \<notin> set (before @ after) \<and> 3 * length (mss ! i) \<le> handled i after
          \<longrightarrow> k = length (mss ! i))
     \<and> set (bl_messages (blistener_run bind connect (before @ after) l)) \<subseteq> json_norm ` (\<Union>ms \<in> set mss. set ms)"
proof -
  let ?m = "blistener_run bind connect before l" and ?l = "blistener_run bind connect (before @ after) l"
  have fits: "\<forall>ms \<in> set mss. \<forall>m \<in> set ms. fits m"
    using assms(6) by (simp add: fits_def)
  obtain tails where tails: "framed (mss ! j) = arrived j (before @ after) @ tails j" if "j < length mss" for j
  proof
    show "framed (mss ! j) = arrived j (before @ after) @ drop (length (arrived j (before @ after))) (framed (mss ! j))"
      if "j < length mss" for j
      using assms(7) that by (auto simp: prefix_def)
  qed
  have later: "to_come (to_come tails after ?m) before l j = framed (mss ! j)" if "j < length mss" for j
    using to_come_append [of l j tails before after bind connect] assms(1,4,5) that tails [OF that] by (simp add: to_come_def)
  have "delivering is_from mss (\<lambda>j. framed (mss ! j)) (\<lambda>_. 0) (\<lambda>_. 0) l"
    using assms(1-5) by (auto simp: delivering_def progress_def carrying_def ended_def steps_left_def)
  then have "delivering is_from mss (to_come (to_come tails after ?m) before l) (\<lambda>_. 0) (\<lambda>_. 0) l"
    by (rule delivering_cong) (simp add: later)
  from delivering_run [OF this assms(8) fits, of bind connect] assms(9) obtain ks c where
    "delivering is_from mss (to_come tails after ?m) ks c ?m"
    by (auto simp: whole_run_append)
  then have "delivering is_from mss (to_come tails after ?m) ks (\<lambda>_. 0) ?m"
    by (rule delivering_slower) simp
  from delivering_run [OF this assms(8) fits, of bind connect] assms(9) obtain ks' where
    ks: "delivering is_from mss tails ks' (\<lambda>j. if to_come tails after ?m j = [] then handled j after else 0) ?l"
    by (auto simp: whole_run_append cong: if_cong)
  then have i: "progress (mss ! i) (ks' i) (if to_come tails after ?m i = [] then handled i after else 0) (tails i) (bl_stop ?l) (bl_handlers ?l ! i)"
      "filter (is_from i) (bl_messages ?l) = map json_norm (take (ks' i) (mss ! i))"
    using assms(10) by (simp_all add: delivering_def)
  have "ks' i = length (mss ! i)"
    if "arrived i before = framed (mss ! i)" "Stop_called \<notin> set (before @ after)" "3 * length (mss ! i) \<le> handled i after"
  proof -
    have "to_come tails after ?m i = []"
      using that(1) later [OF assms(10)] assms(4,5,10) by (simp add: to_come_def [of _ before])
    then have "steps_left (bl_handlers ?l ! i) (drop (ks' i) (mss ! i)) = 0" "ks' i \<le> length (mss ! i)"
      using i(1) that(3) stop_only_called [OF assms(2) that(2)] by (simp_all add: progress_def)
    then show ?thesis
      by (auto simp: steps_left_def split: handler_pc.splits)
  qed
  with i(2) ks show ?thesis
    by (auto simp: delivering_def)
qed

definition sample_blistener :: blistener where
  "sample_blistener =
     \<lparr>bl_address_list = [''h:1'', ''h:2''], bl_my_id = ''h:1'', bl_messages = [], bl_stop = False,
      bl_handlers = replicate 2 \<lparr>h_stream = [], h_closed = False, h_pc = H_Test\<rparr>, bl_pc = BL_Running\<rparr>"

definition sample_letters :: "pyval list list" where
  "sample_letters = [[PyNone], [PyBool True]]"

definition sample_from :: "nat \<Rightarrow> pyval \<Rightarrow> bool" where
  "sample_from i v \<longleftrightarrow> v = (if i = 0 then PyNone else PyBool True)"

text \<open>
  The frame of the one message of peer 0 comes in two chunks, the second of them while its
  handler waits for the text; peer 1 has sent one byte and hangs up before its handler reads.
\<close>

definition sample_before :: "blistener_move list" where
  "sample_before =
     [Handle 0 2, Handle 0 2, Arrive 0 (take 2 (framed [PyNone])), Arrive 1 (take 1 (framed [PyBool True])), Handle 0 2,
      Handle 0 2, Run, Arrive 0 (drop 2 (framed [PyNone]))]"

definition sample_after :: "blistener_move list" where
  "sample_after = [Handle 1 2, Handle 0 4, Hang_up 1, Handle 0 2, Handle 0 2]"

theorem handlers_keep_the_order_of_a_peer_witness:
  "filter (sample_from 0) (bl_messages (blistener_run (\<lambda>_ _. None) (\<lambda>_ _. None) (sample_before @ sample_after) sample_blistener))
     = [PyNone]"
proof -
  have dumps: "json_dumps PyNone = ''null''" "json_dumps (PyBool True) = ''true''"
    by simp_all
  have frames: "framed [PyNone] = [0, 4] @ py_encode ''null''" "framed [PyBool True] = [0, 4] @ py_encode ''true''"
    by (simp_all add: frame_cases dumps)
  have arrived: "arrived 0 sample_before = framed [PyNone]" "arrived 0 (sample_before @ sample_after) = framed [PyNone]"
      "arrived 1 (sample_before @ sample_after) = [0]"
    by (simp_all add: sample_before_def sample_after_def frames del: framed_simps)
  have whole: "whole_run (\<lambda>_ _. None) (\<lambda>_ _. None) (sample_before @ sample_after) sample_blistener"
    by (simp add: sample_before_def sample_after_def sample_blistener_def frames whole_read_def handle_at_def handler_step_def
        blocked_def at_handler_def BListener_run_step_def sock_recv_def from_bytes_def del: framed_simps)
  have "\<exists>k. filter (sample_from 0) (bl_messages (blistener_run (\<lambda>_ _. None) (\<lambda>_ _. None) (sample_before @ sample_after) sample_blistener))
       = map json_norm (take k (sample_letters ! 0))
     \<and> (arrived 0 sample_before = framed (sample_letters ! 0) \<and> Stop_called \<notin> set (sample_before @ sample_after)
         \<and> 3 * length (sample_letters ! 0) \<le> handled 0 sample_after \<longrightarrow> k = length (sample_letters ! 0))
     \<and> set (bl_messages (blistener_run (\<lambda>_ _. None) (\<lambda>_ _. None) (sample_before @ sample_after) sample_blistener))
       \<subseteq> json_norm ` (\<Union>ms \<in> set sample_letters. set ms)"
  proof (rule handlers_keep_the_order_of_a_peer [OF _ _ _ _ _ _ _ _ whole])
    show "\<forall>j < length sample_letters. prefix (arrived j (sample_before @ sample_after)) (framed (sample_letters ! j))"
      using arrived by (auto simp: sample_letters_def less_Suc_eq frames simp del: framed_simps)
  qed (auto simp: sample_blistener_def sample_letters_def sample_from_def tells_apart_def less_Suc_eq)
  moreover have "Stop_called \<notin> set (sample_before @ sample_after)" "handled 0 sample_after = 3"
    by (simp_all add: sample_before_def sample_after_def handled_def handles_def)
  ultimately show ?thesis
    using arrived by (simp add: sample_letters_def)
qed

text \<open>
  C40. A stopped listener ends when its peers let it: if all of them have closed their
  connections, three steps of each handler and two of the process, in any order among the
  handlers, are enough; but as long as one peer neither sends nor closes, its handler stays
  in \<open>recv\<close> and the process does not end, whatever else happens.
\<close>

theorem stopped_listener_needs_its_peers:
  assumes "bl_stop l" and "bl_pc l = BL_Running" and "bl_address_list l \<noteq> []" and "\<forall>h \<in> set (bl_handlers l). h_pc h \<noteq> H_New"
  shows "((\<forall>h \<in> set (bl_handlers l). h_closed h) \<and> (\<forall>i < length (bl_handlers l). 3 \<le> handled i mvs)
      \<longrightarrow> bl_pc (blistener_run bind connect (mvs @ [Run, Run]) l) = BL_Closed)
    \<and> (i < length (bl_handlers l) \<and> blocked (bl_handlers l ! i) \<and> (\<forall>mv \<in> set mvs. leaves_alone i mv)
      \<longrightarrow> bl_pc (blistener_run bind connect mvs l) \<in> {BL_Running, BL_Waiting})"
proof (rule conjI)
  show "(\<forall>h \<in> set (bl_handlers l). h_closed h) \<and> (\<forall>i < length (bl_handlers l). 3 \<le> handled i mvs)
      \<longrightarrow> bl_pc (blistener_run bind connect (mvs @ [Run, Run]) l) = BL_Closed"
  proof (intro impI, elim conjE)
    assume closed: "\<forall>h \<in> set (bl_handlers l). h_closed h" and enough: "\<forall>i < length (bl_handlers l). 3 \<le> handled i mvs"
    have "steps_to_end h \<le> 3" for h
      by (cases "h_pc h") (simp_all add: steps_to_end_def)
    with assms closed have "stopping (\<lambda>_. 0) l"
      by (simp add: stopping_def hung_up_def)
    from stopping_run [OF this, of mvs bind connect] enough
    have "stopping (\<lambda>i. handled i mvs) (blistener_run bind connect mvs l)"
        "list_all ended (bl_handlers (blistener_run bind connect mvs l))"
      by (auto simp: stopping_def list_all_length ended_iff)
    then show "bl_pc (blistener_run bind connect (mvs @ [Run, Run]) l) = BL_Closed"
      by (auto simp: stopping_def BListener_run_step_def)
  qed
  show "i < length (bl_handlers l) \<and> blocked (bl_handlers l ! i) \<and> (\<forall>mv \<in> set mvs. leaves_alone i mv)
      \<longrightarrow> bl_pc (blistener_run bind connect mvs l) \<in> {BL_Running, BL_Waiting}"
    using awaiting_run [of i "bl_handlers l ! i" l mvs bind connect] assms(2) by (auto simp: awaiting_def)
qed

text \<open>Two peers, one of which has hung up, and a handler each; then both have hung up.\<close>

definition sample_stopped :: "bool \<Rightarrow> blistener" where
  "sample_stopped both =
     \<lparr>bl_address_list = [''h:1'', ''h:2''], bl_my_id = ''h:1'', bl_messages = [], bl_stop = True,
      bl_handlers = [\<lparr>h_stream = [0, 0], h_closed = True, h_pc = H_Text 2\<rparr>, \<lparr>h_stream = [], h_closed = both, h_pc = H_Length\<rparr>],
      bl_pc = BL_Running\<rparr>"

theorem stopped_listener_needs_its_peers_witness:
  "bl_pc (blistener_run (\<lambda>_ _. None) (\<lambda>_ _. None)
      ([Handle 0 1, Handle 1 1, Handle 1 1, Handle 0 1, Handle 0 1, Handle 1 1] @ [Run, Run]) (sample_stopped True)) = BL_Closed
   \<and> bl_pc (blistener_run (\<lambda>_ _. None) (\<lambda>_ _. None)
      [Handle 0 1, Handle 1 1, Run, Handle 1 1, Handle 0 1, Run] (sample_stopped False)) \<in> {BL_Running, BL_Waiting}"
proof
  have "handled i [Handle 0 1, Handle 1 1, Handle 1 1, Handle 0 1, Handle 0 1, Handle 1 1] = 3" if "i < 2" for i
    using that by (auto simp: handled_def handles_def less_2_cases_iff)
  with stopped_listener_needs_its_peers [of "sample_stopped True"
      "[Handle 0 1, Handle 1 1, Handle 1 1, Handle 0 1, Handle 0 1, Handle 1 1]"]
  show "bl_pc (blistener_run (\<lambda>_ _. None) (\<lambda>_ _. None)
      ([Handle 0 1, Handle 1 1, Handle 1 1, Handle 0 1, Handle 0 1, Handle 1 1] @ [Run, Run]) (sample_stopped True)) = BL_Closed"
    by (simp add: sample_stopped_def)
  from stopped_listener_needs_its_peers [of "sample_stopped False" "[Handle 0 1, Handle 1 1, Run, Handle 1 1, Handle 0 1, Run]" _ _ 1]
  show "bl_pc (blistener_run (\<lambda>_ _. None) (\<lambda>_ _. None)
      [Handle 0 1, Handle 1 1, Run, Handle 1 1, Handle 0 1, Run] (sample_stopped False)) \<in> {BL_Running, BL_Waiting}"
    by (simp add: sample_stopped_def blocked_def leaves_alone_def)
qed

end
