(* ===== verification/Log_Analysis.thy ===== *)
theory Log_Analysis
  imports Py_Text
begin

text \<open>
  The analysis of the simulator's logs in \<^verbatim>\<open>plot_ack_convergence.py\<close>, \<^verbatim>\<open>plot_element.py\<close>
  and \<^verbatim>\<open>plot_local_group.py\<close>: the numbers they compute before they draw them. What the
  builtin \<open>float\<close> makes of a text (rounding included) and numpy's \<open>mean\<close> and \<open>std\<close> of a row
  are parameters; the sums are exact.
\<close>

section \<open>Reading a log\<close>

text \<open>\<open>s.split()\<close>: the words between white space.\<close>

fun py_words :: "string \<Rightarrow> string list" where
  "py_words [] = []"
| "py_words (c # s) =
     (if py_space c then py_words s
      else if s = [] \<or> py_space (hd s) then [c] # py_words s
      else (case py_words s of [] \<Rightarrow> [[c]] | w # ws \<Rightarrow> (c # w) # ws))"

record numerics =
  float_of :: "string \<Rightarrow> py_error + rat"
  np_mean :: "rat list \<Rightarrow> rat"
  np_std :: "rat list \<Rightarrow> rat"

type_synonym logs = "string \<rightharpoonup> string"

definition log_name :: "string \<Rightarrow> string \<Rightarrow> int \<Rightarrow> int \<Rightarrow> string" where
  "log_name dir kind i x = dir @ ''/seed'' @ py_str_int i @ ''-'' @ py_str_int x @ kind @ ''.out''"

definition read_lines :: "logs \<Rightarrow> string \<Rightarrow> ('s, string list) py" where
  "read_lines logs name = (case logs name of None \<Rightarrow> raise FileNotFoundError | Some t \<Rightarrow> ret (file_lines t))"

text \<open>The time of the last line but \<open>skip\<close>, between its first and its last character.\<close>

definition last_time :: "numerics \<Rightarrow> string list \<Rightarrow> int \<Rightarrow> py_error + rat" where
  "last_time num data back =
     rbind (py_getitem data (- back)) (\<lambda>line.
     rbind (py_getitem (py_words line) 0) (\<lambda>t.
     float_of num (drop 1 (take (length t - 1) t))))"

text \<open>The numbers at the ends of the last \<open>n\<close> lines.\<close>

fun trailing_numbers :: "numerics \<Rightarrow> string list \<Rightarrow> nat list \<Rightarrow> rat list \<Rightarrow> py_error + rat list" where
  "trailing_numbers num data [] acks = Inr acks"
| "trailing_numbers num data (y # ys) acks =
     rbind (py_getitem data (- (int y + 1))) (\<lambda>l.
     rbind (py_getitem (py_words l) (- 1)) (\<lambda>line.
     rbind (float_of num line) (\<lambda>a. trailing_numbers num data ys (acks @ [a]))))"

section \<open>The scripts\<close>

record figures =
  convergence_times :: "rat list list"
  convergence_std :: "rat list"
  convergence_averages :: "rat list"
  number_of_acks :: "rat list"
  acks_std :: "rat list"

definition zeros :: "nat \<Rightarrow> figures" where
  "zeros n =
     \<lparr>convergence_times = replicate n (replicate 5 0), convergence_std = replicate n 0, convergence_averages = replicate n 0,
      number_of_acks = replicate n 0, acks_std = replicate n 0\<rparr>"

text \<open>
  The first loop of each script, over the sizes \<open>xs\<close>: \<open>back x\<close> is the line, from the end,
  that has the last time.
\<close>

definition convergence :: "numerics \<Rightarrow> logs \<Rightarrow> string \<Rightarrow> string \<Rightarrow> (int \<Rightarrow> int) \<Rightarrow> int list \<Rightarrow> (figures, unit) py" where
  "convergence num logs dir kind back xs =
     for_each (enumerate 0 xs) (\<lambda>(index, x).
       seq (for_each [1..5] (\<lambda>i.
              bnd (read_lines logs (log_name dir kind i x)) (\<lambda>data.
              bnd (lift_result (last_time num data (back x))) (\<lambda>t.
              modify (\<lambda>s. s\<lparr>convergence_times :=
                (convergence_times s)[index := (convergence_times s ! index)[nat (i - 1) := t]]\<rparr>)))))
           (modify (\<lambda>s. s\<lparr>convergence_std := map (np_std num) (convergence_times s),
              convergence_averages := (convergence_averages s)[index := np_mean num (convergence_times s ! index)]\<rparr>)))"

text \<open>The second loop of two of them: the \<open>many x\<close> lines at the end count acknowledgements.\<close>

definition count_one ::
  "numerics \<Rightarrow> logs \<Rightarrow> string \<Rightarrow> string \<Rightarrow> (int \<Rightarrow> nat) \<Rightarrow> nat \<Rightarrow> int \<Rightarrow> int \<Rightarrow> (figures, unit) py" where
  "count_one num logs dir kind many index x i =
     bnd (read_lines logs (log_name dir kind i x)) (\<lambda>data.
     bnd (lift_result (trailing_numbers num data [0..<many x] [])) (\<lambda>acks.
     modify (\<lambda>s. s\<lparr>acks_std := (acks_std s)[index := np_std num acks],
       number_of_acks := (number_of_acks s)[index := sum_list acks / of_int x]\<rparr>)))"

definition count_acks :: "numerics \<Rightarrow> logs \<Rightarrow> string \<Rightarrow> string \<Rightarrow> (int \<Rightarrow> nat) \<Rightarrow> int list \<Rightarrow> (figures, unit) py" where
  "count_acks num logs dir kind many xs =
     for_each (enumerate 0 xs) (\<lambda>(index, x). for_each [1..5] (count_one num logs dir kind many index x))"

definition sizes_19 :: "int list" where "sizes_19 = map (\<lambda>k. 2 * k + 3) [0..8]"
definition sizes_25 :: "int list" where "sizes_25 = map (\<lambda>k. 2 * k + 3) [0..11]"

definition plot_ack_convergence :: "numerics \<Rightarrow> logs \<Rightarrow> (figures, unit) py" where
  "plot_ack_convergence num logs =
     seq (convergence num logs ''ack_convergence_logs'' ''nodes'' (\<lambda>x. x + 1) sizes_19)
         (count_acks num logs ''ack_convergence_logs'' ''nodes'' nat sizes_19)"

definition plot_element :: "numerics \<Rightarrow> logs \<Rightarrow> (figures, unit) py" where
  "plot_element num logs =
     seq (convergence num logs ''element_scale_logs'' ''element'' (\<lambda>_. 6) sizes_19)
         (count_acks num logs ''element_scale_logs'' ''element'' (\<lambda>_. 5) sizes_19)"

definition plot_local_group :: "numerics \<Rightarrow> logs \<Rightarrow> (figures, unit) py" where
  "plot_local_group num logs = convergence num logs ''logs'' ''nodes'' (\<lambda>_. 1) sizes_25"

section \<open>What the second loop leaves behind\<close>

definition acks_of_seed ::
  "numerics \<Rightarrow> logs \<Rightarrow> string \<Rightarrow> string \<Rightarrow> (int \<Rightarrow> nat) \<Rightarrow> int \<Rightarrow> int \<Rightarrow> rat list \<Rightarrow> bool" where
  "acks_of_seed num logs dir kind many i x acks \<longleftrightarrow>
     (\<exists>text. logs (log_name dir kind i x) = Some text
        \<and> trailing_numbers num (file_lines text) [0..<many x] [] = Inr acks)"

text \<open>The figures at \<open>index\<close> come from the log of seed 5, for size \<open>x\<close>.\<close>

definition shows_seed_5 ::
  "numerics \<Rightarrow> logs \<Rightarrow> string \<Rightarrow> string \<Rightarrow> (int \<Rightarrow> nat) \<Rightarrow> int \<Rightarrow> nat \<Rightarrow> figures \<Rightarrow> bool" where
  "shows_seed_5 num logs dir kind many x index s \<longleftrightarrow>
     (\<exists>acks. acks_of_seed num logs dir kind many 5 x acks
        \<and> number_of_acks s ! index = sum_list acks / of_int x \<and> acks_std s ! index = np_std num acks)"

definition same_elsewhere :: "nat \<Rightarrow> figures \<Rightarrow> figures \<Rightarrow> bool" where
  "same_elsewhere k s t \<longleftrightarrow>
     length (number_of_acks t) = length (number_of_acks s) \<and> length (acks_std t) = length (acks_std s)
     \<and> (\<forall>j. j \<noteq> k \<longrightarrow> number_of_acks t ! j = number_of_acks s ! j \<and> acks_std t ! j = acks_std s ! j)"

lemma one_log:
  assumes "k < length (number_of_acks s)" and "k < length (acks_std s)"
  shows "wp (count_one num logs dir kind many k x i)
    (\<lambda>_ t. same_elsewhere k s t
       \<and> (\<exists>acks. acks_of_seed num logs dir kind many i x acks
            \<and> number_of_acks t ! k = sum_list acks / of_int x \<and> acks_std t ! k = np_std num acks)) (\<lambda>_ _. True) s"
  using assms by (auto simp: count_one_def read_lines_def wp same_elsewhere_def acks_of_seed_def)

lemma all_seeds:
  assumes "k < length (number_of_acks s)" and "k < length (acks_std s)"
  shows "wp (for_each [1..5] (count_one num logs dir kind many k x))
    (\<lambda>_ t. same_elsewhere k s t \<and> shows_seed_5 num logs dir kind many x k t) (\<lambda>_ _. True) s"
proof -
  let ?shown = "\<lambda>i t. \<exists>acks. acks_of_seed num logs dir kind many i x acks
      \<and> number_of_acks t ! k = sum_list acks / of_int x \<and> acks_std t ! k = np_std num acks"
  let ?I = "\<lambda>is t. same_elsewhere k s t \<and> (\<exists>n. is = [n..5]) \<and> (is = [] \<longrightarrow> ?shown 5 t)"
  have "wp (for_each [1..5] (count_one num logs dir kind many k x))
      (\<lambda>_ t. ?I [] t) (\<lambda>_ _. True) s"
  proof (rule wp_for_each [where I = ?I])
    show "?I [1..5] s"
      by (auto simp: same_elsewhere_def)
  next
    fix i "is" t
    assume I: "?I (i # is) t"
    then obtain n where n: "i # is = [n..5]"
      by blast
    then have "i = n" "is = [n + 1..5]" "n \<le> 5"
      by (auto simp: upto.simps [of n 5] split: if_splits)
    then have last: "is = [] \<longrightarrow> i = 5" and "\<exists>n. is = [n..5]"
      by auto
    have "k < length (number_of_acks t)" "k < length (acks_std t)"
      using I assms by (simp_all add: same_elsewhere_def)
    from one_log [OF this, of num logs dir kind many x i]
    show "wp (count_one num logs dir kind many k x i)
        (\<lambda>_ t'. ?I is t') (\<lambda>_ _. True) t"
      by (rule wp_mono) (use I last \<open>\<exists>n. is = [n..5]\<close> in \<open>auto simp: same_elsewhere_def\<close>)
  qed
  then show ?thesis
    by (rule wp_mono) (auto simp: shows_seed_5_def)
qed

lemma count_acks_from:
  assumes "k + length xs \<le> length (number_of_acks s)" and "k + length xs \<le> length (acks_std s)"
  shows "wp (for_each (enumerate k xs) (\<lambda>(index, x). for_each [1..5] (count_one num logs dir kind many index x)))
    (\<lambda>_ t. (\<forall>j < length xs. shows_seed_5 num logs dir kind many (xs ! j) (k + j) t)
       \<and> (\<forall>j < k. number_of_acks t ! j = number_of_acks s ! j \<and> acks_std t ! j = acks_std s ! j)) (\<lambda>_ _. True) s"
  using assms
proof (induction xs arbitrary: k s)
  case (Cons x xs)
  have "k < length (number_of_acks s)" "k < length (acks_std s)"
    using Cons.prems by simp_all
  from all_seeds [OF this, of num logs dir kind many x] show ?case
    unfolding enumerate_simps for_each.simps wp_seq case_prod_conv
  proof (rule wp_mono)
    fix t
    assume t: "same_elsewhere k s t \<and> shows_seed_5 num logs dir kind many x k t"
    with Cons.prems have "Suc k + length xs \<le> length (number_of_acks t)" "Suc k + length xs \<le> length (acks_std t)"
      by (simp_all add: same_elsewhere_def)
    from Cons.IH [OF this] show "wp (for_each (enumerate (Suc k) xs) (\<lambda>(index, x). for_each [1..5] (count_one num logs dir kind many index x)))
      (\<lambda>_ t. (\<forall>j < length (x # xs). shows_seed_5 num logs dir kind many ((x # xs) ! j) (k + j) t)
         \<and> (\<forall>j < k. number_of_acks t ! j = number_of_acks s ! j \<and> acks_std t ! j = acks_std s ! j)) (\<lambda>_ _. True) t"
      by (rule wp_mono)
         (use t in \<open>auto simp: same_elsewhere_def shows_seed_5_def nth_Cons less_Suc_eq_le split: nat.splits\<close>)
  qed simp_all
qed (simp add: wp)

lemma count_acks_seed_5:
  assumes "length xs \<le> length (number_of_acks s)" and "length xs \<le> length (acks_std s)"
  shows "wp (count_acks num logs dir kind many xs)
    (\<lambda>_ t. \<forall>j < length xs. shows_seed_5 num logs dir kind many (xs ! j) j t) (\<lambda>_ _. True) s"
  unfolding count_acks_def by (rule wp_mono [OF count_acks_from]) (use assms in auto)

definition rows :: "nat \<Rightarrow> figures \<Rightarrow> bool" where
  "rows n s \<longleftrightarrow> length (number_of_acks s) = n \<and> length (acks_std s) = n"

lemma convergence_rows: "always (preserving (rows n)) (convergence num logs dir kind back xs)"
  unfolding convergence_def read_lines_def
  by (intro preserving.frame_intros preserving.modify_frame) (simp_all add: preserving_def rows_def)

lemma trailing_length: "trailing_numbers num data ys acks = Inr as \<Longrightarrow> length as = length acks + length ys"
  by (induction ys arbitrary: acks) (auto simp: rbind_Inr_iff)

lemma script_seed_5:
  assumes "seq (convergence num logs dir kind back sizes_19) (count_acks num logs dir kind many sizes_19) (zeros 9) = (Inr (), t)"
    and "index < 9"
  shows "shows_seed_5 num logs dir kind many (2 * int index + 3) index t"
proof -
  have sizes: "length sizes_19 = 9" "sizes_19 ! index = 2 * int index + 3"
    using assms(2) by (simp_all add: sizes_19_def)
  have "wp (convergence num logs dir kind back sizes_19) (\<lambda>_. rows 9) (\<lambda>_ _. True) (zeros 9)"
    by (rule wp_mono [OF alwaysD [OF convergence_rows [of 9]]]) (simp_all add: preserving_def rows_def zeros_def)
  then have "wp (seq (convergence num logs dir kind back sizes_19) (count_acks num logs dir kind many sizes_19))
      (\<lambda>_ t. \<forall>j < 9. shows_seed_5 num logs dir kind many (sizes_19 ! j) j t) (\<lambda>_ _. True) (zeros 9)"
    unfolding wp_seq
    by (rule wp_mono) (use sizes(1) in \<open>auto simp: rows_def intro: wp_mono [OF count_acks_seed_5]\<close>)
  from wp_returns [OF this assms(1)] assms(2) sizes(2) show ?thesis
    by auto
qed

lemma ack_convergence_seed_5:
  "plot_ack_convergence num logs (zeros 9) = (Inr (), t) \<Longrightarrow> index < 9 \<Longrightarrow>
     shows_seed_5 num logs ''ack_convergence_logs'' ''nodes'' nat (2 * int index + 3) index t"
  unfolding plot_ack_convergence_def by (rule script_seed_5)

section \<open>Properties\<close>

text \<open>
  What \<open>plot_element\<close> draws as the mean number of acknowledgements: the five counts of
  one log, that of seed 5 (the other seeds are overwritten), divided by the number of
  elements; it is the mean of the five nodes only for five elements.
\<close>

theorem element_acks_are_not_the_mean:
  assumes "plot_element num logs (zeros 9) = (Inr (), t)" and "index < 9"
  shows "\<exists>acks. acks_of_seed num logs ''element_scale_logs'' ''element'' (\<lambda>_. 5) 5 (2 * int index + 3) acks
     \<and> length acks = 5 \<and> number_of_acks t ! index = sum_list acks / of_nat (2 * index + 3)
     \<and> acks_std t ! index = np_std num acks
     \<and> (number_of_acks t ! index = sum_list acks / of_nat (length acks) \<longleftrightarrow> index = 1 \<or> sum_list acks = 0)"
proof -
  from script_seed_5 [OF assms(1) [unfolded plot_element_def] assms(2)] obtain acks where
    acks: "acks_of_seed num logs ''element_scale_logs'' ''element'' (\<lambda>_. 5) 5 (2 * int index + 3) acks"
      "number_of_acks t ! index = sum_list acks / of_int (2 * int index + 3)" "acks_std t ! index = np_std num acks"
    by (auto simp: shows_seed_5_def)
  from acks(1) have "length acks = 5"
    by (auto simp: acks_of_seed_def dest: trailing_length)
  moreover have "a / (2 * rat_of_nat index + 3) = a / 5 \<longleftrightarrow> index = 1 \<or> a = 0" for a :: rat
    by (auto simp: field_simps)
  ultimately show ?thesis
    using acks by (intro exI [of _ acks]) simp
qed

text \<open>Logs in which each of five nodes has received two acknowledgements.\<close>

definition sample_numerics :: numerics where
  "sample_numerics = \<lparr>float_of = (\<lambda>s. Inr (if s = ''2'' then 2 else 3 / 2)), np_mean = hd, np_std = (\<lambda>_. 0)\<rparr>"

definition sample_log :: string where
  "sample_log = concat (replicate 6 (''+1.5s #ACKS for node 0: 2'' @ [CHR 0x0A]))"

lemma sample_lines: "file_lines sample_log = replicate 6 (''+1.5s #ACKS for node 0: 2'' @ [CHR 0x0A])"
  by (simp add: file_lines_def sample_log_def numeral_eq_Suc)

definition sure :: "('s, 'a) py \<Rightarrow> bool" where
  "sure m \<longleftrightarrow> (\<forall>s. wp m (\<lambda>_ _. True) (\<lambda>_ _. False) s)"

lemma sure_seq: "sure m \<Longrightarrow> sure n \<Longrightarrow> sure (seq m n)"
  unfolding sure_def wp_seq by (auto intro: wp_mono)

lemma sure_for_each: "(\<And>x. sure (f x)) \<Longrightarrow> sure (for_each xs f)"
  unfolding sure_def by (auto intro!: wp_for_each [where I = "\<lambda>_ _. True"])

lemma sure_case: "(\<And>a b. sure (f a b)) \<Longrightarrow> sure (case p of (a, b) \<Rightarrow> f a b)"
  by (cases p) simp

lemma sample_run: "\<exists>t. plot_element sample_numerics (\<lambda>_. Some sample_log) (zeros 9) = (Inr (), t)"
proof -
  let ?line = "''+1.5s #ACKS for node 0: 2'' @ [CHR 0x0A]"
  have words: "py_words ?line = [''+1.5s'', ''#ACKS'', ''for'', ''node'', ''0:'', ''2'']"
    by code_simp
  have time: "last_time sample_numerics (file_lines sample_log) 6 = Inr (3 / 2)"
    unfolding sample_lines last_time_def py_getitem_def py_norm_index_def Let_def
    by (simp add: words sample_numerics_def del: py_words.simps append.simps)
  have acks: "trailing_numbers sample_numerics (file_lines sample_log) [0..<5] [] = Inr [2, 2, 2, 2, 2]"
    unfolding sample_lines py_getitem_def py_norm_index_def Let_def
    by (simp add: upt_rec words sample_numerics_def py_getitem_def py_norm_index_def del: py_words.simps append.simps)
  have "sure (count_one sample_numerics (\<lambda>_. Some sample_log) dir kind (\<lambda>_. 5) k x i)" for dir kind k x i
    by (simp add: sure_def count_one_def read_lines_def wp acks)
  moreover have "sure (bnd (read_lines (\<lambda>_. Some sample_log) name) (\<lambda>data.
      bnd (lift_result (last_time sample_numerics data 6)) (\<lambda>t. modify (f t))))" for name and f :: "rat \<Rightarrow> figures \<Rightarrow> figures"
    by (simp add: sure_def read_lines_def wp time)
  moreover have "sure (modify f)" for f :: "figures \<Rightarrow> figures"
    by (simp add: sure_def wp)
  ultimately have "sure (plot_element sample_numerics (\<lambda>_. Some sample_log))"
    unfolding plot_element_def convergence_def count_acks_def by (intro sure_seq sure_for_each sure_case)
  then show ?thesis
    using wp_total [of "plot_element sample_numerics (\<lambda>_. Some sample_log)" "\<lambda>_ _. True" "zeros 9"]
    by (simp add: sure_def)
qed

theorem element_acks_are_not_the_mean_witness:
  "\<exists>t acks. plot_element sample_numerics (\<lambda>_. Some sample_log) (zeros 9) = (Inr (), t)
     \<and> length acks = 5 \<and> number_of_acks t ! 0 = sum_list acks / of_nat (2 * 0 + 3)
     \<and> acks_of_seed sample_numerics (\<lambda>_. Some sample_log) ''element_scale_logs'' ''element'' (\<lambda>_. 5) 5 3 acks"
proof -
  obtain t where t: "plot_element sample_numerics (\<lambda>_. Some sample_log) (zeros 9) = (Inr (), t)"
    using sample_run ..
  from element_acks_are_not_the_mean [OF this, of 0] t show ?thesis
    by auto
qed

end
