(* ===== verification/Spec2Isabelle.thy ===== *)
theory Spec2Isabelle
  imports Raft_Progress Raft_Early_Commit Raft_Shared_Log Raft_Races Experiment_Results Raft_Hazards Raft_Behaviour Commit_Log
    Deployment Simulator Berkeley_Listener Log_Analysis
begin

text \<open>
  Group formation and consensus for mobile devices: a verification library for the Python
  code under \<^verbatim>\<open>src/\<close>. Paths are relative to the root of the repository.

  \<^bold>\<open>The program.\<close> Devices (\<^verbatim>\<open>node.py\<close>) advertise themselves to a relay that stands for the
  Bluetooth medium (\<^verbatim>\<open>bluetooth_broadcast_node.py\<close>), keep the group of peers they hear and
  drop those that fall silent; a second relay (\<^verbatim>\<open>edge_broadcast_node.py\<close>) spreads the
  advertisements of edge servers (\<^verbatim>\<open>edge.py\<close>), which devices answer over a stream. A group
  agrees on a value with a Raft variant (\<^verbatim>\<open>raft/raft.py\<close>) whose nodes exchange JSON messages
  (\<^verbatim>\<open>raft/protocol.py\<close>) through a talker and a listener process, over zmq
  (\<^verbatim>\<open>raft/interface.py\<close>) or over plain sockets (\<^verbatim>\<open>raft/berkeley_socket_interface.py\<close>).
  \<^verbatim>\<open>commitlog.py\<close> keeps a log in a file.

  \<^bold>\<open>Which theory models what.\<close> Definitions have the names of the functions; where a class
  name was needed it is a prefix.
  \<^item> \<open>Py_Prelude\<close>: Python values (\<open>pyval\<close>), exceptions (\<open>py_error\<close>), subscription, truth and
    equality, and the monad \<open>('s, 'a) py\<close>: a method maps the state to an exception or a
    result, and to the state with all assignments made before it raised. \<open>Py_Text\<close>:
    numerals, \<open>split\<close>, \<open>strip\<close>, the lines of a file, ASCII \<open>encode\<close> and \<open>decode\<close>. \<open>Py_Json\<close>:
    \<open>json.dumps\<close> and \<open>json.loads\<close>.
  \<^item> \<open>Raft_Protocol\<close>: \<^verbatim>\<open>raft/protocol.py\<close>, the message classes, \<open>jsonify\<close>, \<open>un_jsonify\<close> and
    \<open>parse_json_message\<close>. \<open>Raft_Transport\<close>: \<^verbatim>\<open>raft/interface.py\<close>, \<open>Talker\<close> and \<open>Listener\<close>.
    \<open>Berkeley_Interface\<close> and \<open>Berkeley_Listener\<close>: \<^verbatim>\<open>raft/berkeley_socket_interface.py\<close>, the
    talker with its frames, and the listener with its pool of threads, where every \<open>recv\<close> of
    a thread is a step (\<open>blistener_step\<close>).
  \<^item> \<open>Raft_Node\<close>, \<open>Raft_Follower\<close>, \<open>Raft_Candidate\<close>, \<open>Raft_Leader\<close>, \<open>Raft_Thread\<close>:
    \<^verbatim>\<open>raft/raft.py\<close>. The record \<open>raft_node\<close> has the attributes of \<open>RaftNode\<close>; \<open>_follower\<close>,
    \<open>_candidate\<close> and \<open>_leader\<close> are split into what they do before their loop and one
    iteration of it, with one definition per handled kind of message; \<open>thread_step\<close> is
    \<open>run\<close>, whose control point holds the loop it is in and the local variables.
  \<^item> \<open>Raft_System\<close>: a group of nodes with their processes, connections and clients;
    \<open>sys_step\<close> is one move of any of them.
  \<^item> \<open>Commit_Log\<close>: \<^verbatim>\<open>commitlog.py\<close>. \<open>Utility_Functions\<close>: \<^verbatim>\<open>utility_functions.py\<close> and
    \<^verbatim>\<open>consensusobject.py\<close>. \<open>Expiring_Members\<close>: tables of peers with the time of their last
    message, the loop that drops the old ones, and their histories. \<open>Node_App\<close>: \<^verbatim>\<open>node.py\<close>,
    with \<open>device_step\<close> for the interleavings of its threads; \<open>main_step\<close> is one access of the
    main thread to what it shares with them, in the loop of \<open>local_consensus\<close> too
    (\<open>gather_step\<close>). \<open>Edge_Server\<close>: \<^verbatim>\<open>edge.py\<close>, with its pool of workers as a queue of accepted
    connections and the list of those being served (\<open>edge_run\<close>), and \<^verbatim>\<open>edge/edge_node.py\<close>.
    \<open>Broadcast_Nodes\<close>: the two relays.
    \<open>Deployment\<close>: what the \<open>main\<close> of these programs does before its threads run, sockets first.
  \<^item> \<open>Experiments\<close>: \<^verbatim>\<open>test.py\<close>, \<^verbatim>\<open>network_test.py\<close>, \<^verbatim>\<open>network_test2.py\<close>,
    \<^verbatim>\<open>network_test_churn.py\<close> and \<open>test_failures\<close> of \<^verbatim>\<open>raft/raft.py\<close>: programs over the public
    interface of the nodes; the record \<open>world\<close> has what they do not choose, and between two
    of their statements the group makes any run. \<open>Log_Analysis\<close>: the numbers computed by
    \<^verbatim>\<open>plot_ack_convergence.py\<close>, \<^verbatim>\<open>plot_element.py\<close> and \<^verbatim>\<open>plot_local_group.py\<close>. \<open>Simulator\<close>: the
    start of the application of \<^verbatim>\<open>edge/edge_node.py\<close>, \<^verbatim>\<open>node/node_movement.py\<close> and the nodes of
    \<^verbatim>\<open>tools/wireless-model.py\<close>.

  \<^bold>\<open>What the lemmas show.\<close>
  \<^item> \<open>Raft_Frames\<close> and \<open>Raft_Invariant\<close>: what each method may change, exceptions included
    (terms grow, a leader only appends, messages go out under the node's own name), and
    that well-formed nodes with well-formed messages never raise; \<open>Raft_System\<close> lifts it to
    the group.
  \<^item> \<open>Raft_Ballots\<close>, \<open>Raft_Steps\<close>, \<open>Raft_Election\<close>, \<open>Raft_Scenarios\<close>: how many votes a node
    grants, that counted votes were granted, and one leader per term, on the condition that
    no candidate counts a vote of another term; and a run without it that has two leaders.
    \<open>Raft_Campaign\<close>: the count of a candidate as a function of the answers it reads, and a
    schedule of the whole group, for any size, that makes a given member its leader.
    \<open>Raft_Progress\<close> goes on from there, round by round: the leader offers an entry, each
    member takes it and answers, the last answer commits it and the members are told; so
    every list of requests can be served.
  \<^item> \<open>Raft_Replication\<close>, \<open>Raft_Behaviour\<close>, \<open>Raft_Hazards\<close>: the exchange that brings a
    follower's log to the leader's and its end, votes, timeouts and \<open>stop\<close>, and where
    replication goes wrong.
  \<^item> \<open>Raft_Exchange\<close>, \<open>Raft_Serving\<close>, \<open>Raft_Reign\<close>, \<open>Raft_First_Reign\<close>: the logs of a group while
    one leader leads. At most one offer or answer is on its way between the leader and a
    member, and at every point of the exchange what the leader counts as replicated is in
    the member's log; hence what it commits is in every log. The two conditions are that the
    reign starts \<open>settled\<close> (no talk about logs is left from before) and is \<open>unhurried\<close>: no
    offer is repeated while the first is alive, which is said of the leader's clock over the
    \<open>3 * members + 3\<close> readings that a pass of its loop makes at most. The first leader of a
    group needs only the second. \<open>Raft_Shared_Log\<close> has the contract of a reign as an abstract
    machine (\<open>log_step\<close>: propose an entry, decide a longer prefix) and the simulation.
    \<open>Raft_Stable_Run\<close> executes such a reign, \<open>Raft_Lost_Commit\<close> one that is not unhurried and
    loses a committed entry; \<open>Raft_Early_Commit\<close> shows that even in an unhurried one a follower
    can commit before its leader.
  \<^item> \<open>Raft_Races\<close>: two places of \<^verbatim>\<open>raft/raft.py\<close> where a call from another thread can fall
    inside a pass of the loop and matters: a client that reads the log while a follower
    cuts it, and a \<open>pause\<close> before a follower that has timed out sets its role.
  \<^item> \<open>Raft_Validity\<close>, \<open>Raft_Requests\<close>: a logged or committed value is one that a client asked
    for or one of the two that the program makes itself. \<open>Experiment_Results\<close> carries this to
    what the experiments print, and shows when they end.
  \<^item> The other components: the group table under its threads refines a machine over the
    history of what was heard, judged and dropped (\<open>expire\<close>; locale \<open>expiring_members\<close>,
    interpreted by devices and edge servers), the edge server has at most ten connections
    served, the earliest first, the log file refines a
    list of entries (\<open>appendable\<close>), a relay sends to all but the sender (\<open>relay\<close>, interpreted
    by both), texts and frames read back what was written, and the discovery of peers and
    of edge servers from end to end, through the relays. The handlers of a Berkeley listener
    keep the order of each peer in every interleaving and for every division of the streams
    into chunks, as long as no \<open>recv\<close> returns less than it asks for (\<open>whole_run\<close>; the program
    does not read on after a short read, which loses messages), and one that is stopped waits
    for its peers. The figures of the plots are sums of the logs, one of them over the wrong number.

  \<^bold>\<open>Conventions, bounds and fuel.\<close>
  \<^item> One pass of a role's loop is one step of a thread, so other threads and processes move
    between passes but not inside one; \<open>Raft_Races\<close> divides a pass at the points where that
    makes a difference. The threads of devices and edge servers, which share a table without a
    working lock, interleave at every access to it. A history (\<open>logged_run\<close>) records the
    events of such a run.
  \<^item> Time is a rational number read from an input (a clock, or ticks of a device). The
    system's choices are inputs too: the outcomes of socket calls as an error number or
    none, how much a \<open>recv\<close> returns, the random timeouts, lost messages.
  \<^item> What zmq's \<open>send_json\<close> and \<open>recv_json\<close> make of a message is the parameter \<open>tr\<close> of the
    group, relied on to carry plain values unchanged; \<open>json_norm\<close> is the instance used.
    \<open>old_div\<close> of the \<open>future\<close> package is the attribute \<open>lib_old_div\<close> of a node; where a
    majority matters it is relied on to be the floor of the quotient.
  \<^item> Loops over finite data are structural. Left alone, the loop of \<open>sweep_step\<close> takes at most
    two steps per key, and that of \<open>gather_step\<close> two steps per key and one, which is the
    fuel of \<open>gathered\<close>; \<open>json_loads\<close> has the length of the text, and every
    level of the recursion consumes a character; \<open>pursue\<close> is given twice the length of the
    leader's log, one offer to step back and one to go forward per entry. \<open>bind_from\<close>
    retries for ever if the address stays in use, and \<open>while_true\<close> of an experiment runs
    until the user presses Ctrl-C, so both are partial functions and not returning is
    \<open>None\<close>. \<open>log_replace_loop\<close> ends by the lines left to write.
  \<^item> Strings are sequences of ASCII characters in the parts that encode them; there are no
    floating-point values, except that a value of time stands for one.

  \<^item> Of other libraries, \<open>float\<close>, \<open>np.mean\<close>, \<open>np.std\<close>, \<open>np.sqrt\<close> and the vectors of ns-3 are
    parameters of the definitions that use them.

  \<^bold>\<open>What is not modelled.\<close> \<^verbatim>\<open>main.py\<close> and \<^verbatim>\<open>edge/test_edge.py\<close>, which place and start objects
  of the ns-3 simulator, whose bindings are not in the repository; \<^verbatim>\<open>raft_system.py\<close>, which
  imports from \<^verbatim>\<open>node.py\<close> a class that is not there, and so cannot start; \<^verbatim>\<open>plot.py\<close>,
  \<^verbatim>\<open>plot_failures.py\<close> and \<^verbatim>\<open>plot_scale.py\<close>, which draw literal numbers, and all drawing;
  \<^verbatim>\<open>node/node_application.py\<close>, whose methods are all \<open>pass\<close>; the C++ of \<^verbatim>\<open>ns3-src/\<close>. In the
  modelled files: output of the nodes to the terminal and to log files, Ctrl-C in processes
  other than the experiments, command lines, errors of the file system other than a missing
  file, and the functions of \<^verbatim>\<open>node.py\<close> and \<^verbatim>\<open>edge.py\<close> that have no body. An entry in a
  message is taken apart when the message is read: one without its keys, which no node sends
  (the messages of \<open>Raft_System\<close> are well formed), raises its exception before the log is cut
  or appended to, and in the code after.

  \<^bold>\<open>What is left open.\<close> Progress is shown for a schedule, not for every fair one: with no bound
  between the timeouts and the network a fair schedule can elect for ever. The nodes of
  \<open>Raft_System\<close> run over zmq, as \<^verbatim>\<open>raft/raft.py\<close> imports it; the Berkeley interface, which nothing
  imports, is verified for itself.
\<close>

end
